(* ===== verification/Prelude.thy ===== *)
theory Prelude
  imports Main "HOL-Library.Word"
begin

unbundle bit_operations_syntax

text \<open>
  What the components share: the widths of the C integers, bytes in network order, the
  reads and writes of a byte range of a buffer, C strings, and the generic lemmas about
  them. A C string is the list of its bytes before the terminating NUL.
\<close>

type_synonym u8 = "8 word"
type_synonym u16 = "16 word"
type_synonym u32 = "32 word"
type_synonym u64 = "64 word"
type_synonym bytes = "u8 list"
type_synonym cstring = "u8 list"

declare of_nat_unat [simp del]

lemma word_of_nat_unat [simp]: "(of_nat (unat w) :: 'a::len word) = w"
  by (simp add: of_nat_unat)

named_theorems buf_simps \<open>reads and writes of byte ranges\<close>

definition bytes_of :: "string \<Rightarrow> bytes" where
  "bytes_of s = map of_char s"

section \<open>Network byte order\<close>

definition be16 :: "u16 \<Rightarrow> bytes" where
  "be16 w = [ucast (drop_bit 8 w), ucast w]"

definition get16 :: "u8 \<Rightarrow> u8 \<Rightarrow> u16" where
  "get16 a b = push_bit 8 (ucast a) OR ucast b"

definition be32 :: "u32 \<Rightarrow> bytes" where
  "be32 w = [ucast (drop_bit 24 w), ucast (drop_bit 16 w), ucast (drop_bit 8 w), ucast w]"

definition get32 :: "u8 \<Rightarrow> u8 \<Rightarrow> u8 \<Rightarrow> u8 \<Rightarrow> u32" where
  "get32 a b c d =
     push_bit 24 (ucast a) OR push_bit 16 (ucast b) OR push_bit 8 (ucast c) OR ucast d"

lemma length_be16 [simp]: "length (be16 w) = 2"
  by (simp add: be16_def)

lemma length_be32 [simp]: "length (be32 w) = 4"
  by (simp add: be32_def)

lemma get16_be16 [simp]: "get16 (be16 w ! 0) (be16 w ! Suc 0) = w"
  unfolding be16_def get16_def
  by (rule bit_word_eqI) (auto simp: bit_simps)

lemma get32_be32 [simp]:
  "get32 (be32 w ! 0) (be32 w ! Suc 0) (be32 w ! 2) (be32 w ! 3) = w"
proof (rule bit_word_eqI)
  fix n assume n: "n < LENGTH(32)"
  then consider "n < 8" | "8 \<le> n" "n < 16" | "16 \<le> n" "n < 24" | "24 \<le> n" "n < 32"
    by (cases "n < 8"; cases "n < 16"; cases "n < 24") auto
  then show "bit (get32 (be32 w ! 0) (be32 w ! Suc 0) (be32 w ! 2) (be32 w ! 3)) n = bit w n"
    by cases (auto simp: be32_def get32_def bit_simps)
qed

lemma be16_get16 [simp]: "be16 (get16 a b) = [a, b]"
proof -
  have "\<not> bit b (8 + n)" for n
    using bit_imp_le_length[of b "8 + n"] by auto
  then show ?thesis
    unfolding be16_def get16_def by (auto intro!: bit_word_eqI simp: bit_simps)
qed

section \<open>Host byte order\<close>

text \<open>Integers that the code stores with \<^verbatim>\<open>memcpy\<close> or as struct members: little endian.\<close>

definition le16 :: "u16 \<Rightarrow> bytes" where
  "le16 w = rev (be16 w)"

definition le32 :: "u32 \<Rightarrow> bytes" where
  "le32 w = rev (be32 w)"

definition le64 :: "u64 \<Rightarrow> bytes" where
  "le64 w = map (\<lambda>i. ucast (drop_bit (8 * i) w)) [0..<8]"

definition le16_at :: "bytes \<Rightarrow> nat \<Rightarrow> u16" where
  "le16_at d i = get16 (d ! (i + 1)) (d ! i)"

definition le32_at :: "bytes \<Rightarrow> nat \<Rightarrow> u32" where
  "le32_at d i = get32 (d ! (i + 3)) (d ! (i + 2)) (d ! (i + 1)) (d ! i)"

lemma length_le16 [simp]: "length (le16 w) = 2"
  by (simp add: le16_def)

lemma length_le32 [simp]: "length (le32 w) = 4"
  by (simp add: le32_def)

lemma length_le64 [simp]: "length (le64 w) = 8"
  by (simp add: le64_def)

lemma le16_at_le16:
  "\<lbrakk>d ! i = le16 w ! 0; d ! (i + 1) = le16 w ! 1\<rbrakk> \<Longrightarrow> le16_at d i = w"
  using get16_be16[of w] by (simp add: le16_at_def le16_def be16_def)

lemma le32_at_le32:
  "\<lbrakk>d ! i = le32 w ! 0; d ! (i + 1) = le32 w ! 1; d ! (i + 2) = le32 w ! 2; d ! (i + 3) = le32 w ! 3\<rbrakk>
    \<Longrightarrow> le32_at d i = w"
  using get32_be32[of w] by (simp add: le32_at_def le32_def be32_def numeral_2_eq_2 numeral_3_eq_3)

section \<open>Byte ranges of a buffer\<close>

definition sub_bytes :: "'a list \<Rightarrow> nat \<Rightarrow> nat \<Rightarrow> 'a list" where
  "sub_bytes d i n = take n (drop i d)"

definition put_bytes :: "nat \<Rightarrow> 'a list \<Rightarrow> 'a list \<Rightarrow> 'a list" where
  "put_bytes i bs d = take i d @ bs @ drop (i + length bs) d"

lemma length_put_bytes [buf_simps]:
  "i + length bs \<le> length d \<Longrightarrow> length (put_bytes i bs d) = length d"
  by (simp add: put_bytes_def)

lemma length_sub_bytes [buf_simps]:
  "i + n \<le> length d \<Longrightarrow> length (sub_bytes d i n) = n"
  by (simp add: sub_bytes_def)

lemma nth_put_bytes:
  "i + length bs \<le> length d \<Longrightarrow> j < length d \<Longrightarrow>
   put_bytes i bs d ! j = (if i \<le> j \<and> j < i + length bs then bs ! (j - i) else d ! j)"
  by (auto simp: put_bytes_def nth_append)

lemma nth_sub_bytes [buf_simps]:
  "i + n \<le> length d \<Longrightarrow> j < n \<Longrightarrow> sub_bytes d i n ! j = d ! (i + j)"
  by (simp add: sub_bytes_def)

lemma sub_bytes_put_same [buf_simps]:
  "i + length bs \<le> length d \<Longrightarrow> sub_bytes (put_bytes i bs d) i (length bs) = bs"
  by (simp add: put_bytes_def sub_bytes_def)

lemma sub_bytes_cong:
  assumes "\<And>j. i \<le> j \<Longrightarrow> j < i + n \<Longrightarrow> d ! j = d' ! j"
    and "i + n \<le> length d" "i + n \<le> length d'"
  shows "sub_bytes d i n = sub_bytes d' i n"
  using assms by (intro nth_equalityI) (auto simp: buf_simps)

lemma sub_bytes_Suc [buf_simps]:
  "i < length d \<Longrightarrow> sub_bytes d i (Suc n) = d ! i # sub_bytes d (Suc i) n"
  by (simp add: sub_bytes_def Cons_nth_drop_Suc[symmetric])

lemma sub_bytes_append:
  "sub_bytes d i (m + n) = sub_bytes d i m @ sub_bytes d (i + m) n"
  by (simp add: sub_bytes_def take_add add.commute)

lemma sub_bytes_0 [simp]: "sub_bytes d i 0 = []"
  by (simp add: sub_bytes_def)

lemma put_bytes_adjacent: 
  "i + length a + length b \<le> length d \<Longrightarrow> put_bytes (i + length a) b (put_bytes i a d) = put_bytes i (a @ b) d"
  by (cases a) (auto simp: put_bytes_def min_def algebra_simps)

lemma put_bytes_before:
  "i + length a + length b \<le> length d \<Longrightarrow> put_bytes i a (put_bytes (i + length a) b d) = put_bytes i (a @ b) d"
  by (auto simp: put_bytes_def min_def algebra_simps)

lemma put_bytes_Nil [simp]: "put_bytes i [] d = d"
  by (simp add: put_bytes_def)

section \<open>C strings\<close>

text \<open>The C string a character array holds: its bytes before the first NUL.\<close>

definition cstr :: "bytes \<Rightarrow> cstring" where
  "cstr buf = takeWhile (\<lambda>b. b \<noteq> 0) buf"

definition strnlen :: "cstring \<Rightarrow> nat \<Rightarrow> nat" where
  "strnlen s n = min (length s) n"

text \<open>
  The string that \<^verbatim>\<open>safe_strncpy\<close> with size \<open>n\<close> copies from offset \<open>i\<close> of an array, and
  whether the array ends before a NUL or the size is reached.
\<close>

definition strncpy_at :: "bytes \<Rightarrow> nat \<Rightarrow> nat \<Rightarrow> cstring \<times> bool" where
  "strncpy_at buf i n =
     (cstr (take (n - 1) (drop i buf)),
      0 \<notin> set (take (n - 1) (drop i buf)) \<and> length buf < i + (n - 1))"

lemma cstr_append_nul [simp]: "0 \<notin> set s \<Longrightarrow> cstr (s @ 0 # r) = s"
  by (induction s) (auto simp: cstr_def)

lemma zero_notin_cstr [simp]: "0 \<notin> set (cstr buf)"
  by (auto simp: cstr_def dest: set_takeWhileD)

lemma length_cstr: "length (cstr buf) \<le> length buf"
  by (simp add: cstr_def length_takeWhile_le)

end
