(* ===== verification/Dns_Buffer.thy ===== *)
theory Dns_Buffer
  imports Prelude
begin

text \<open>
  The encode/decode context of \<^verbatim>\<open>src/src/dns.c\<close> (struct \<^verbatim>\<open>dns_context\<close>) and the
  primitives that read and write integers at its pointer.

  \<open>c_data\<close> is the C object that \<^verbatim>\<open>context->data\<close> points to and \<open>c_ptr\<close> is the
  offset \<^verbatim>\<open>context->ptr - context->data\<close>. \<open>c_fault\<close> is a ghost field: it becomes
  true when the code reads or writes a byte outside the object, so memory safety of an
  operation is the statement that it leaves \<open>c_fault\<close> false.
  The \<^verbatim>\<open>is_aligned\<close> branches of the primitives load or store the same bytes either way.
\<close>

abbreviation (input) DNS_MAX_CNAME_LEN :: int where "DNS_MAX_CNAME_LEN \<equiv> 256"
abbreviation (input) DNS_PACKET_DICT_SIZE :: nat where "DNS_PACKET_DICT_SIZE \<equiv> 16"

record dns_packet_dict_item =
  d_pos :: u16
  d_hash :: u32

record dns_context =
  c_data :: bytes
  c_maxsize :: int
  c_ptr :: nat
  c_namedict :: "dns_packet_dict_item list"
  c_fault :: bool

definition dns_left_len :: "dns_context \<Rightarrow> int" where
  "dns_left_len c = c_maxsize c - int (c_ptr c)"

text \<open>A store of the bytes \<open>bs\<close> at offset \<open>i\<close>; outside the object it is a fault.\<close>

definition write_bytes :: "dns_context \<Rightarrow> nat \<Rightarrow> bytes \<Rightarrow> dns_context" where
  "write_bytes c i bs =
     (if i + length bs \<le> length (c_data c) then c\<lparr>c_data := put_bytes i bs (c_data c)\<rparr>
      else c\<lparr>c_fault := True\<rparr>)"

text \<open>A load of \<open>n\<close> bytes at offset \<open>i\<close>; outside the object it is a fault.\<close>

definition read_bytes :: "dns_context \<Rightarrow> nat \<Rightarrow> nat \<Rightarrow> bytes \<times> dns_context" where
  "read_bytes c i n =
     (if i + n \<le> length (c_data c) then (sub_bytes (c_data c) i n, c)
      else (replicate n 0, c\<lparr>c_fault := True\<rparr>))"

definition dns_write_char :: "dns_context \<Rightarrow> u8 \<Rightarrow> dns_context" where
  "dns_write_char c v = (write_bytes c (c_ptr c) [v])\<lparr>c_ptr := c_ptr c + 1\<rparr>"

definition dns_write_short :: "dns_context \<Rightarrow> u16 \<Rightarrow> dns_context" where
  "dns_write_short c v = (write_bytes c (c_ptr c) (be16 v))\<lparr>c_ptr := c_ptr c + 2\<rparr>"

definition dns_write_int :: "dns_context \<Rightarrow> u32 \<Rightarrow> dns_context" where
  "dns_write_int c v = (write_bytes c (c_ptr c) (be32 v))\<lparr>c_ptr := c_ptr c + 4\<rparr>"

text \<open>A \<^verbatim>\<open>memcpy\<close> to the pointer followed by the advance of the pointer.\<close>

definition dns_write_raw :: "dns_context \<Rightarrow> bytes \<Rightarrow> dns_context" where
  "dns_write_raw c bs = (write_bytes c (c_ptr c) bs)\<lparr>c_ptr := c_ptr c + length bs\<rparr>"

text \<open>A \<^verbatim>\<open>memcpy\<close> of \<open>n\<close> bytes from another object; reading past its end is a fault.\<close>

definition dns_copy :: "dns_context \<Rightarrow> bytes \<Rightarrow> nat \<Rightarrow> dns_context" where
  "dns_copy c src n =
     (if n \<le> length src then dns_write_raw c (take n src)
      else (dns_write_raw c (src @ replicate (n - length src) 0))\<lparr>c_fault := True\<rparr>)"

definition dns_read_char :: "dns_context \<Rightarrow> u8 \<times> dns_context" where
  "dns_read_char c = (let (b, c) = read_bytes c (c_ptr c) 1 in (b ! 0, c\<lparr>c_ptr := c_ptr c + 1\<rparr>))"

definition dns_read_short :: "dns_context \<Rightarrow> u16 \<times> dns_context" where
  "dns_read_short c =
     (let (b, c) = read_bytes c (c_ptr c) 2 in (get16 (b ! 0) (b ! 1), c\<lparr>c_ptr := c_ptr c + 2\<rparr>))"

definition dns_read_int :: "dns_context \<Rightarrow> u32 \<times> dns_context" where
  "dns_read_int c =
     (let (b, c) = read_bytes c (c_ptr c) 4
      in (get32 (b ! 0) (b ! 1) (b ! 2) (b ! 3), c\<lparr>c_ptr := c_ptr c + 4\<rparr>))"

definition dns_read_raw :: "dns_context \<Rightarrow> nat \<Rightarrow> bytes \<times> dns_context" where
  "dns_read_raw c n = (let (b, c) = read_bytes c (c_ptr c) n in (b, c\<lparr>c_ptr := c_ptr c + n\<rparr>))"

text \<open>A context whose size does not exceed the object it describes.\<close>

definition ctx_ok :: "dns_context \<Rightarrow> bool" where
  "ctx_ok c \<longleftrightarrow> c_maxsize c \<le> int (length (c_data c)) \<and> \<not> c_fault c"

section \<open>Reads\<close>

lemma read_bytes_ok [buf_simps]:
  "i + n \<le> length (c_data c) \<Longrightarrow> read_bytes c i n = (sub_bytes (c_data c) i n, c)"
  by (simp add: read_bytes_def)

lemma dns_read_char_ok [buf_simps]:
  "c_ptr c < length (c_data c) \<Longrightarrow>
   dns_read_char c = (c_data c ! c_ptr c, c\<lparr>c_ptr := Suc (c_ptr c)\<rparr>)"
  by (simp add: dns_read_char_def buf_simps)

lemma dns_read_short_ok [buf_simps]:
  "c_ptr c + 2 \<le> length (c_data c) \<Longrightarrow>
   dns_read_short c = (get16 (c_data c ! c_ptr c) (c_data c ! Suc (c_ptr c)), c\<lparr>c_ptr := c_ptr c + 2\<rparr>)"
  by (simp add: dns_read_short_def buf_simps)

lemma dns_read_int_ok [buf_simps]:
  "c_ptr c + 4 \<le> length (c_data c) \<Longrightarrow>
   dns_read_int c =
     (get32 (c_data c ! c_ptr c) (c_data c ! (c_ptr c + 1)) (c_data c ! (c_ptr c + 2))
       (c_data c ! (c_ptr c + 3)), c\<lparr>c_ptr := c_ptr c + 4\<rparr>)"
  by (simp add: dns_read_int_def buf_simps)

lemma dns_read_raw_ok [buf_simps]:
  "c_ptr c + n \<le> length (c_data c) \<Longrightarrow>
   dns_read_raw c n = (sub_bytes (c_data c) (c_ptr c) n, c\<lparr>c_ptr := c_ptr c + n\<rparr>)"
  by (simp add: dns_read_raw_def buf_simps)

section \<open>Writes\<close>

text \<open>\<open>n\<close> more bytes can be written at the pointer.\<close>

definition fits :: "dns_context \<Rightarrow> nat \<Rightarrow> bool" where
  "fits c n \<longleftrightarrow> ctx_ok c \<and> int (c_ptr c + n) \<le> c_maxsize c"

lemma fits_length: "fits c n \<Longrightarrow> c_ptr c + n \<le> length (c_data c)"
  by (auto simp: fits_def ctx_ok_def)

lemma write_raw_eq:
  "fits c (length bs) \<Longrightarrow> dns_write_raw c bs =
     c\<lparr>c_data := put_bytes (c_ptr c) bs (c_data c), c_ptr := c_ptr c + length bs\<rparr>"
  by (auto simp: dns_write_raw_def write_bytes_def fits_def ctx_ok_def)

lemma fits_write_raw: "fits c (length a + n) \<Longrightarrow> fits (dns_write_raw c a) n"
  by (auto simp: dns_write_raw_def write_bytes_def fits_def ctx_ok_def length_put_bytes)

lemma fits_mono: "fits c n \<Longrightarrow> m \<le> n \<Longrightarrow> fits c m"
  by (auto simp: fits_def)

lemma write_raw_append:
  assumes "fits c (length a + length b)"
  shows "dns_write_raw (dns_write_raw c a) b = dns_write_raw c (a @ b)"
proof -
  have "fits c (length a)" "fits c (length (a @ b))" "fits (dns_write_raw c a) (length b)"
    using assms fits_write_raw by (auto intro: fits_mono)
  then show ?thesis
    using fits_length[OF assms] by (simp add: write_raw_eq put_bytes_adjacent)
qed

lemma data_write_raw_old:
  "fits c (length bs) \<Longrightarrow> i < c_ptr c \<Longrightarrow> c_data (dns_write_raw c bs) ! i = c_data c ! i"
  using fits_length[of c "length bs"] by (simp add: write_raw_eq nth_put_bytes)

lemma write_raw_dict [simp]:
  "dns_write_raw (c\<lparr>c_namedict := dict\<rparr>) bs = (dns_write_raw c bs)\<lparr>c_namedict := dict\<rparr>"
  by (simp add: dns_write_raw_def write_bytes_def)

lemma data_write_raw_new:
  "fits c (length bs) \<Longrightarrow> j < length bs \<Longrightarrow> c_data (dns_write_raw c bs) ! (c_ptr c + j) = bs ! j"
  using fits_length[of c "length bs"] by (simp add: write_raw_eq nth_put_bytes)

lemma length_data_write_raw:
  "fits c (length bs) \<Longrightarrow> length (c_data (dns_write_raw c bs)) = length (c_data c)"
  using fits_length by (simp add: write_raw_eq length_put_bytes)

end
