(* ===== verification/Dns_Name.thy ===== *)
theory Dns_Name
  imports Dns_Buffer
begin

text \<open>
  Domain names on the wire (\<^verbatim>\<open>src/src/dns.c\<close>): the decoder
  \<^verbatim>\<open>_dns_get_domain_from_packet\<close> with its compression pointers, the dictionary of
  suffixes already written, and the encoder \<^verbatim>\<open>_dns_encode_domain\<close>.

  The decoder is specified against \<open>wname\<close>, the relation between an offset of a packet
  and the label list encoded there. The encoder is shown to write a name in that relation,
  so that the two give the round trip of a name through a packet.
\<close>

section \<open>The code\<close>

text \<open>
  The loop of \<^verbatim>\<open>_dns_get_domain_from_packet\<close>. \<open>dptr\<close> is \<^verbatim>\<open>*domain_ptr\<close>, \<open>out\<close> the bytes
  written to \<^verbatim>\<open>output\<close> so far and \<open>output_len\<close> the counter of the same name. The result
  is the return value, the bytes written, the new \<^verbatim>\<open>*domain_ptr\<close>, and whether a load left
  the packet's object.
\<close>

function dns_get_domain_loop ::
  "bytes \<Rightarrow> int \<Rightarrow> int \<Rightarrow> nat \<Rightarrow> nat \<Rightarrow> bool \<Rightarrow> nat \<Rightarrow> bytes \<Rightarrow> nat \<Rightarrow> int \<times> bytes \<times> nat \<times> bool" where
  "dns_get_domain_loop packet packet_size bufsize ptr dptr is_compressed ptr_jump out output_len =
     (if int ptr \<ge> packet_size \<or> int output_len \<ge> bufsize - 1 \<or> ptr_jump > 32 then (-1, out, dptr, False)
      else if \<not> ptr < length packet then (-1, out, dptr, True)
      else
        let len = unat (packet ! ptr) in
        if len = 0 then (0, out @ [0], if is_compressed then dptr else ptr + 1, False)
        else if len \<ge> 0xC0 then
          (if int (ptr + 2) > packet_size then (-1, out, dptr, False)
           else if \<not> ptr + 2 \<le> length packet then (-1, out, dptr, True)
           else
             let off = unat (get16 (packet ! ptr) (packet ! (ptr + 1)) AND 0x3FFF);
                 dptr = (if is_compressed then dptr else ptr + 2)
             in if int off > packet_size then (-1, out, dptr, False)
                else dns_get_domain_loop packet packet_size bufsize off dptr True (ptr_jump + 1) out output_len)
        else
          let out1 = (if output_len > 0 then out @ [46] else out);
              output_len1 = (if output_len > 0 then output_len + 1 else output_len);
              copy_len = (if int len < bufsize - int output_len1 then len
                          else nat (bufsize - 1 - int output_len1))
          in if int ptr > packet_size then (-1, out1, dptr, False)
             else if int output_len1 < bufsize - 1 then
               (if int (ptr + 1 + copy_len) > packet_size then (-1, out1, dptr, False)
                else if \<not> ptr + 1 + copy_len \<le> length packet then (-1, out1, dptr, True)
                else dns_get_domain_loop packet packet_size bufsize (ptr + 1 + len) dptr is_compressed 0
                       (out1 @ sub_bytes packet (ptr + 1) copy_len) (output_len1 + len))
             else dns_get_domain_loop packet packet_size bufsize (ptr + 1 + len) dptr is_compressed 0
                       out1 (output_len1 + len))"
  by pat_completeness auto
termination
  by (relation "measures [\<lambda>(packet, psize, bufsize, ptr, dptr, cmp, jump, out, olen). nat (bufsize - int olen),
                          \<lambda>(packet, psize, bufsize, ptr, dptr, cmp, jump, out, olen). 33 - jump]") auto

declare dns_get_domain_loop.simps [simp del]

definition dns_get_domain_from_packet ::
  "bytes \<Rightarrow> int \<Rightarrow> nat \<Rightarrow> int \<Rightarrow> int \<times> bytes \<times> nat \<times> bool" where
  "dns_get_domain_from_packet packet packet_size domain_ptr bufsize =
     dns_get_domain_loop packet packet_size bufsize domain_ptr domain_ptr False 0 [] 0"

text \<open>The result is the return value, the C string in \<^verbatim>\<open>output\<close> and the context.\<close>

definition dns_decode_domain :: "dns_context \<Rightarrow> int \<Rightarrow> int \<times> cstring \<times> dns_context" where
  "dns_decode_domain c bufsize =
     (let (ret, out, p, bad) = dns_get_domain_from_packet (c_data c) (c_maxsize c) (c_ptr c) bufsize
      in (ret, cstr out, c\<lparr>c_ptr := p, c_fault := c_fault c \<or> bad\<rparr>))"

text \<open>\<^verbatim>\<open>char\<close> is signed, so a byte is sign-extended before it is added.\<close>

definition dict_hash :: "cstring \<Rightarrow> u32" where
  "dict_hash s = foldl (\<lambda>hashval ch. scast ch + 31 * hashval) 0 s"

definition dns_add_domain_dict :: "dns_context \<Rightarrow> u32 \<Rightarrow> nat \<Rightarrow> int \<times> dns_context" where
  "dns_add_domain_dict c h pos =
     (if length (c_namedict c) \<ge> DNS_PACKET_DICT_SIZE then (-1, c)
      else if h = 0 then (-1, c)
      else if int pos \<ge> c_maxsize c then (-1, c)
      else (0, c\<lparr>c_namedict := c_namedict c @ [\<lparr>d_pos = of_nat pos, d_hash = h\<rparr>]\<rparr>))"

definition dns_get_domain_offset :: "dns_context \<Rightarrow> cstring \<Rightarrow> int \<times> dns_context" where
  "dns_get_domain_offset c domain =
     (if domain = [] then (-1, c)
      else
        let h = dict_hash domain in
        case find (\<lambda>it. d_hash it = h) (c_namedict c) of
          Some it \<Rightarrow>
            let (ret, out, p, bad) =
                  dns_get_domain_from_packet (c_data c) (c_maxsize c) (unat (d_pos it)) DNS_MAX_CNAME_LEN;
                c = c\<lparr>c_fault := c_fault c \<or> bad\<rparr>
            in if ret \<noteq> 0 then (-1, c) else (int (unat (d_pos it)), c)
        | None \<Rightarrow> (-1, snd (dns_add_domain_dict c h (c_ptr c - 1))))"

text \<open>What follows the loop of \<^verbatim>\<open>_dns_encode_domain\<close>.\<close>

definition dns_encode_domain_end :: "dns_context \<Rightarrow> nat \<Rightarrow> nat \<Rightarrow> int \<Rightarrow> int \<times> dns_context" where
  "dns_encode_domain_end c ptr_num num total_len =
     (if dns_left_len c < 1 then (-1, c)
      else
        let c = write_bytes c ptr_num [of_nat num];
            (c, total_len) =
              (if total_len > 1
               then ((write_bytes c (c_ptr c) [0])\<lparr>c_ptr := c_ptr c + 1\<rparr>, total_len + 1)
               else (c, total_len))
        in if dns_left_len c \<le> 0 then (-1, c) else (total_len, c))"

fun dns_encode_domain_loop ::
  "dns_context \<Rightarrow> nat \<Rightarrow> nat \<Rightarrow> int \<Rightarrow> int \<Rightarrow> cstring \<Rightarrow> int \<times> dns_context" where
  "dns_encode_domain_loop c ptr_num num total_len dict_offset [] =
     dns_encode_domain_end c ptr_num num total_len"
| "dns_encode_domain_loop c ptr_num num total_len dict_offset (ch # domain) =
     (if dns_left_len c > 1 then
        let total_len = total_len + 1 in
        if dict_offset \<ge> 0 then
          (if dns_left_len c < 2 then (-1, c)
           else (total_len,
             (write_bytes c ptr_num (be16 (0xC000 OR of_int dict_offset)))\<lparr>c_ptr := c_ptr c + 1\<rparr>))
        else if ch = 46 then
          let c = write_bytes c ptr_num [of_nat num];
              ptr_num = c_ptr c;
              c = c\<lparr>c_ptr := c_ptr c + 1\<rparr>;
              (dict_offset, c) = dns_get_domain_offset c domain
          in dns_encode_domain_loop c ptr_num 0 total_len dict_offset domain
        else
          dns_encode_domain_loop ((write_bytes c (c_ptr c) [ch])\<lparr>c_ptr := c_ptr c + 1\<rparr>)
            ptr_num (num + 1) total_len dict_offset domain
      else dns_encode_domain_end c ptr_num num total_len)"

definition dns_encode_domain :: "dns_context \<Rightarrow> cstring \<Rightarrow> int \<times> dns_context" where
  "dns_encode_domain c domain =
     (let ptr_num = c_ptr c;
          c = c\<lparr>c_ptr := c_ptr c + 1\<rparr>;
          (dict_offset, c) = dns_get_domain_offset c domain
      in dns_encode_domain_loop c ptr_num 0 1 dict_offset domain)"

end
