(* ===== verification/Dns_Packet.thy ===== *)
theory Dns_Packet
  imports Dns_Name
begin

text \<open>
  The internal packet of \<^verbatim>\<open>src/src/dns.c\<close> (struct \<^verbatim>\<open>dns_packet\<close>): the header, the five
  lists of resource records that live in its data area, and the record heads.

  \<open>p_data\<close> is the object behind the flexible member \<^verbatim>\<open>data\<close>, and a \<^verbatim>\<open>struct dns_rrs *\<close> is
  the offset of the record in it. A record is a \<^verbatim>\<open>struct dns_rrs\<close> of 16 bytes, kept as the
  bytes an LP64 little-endian target stores, followed by its data: packet pointer (8), next (2),
  len (2), type (4). \<open>p_base\<close> is the address of \<^verbatim>\<open>data\<close>, which only the alignment tests
  use. \<open>p_fault\<close> is a ghost field: an access left the object or a list walk does not end.
\<close>

abbreviation (input) DNS_RR_END :: u16 where "DNS_RR_END \<equiv> 0xFFFF"
abbreviation (input) SIZEOF_DNS_PACKET :: int where "SIZEOF_DNS_PACKET \<equiv> 152"
abbreviation (input) SIZEOF_DNS_RRS :: nat where "SIZEOF_DNS_RRS \<equiv> 16"
abbreviation (input) DNS_C_IN :: int where "DNS_C_IN \<equiv> 1"

datatype dns_rr_type = DNS_RRS_QD | DNS_RRS_AN | DNS_RRS_NS | DNS_RRS_NR | DNS_RRS_OPT | DNS_RRS_END

record dns_head =
  h_id :: u16
  h_qr :: u16
  h_opcode :: u16
  h_aa :: u8
  h_tc :: u8
  h_rd :: u8
  h_ra :: u8
  h_z :: u8
  h_ad :: u8
  h_cd :: u8
  h_padding :: u8
  h_rcode :: u16
  h_qdcount :: u16
  h_ancount :: u16
  h_nscount :: u16
  h_nrcount :: u16

record dns_packet =
  p_head :: dns_head
  p_questions :: u16
  p_answers :: u16
  p_nameservers :: u16
  p_additional :: u16
  p_optcount :: u16
  p_optional :: u16
  p_payloadsize :: u16
  p_opt_option :: u32
  p_namedict :: "dns_packet_dict_item list"
  p_size :: int
  p_len :: nat
  p_data :: bytes
  p_base :: nat
  p_fault :: bool

section \<open>The code\<close>

text \<open>Loads and stores of the packet's data area.\<close>

definition packet_write :: "dns_packet \<Rightarrow> nat \<Rightarrow> bytes \<Rightarrow> dns_packet" where
  "packet_write p i bs =
     (if i + length bs \<le> length (p_data p) then p\<lparr>p_data := put_bytes i bs (p_data p)\<rparr>
      else p\<lparr>p_fault := True\<rparr>)"

definition packet_read16 :: "dns_packet \<Rightarrow> nat \<Rightarrow> u16 \<times> bool" where
  "packet_read16 p i = (if i + 2 \<le> length (p_data p) then (le16_at (p_data p) i, False) else (0, True))"

definition packet_read32 :: "dns_packet \<Rightarrow> nat \<Rightarrow> u32 \<times> bool" where
  "packet_read32 p i = (if i + 4 \<le> length (p_data p) then (le32_at (p_data p) i, False) else (0, True))"

text \<open>The members of a record, with whether the load left the object.\<close>

definition rrs_next :: "dns_packet \<Rightarrow> nat \<Rightarrow> u16 \<times> bool" where
  "rrs_next p rrs = packet_read16 p (rrs + 8)"

definition rrs_len :: "dns_packet \<Rightarrow> nat \<Rightarrow> u16 \<times> bool" where
  "rrs_len p rrs = packet_read16 p (rrs + 10)"

definition rrs_type :: "dns_packet \<Rightarrow> nat \<Rightarrow> int \<times> bool" where
  "rrs_type p rrs = (let (t, bad) = packet_read32 p (rrs + 12) in (sint t, bad))"

definition rrs_bytes :: "dns_packet \<Rightarrow> u16 \<Rightarrow> u16 \<Rightarrow> int \<Rightarrow> bytes" where
  "rrs_bytes p nxt len rtype =
     le64 (of_nat (p_base p - nat SIZEOF_DNS_PACKET)) @ le16 nxt @ le16 len @ le32 (of_int rtype)"

definition rrs_count :: "dns_packet \<Rightarrow> dns_rr_type \<Rightarrow> u16" where
  "rrs_count p type =
     (case type of
        DNS_RRS_QD \<Rightarrow> h_qdcount (p_head p)
      | DNS_RRS_AN \<Rightarrow> h_ancount (p_head p)
      | DNS_RRS_NS \<Rightarrow> h_nscount (p_head p)
      | DNS_RRS_NR \<Rightarrow> h_nrcount (p_head p)
      | DNS_RRS_OPT \<Rightarrow> p_optcount p
      | DNS_RRS_END \<Rightarrow> 0)"

definition rrs_first :: "dns_packet \<Rightarrow> dns_rr_type \<Rightarrow> u16" where
  "rrs_first p type =
     (case type of
        DNS_RRS_QD \<Rightarrow> p_questions p
      | DNS_RRS_AN \<Rightarrow> p_answers p
      | DNS_RRS_NS \<Rightarrow> p_nameservers p
      | DNS_RRS_NR \<Rightarrow> p_additional p
      | DNS_RRS_OPT \<Rightarrow> p_optional p
      | DNS_RRS_END \<Rightarrow> DNS_RR_END)"

definition set_count :: "dns_rr_type \<Rightarrow> u16 \<Rightarrow> dns_packet \<Rightarrow> dns_packet" where
  "set_count type v p =
     (case type of
        DNS_RRS_QD \<Rightarrow> p\<lparr>p_head := (p_head p)\<lparr>h_qdcount := v\<rparr>\<rparr>
      | DNS_RRS_AN \<Rightarrow> p\<lparr>p_head := (p_head p)\<lparr>h_ancount := v\<rparr>\<rparr>
      | DNS_RRS_NS \<Rightarrow> p\<lparr>p_head := (p_head p)\<lparr>h_nscount := v\<rparr>\<rparr>
      | DNS_RRS_NR \<Rightarrow> p\<lparr>p_head := (p_head p)\<lparr>h_nrcount := v\<rparr>\<rparr>
      | DNS_RRS_OPT \<Rightarrow> p\<lparr>p_optcount := v\<rparr>
      | DNS_RRS_END \<Rightarrow> p)"

definition set_first :: "dns_rr_type \<Rightarrow> u16 \<Rightarrow> dns_packet \<Rightarrow> dns_packet" where
  "set_first type v p =
     (case type of
        DNS_RRS_QD \<Rightarrow> p\<lparr>p_questions := v\<rparr>
      | DNS_RRS_AN \<Rightarrow> p\<lparr>p_answers := v\<rparr>
      | DNS_RRS_NS \<Rightarrow> p\<lparr>p_nameservers := v\<rparr>
      | DNS_RRS_NR \<Rightarrow> p\<lparr>p_additional := v\<rparr>
      | DNS_RRS_OPT \<Rightarrow> p\<lparr>p_optional := v\<rparr>
      | DNS_RRS_END \<Rightarrow> p)"

text \<open>The result is the record and \<^verbatim>\<open>*count\<close>; \<open>None\<close> is \<^verbatim>\<open>NULL\<close>.\<close>

definition dns_get_rrs_start :: "dns_packet \<Rightarrow> dns_rr_type \<Rightarrow> nat option \<times> int" where
  "dns_get_rrs_start p type =
     (let count = uint (rrs_count p type); start = rrs_first p type
      in if start = DNS_RR_END then (None, count) else (Some (unat start), count))"

definition dns_get_rrs_next :: "dns_packet \<Rightarrow> nat \<Rightarrow> nat option \<times> bool" where
  "dns_get_rrs_next p rrs =
     (let (nxt, bad) = rrs_next p rrs
      in if bad then (None, True) else if nxt = DNS_RR_END then (None, False) else (Some (unat nxt), False))"

definition dns_init_context_by_rrs :: "dns_packet \<Rightarrow> nat \<Rightarrow> dns_context" where
  "dns_init_context_by_rrs p rrs =
     (let (len, bad) = rrs_len p rrs
      in \<lparr>c_data = p_data p, c_maxsize = int (rrs + SIZEOF_DNS_RRS) + uint len,
          c_ptr = rrs + SIZEOF_DNS_RRS, c_namedict = p_namedict p, c_fault = p_fault p \<or> bad\<rparr>)"

text \<open>
  A context on the packet's own data and dictionary, and what the packet is after the context
  was used.
\<close>

definition packet_context :: "dns_packet \<Rightarrow> dns_context" where
  "packet_context p =
     \<lparr>c_data = p_data p, c_maxsize = p_size p - SIZEOF_DNS_PACKET, c_ptr = p_len p + SIZEOF_DNS_RRS,
      c_namedict = p_namedict p, c_fault = p_fault p\<rparr>"

definition packet_of_context :: "dns_packet \<Rightarrow> dns_context \<Rightarrow> dns_packet" where
  "packet_of_context p c = p\<lparr>p_data := c_data c, p_namedict := c_namedict c, p_fault := c_fault c\<rparr>"

definition dns_add_rrs_start :: "dns_packet \<Rightarrow> int \<times> dns_context" where
  "dns_add_rrs_start p =
     (if int (p_len p + SIZEOF_DNS_RRS) \<ge> p_size p then (-1, packet_context p) else (0, packet_context p))"

text \<open>
  The walk to the last record of a list. It is \<open>None\<close> when a load leaves the object and when
  the walk has made more steps than there are offsets, which is a walk that does not end.
\<close>

fun rrs_last :: "nat \<Rightarrow> dns_packet \<Rightarrow> nat \<Rightarrow> nat option" where
  "rrs_last 0 p rrs = None"
| "rrs_last (Suc fuel) p rrs =
     (let (nxt, bad) = rrs_next p rrs
      in if bad then None
         else if nxt = DNS_RR_END then Some rrs
         else rrs_last fuel p (unat nxt))"

definition dns_rr_add_end :: "dns_packet \<Rightarrow> dns_rr_type \<Rightarrow> int \<Rightarrow> int \<Rightarrow> int \<times> dns_packet" where
  "dns_rr_add_end p type rtype len =
     (if int (p_len p) + len > p_size p - SIZEOF_DNS_PACKET - int SIZEOF_DNS_RRS then (-1, p)
      else if type = DNS_RRS_END then (-1, p)
      else
        let start = rrs_first p type;
            p1 = (if start \<noteq> DNS_RR_END then
                    (case rrs_last 65536 p (unat start) of
                       None \<Rightarrow> p\<lparr>p_fault := True\<rparr>
                     | Some rrs \<Rightarrow> packet_write p (rrs + 8) (le16 (of_nat (p_len p))))
                  else set_first type (of_nat (p_len p)) p);
            p2 = packet_write p1 (p_len p) (rrs_bytes p DNS_RR_END (of_int len) rtype);
            p3 = set_count type (rrs_count p2 type + 1) p2
        in (0, p3\<lparr>p_len := nat (int (p_len p) + len + int SIZEOF_DNS_RRS)\<rparr>))"

definition dns_add_qr_head :: "dns_context \<Rightarrow> cstring \<Rightarrow> int \<Rightarrow> int \<Rightarrow> int \<times> dns_context" where
  "dns_add_qr_head c domain qtype qclass =
     (let (ret, c) = dns_encode_domain c domain in
      if ret < 0 then (-1, c)
      else if dns_left_len c < 4 then (-1, c)
      else (ret + 4, dns_write_short (dns_write_short c (of_int qtype)) (of_int qclass)))"

text \<open>
  The readers of heads return their out-parameters in a tuple; one that is not assigned is the
  zero (or empty string) that every caller initialises it with.
\<close>

definition dns_get_qr_head :: "dns_context \<Rightarrow> int \<Rightarrow> int \<times> cstring \<times> int \<times> int \<times> dns_context" where
  "dns_get_qr_head c maxsize =
     (let (ret, domain, c) = dns_decode_domain c maxsize in
      if ret < 0 then (-1, domain, 0, 0, c)
      else if dns_left_len c < 4 then (-1, domain, 0, 0, c)
      else
        let (qtype, c) = dns_read_short c; (qclass, c) = dns_read_short c
        in (0, domain, uint qtype, uint qclass, c))"

definition dns_add_rr_head ::
  "dns_context \<Rightarrow> cstring \<Rightarrow> int \<Rightarrow> int \<Rightarrow> u32 \<Rightarrow> int \<Rightarrow> int \<times> dns_context" where
  "dns_add_rr_head c domain qtype qclass ttl rr_len =
     (let (len, c) = dns_add_qr_head c domain qtype qclass in
      if len < 0 then (-1, c)
      else if dns_left_len c < 6 then (-1, c)
      else (len + 6, dns_write_short (dns_write_int c ttl) (of_int rr_len)))"

text \<open>The code does not look at the result of \<^verbatim>\<open>_dns_get_qr_head\<close> before it reads on.\<close>

definition dns_get_rr_head ::
  "dns_context \<Rightarrow> int \<Rightarrow> int \<times> cstring \<times> int \<times> int \<times> u32 \<times> int \<times> dns_context" where
  "dns_get_rr_head c maxsize =
     (let (len, domain, qtype, qclass, c) = dns_get_qr_head c maxsize in
      if dns_left_len c < 6 then (-1, domain, qtype, qclass, 0, 0, c)
      else
        let (ttl, c) = dns_read_int c; (rr_len, c) = dns_read_short c
        in (len, domain, qtype, qclass, ttl, uint rr_len, c))"

definition zero_head :: dns_head where
  "zero_head = \<lparr>h_id = 0, h_qr = 0, h_opcode = 0, h_aa = 0, h_tc = 0, h_rd = 0, h_ra = 0, h_z = 0, h_ad = 0,
     h_cd = 0, h_padding = 0, h_rcode = 0, h_qdcount = 0, h_ancount = 0, h_nscount = 0, h_nrcount = 0\<rparr>"

text \<open>The \<^verbatim>\<open>memset\<close> of the structure, without its data.\<close>

definition packet_clear :: "dns_packet \<Rightarrow> dns_packet" where
  "packet_clear p = p\<lparr>p_head := zero_head, p_questions := 0, p_answers := 0, p_nameservers := 0,
     p_additional := 0, p_optcount := 0, p_optional := 0, p_payloadsize := 0, p_opt_option := 0,
     p_namedict := [], p_size := 0, p_len := 0\<rparr>"

definition dns_packet_init :: "dns_packet \<Rightarrow> int \<Rightarrow> dns_head \<Rightarrow> int \<times> dns_packet" where
  "dns_packet_init p sz head =
     (if sz < SIZEOF_DNS_PACKET then (-1, p)
      else
        let p = packet_write p 0 (replicate (nat (sz - SIZEOF_DNS_PACKET)) 0)
        in (0, p\<lparr>p_head := head\<lparr>h_padding := 0, h_qdcount := 0, h_ancount := 0, h_nscount := 0, h_nrcount := 0\<rparr>,
             p_questions := DNS_RR_END, p_answers := DNS_RR_END, p_nameservers := DNS_RR_END,
             p_additional := DNS_RR_END, p_optional := DNS_RR_END, p_optcount := 0, p_payloadsize := 0,
             p_opt_option := 0, p_namedict := [], p_size := sz, p_len := 0\<rparr>))"

text \<open>A zeroed packet object with \<open>n\<close> bytes behind the struct, at an aligned address.\<close>

definition packet_object :: "nat \<Rightarrow> dns_packet" where
  "packet_object n = \<lparr>p_head = zero_head, p_questions = 0, p_answers = 0, p_nameservers = 0, p_additional = 0,
     p_optcount = 0, p_optional = 0, p_payloadsize = 0, p_opt_option = 0, p_namedict = [], p_size = 0, p_len = 0,
     p_data = replicate n 0, p_base = 152, p_fault = False\<rparr>"

end
