(* ===== verification/Dns_Rrs.thy ===== *)
theory Dns_Rrs
  imports Dns_Packet
begin

text \<open>
  The five intrusive lists of a packet as lists. \<open>laid d off rs\<close> says that the records \<open>rs\<close>
  lie one after the other in the data area, each linked to the next one of its own section, and
  \<open>rep p rs\<close> that the packet's start offsets agree with it. \<^verbatim>\<open>_dns_rr_add_end\<close> is an append to
  \<open>rs\<close>, and the iteration of \<^verbatim>\<open>dns_get_rrs_start\<close> and \<^verbatim>\<open>dns_get_rrs_next\<close> runs over the records
  of one section in order.
\<close>

record rr_item =
  i_sec :: dns_rr_type
  i_type :: int
  i_data :: bytes

definition rr_size :: "rr_item \<Rightarrow> nat" where
  "rr_size r = SIZEOF_DNS_RRS + length (i_data r)"

definition total_size :: "rr_item list \<Rightarrow> nat" where
  "total_size rs = sum_list (map rr_size rs)"

fun first_off :: "dns_rr_type \<Rightarrow> nat \<Rightarrow> rr_item list \<Rightarrow> nat option" where
  "first_off s off [] = None"
| "first_off s off (r # rs) = (if i_sec r = s then Some off else first_off s (off + rr_size r) rs)"

fun last_off :: "dns_rr_type \<Rightarrow> nat \<Rightarrow> rr_item list \<Rightarrow> nat option" where
  "last_off s off [] = None"
| "last_off s off (r # rs) =
     (case last_off s (off + rr_size r) rs of
        Some x \<Rightarrow> Some x
      | None \<Rightarrow> if i_sec r = s then Some off else None)"

definition link :: "nat option \<Rightarrow> u16" where
  "link x = (case x of None \<Rightarrow> DNS_RR_END | Some off \<Rightarrow> of_nat off)"

definition rr_at :: "bytes \<Rightarrow> nat \<Rightarrow> rr_item \<Rightarrow> u16 \<Rightarrow> bool" where
  "rr_at d off r nxt \<longleftrightarrow>
     off + rr_size r \<le> length d \<and> le16_at d (off + 8) = nxt \<and> le16_at d (off + 10) = of_nat (length (i_data r)) \<and>
     le32_at d (off + 12) = of_int (i_type r) \<and> sub_bytes d (off + 16) (length (i_data r)) = i_data r"

fun laid :: "bytes \<Rightarrow> nat \<Rightarrow> rr_item list \<Rightarrow> bool" where
  "laid d off [] = True"
| "laid d off (r # rs) =
     (rr_at d off r (link (first_off (i_sec r) (off + rr_size r) rs)) \<and> laid d (off + rr_size r) rs)"

definition rep :: "dns_packet \<Rightarrow> rr_item list \<Rightarrow> bool" where
  "rep p rs \<longleftrightarrow>
     laid (p_data p) 0 rs \<and> p_len p = total_size rs \<and> p_len p \<le> length (p_data p) \<and> length (p_data p) \<le> 65535 \<and>
     (\<forall>r\<in>set rs. i_sec r \<noteq> DNS_RRS_END) \<and>
     (\<forall>s. s \<noteq> DNS_RRS_END \<longrightarrow> rrs_first p s = link (first_off s 0 rs))"

text \<open>The counters of the sections \<open>S\<close> count the records of their lists.\<close>

definition in_sec :: "dns_rr_type \<Rightarrow> rr_item list \<Rightarrow> rr_item list" where
  "in_sec s rs = filter (\<lambda>r. i_sec r = s) rs"

definition counts :: "dns_packet \<Rightarrow> rr_item list \<Rightarrow> dns_rr_type set \<Rightarrow> bool" where
  "counts p rs S \<longleftrightarrow> (\<forall>s\<in>S. rrs_count p s = of_nat (length (in_sec s rs)))"

named_theorems rr_simps \<open>layout of records\<close>

lemma total_size_simps [simp]:
  "total_size [] = 0" "total_size (r # rs) = rr_size r + total_size rs"
  "total_size (rs @ qs) = total_size rs + total_size qs"
  by (auto simp: total_size_def)

lemma rr_size_ge: "16 \<le> rr_size r"
  by (simp add: rr_size_def)

lemma first_off_none: "first_off s off rs = None \<longleftrightarrow> last_off s off rs = None"
  by (induction rs arbitrary: off) (auto split: option.splits)

lemma first_off_append:
  "first_off s off (rs @ qs) =
     (case first_off s off rs of Some x \<Rightarrow> Some x | None \<Rightarrow> first_off s (off + total_size rs) qs)"
  by (induction rs arbitrary: off) (auto simp: add.assoc split: option.splits)

lemma last_off_bounds:
  "last_off s off rs = Some L \<Longrightarrow> off \<le> L \<and> L + 16 \<le> off + total_size rs"
proof (induction rs arbitrary: off)
  case (Cons r rs)
  then show ?case
    using rr_size_ge[of r] by (fastforce dest: Cons.IH split: option.splits if_splits)
qed simp

lemma first_off_bounds:
  "first_off s off rs = Some L \<Longrightarrow> off \<le> L \<and> L + 16 \<le> off + total_size rs"
proof (induction rs arbitrary: off)
  case (Cons r rs)
  then show ?case
    using rr_size_ge[of r] by (fastforce dest: Cons.IH split: if_splits)
qed simp

lemma link_some:
  "L < 65535 \<Longrightarrow> link (Some L) \<noteq> DNS_RR_END \<and> unat (link (Some L)) = L"
  by (auto simp: link_def word_unat_eq_iff unat_of_nat)

lemma laid_bound: "laid d off rs \<Longrightarrow> off \<le> length d \<Longrightarrow> off + total_size rs \<le> length d"
proof (induction rs arbitrary: off)
  case (Cons r rs)
  then show ?case using Cons.IH[of "off + rr_size r"] by (simp add: rr_at_def add.assoc)
qed simp

section \<open>The layout depends on its own bytes only\<close>

lemma le16_at_cong: "d' ! i = d ! i \<Longrightarrow> d' ! Suc i = d ! Suc i \<Longrightarrow> le16_at d' i = le16_at d i"
  by (simp add: le16_at_def)

lemma le32_at_cong: "(\<And>k. i \<le> k \<Longrightarrow> k < i + 4 \<Longrightarrow> d' ! k = d ! k) \<Longrightarrow> le32_at d' i = le32_at d i"
  by (simp add: le32_at_def)

lemma rr_at_cong:
  assumes r: "rr_at d off r nxt" and len: "length d' = length d" and n: "le16_at d' (off + 8) = nxt'"
    and eq: "\<And>i. off \<le> i \<Longrightarrow> i < off + rr_size r \<Longrightarrow> i \<noteq> off + 8 \<Longrightarrow> i \<noteq> off + 9 \<Longrightarrow> d' ! i = d ! i"
  shows "rr_at d' off r nxt'"
proof -
  have "le16_at d' (off + 10) = le16_at d (off + 10)" "le32_at d' (off + 12) = le32_at d (off + 12)"
    using rr_size_ge[of r] by (auto intro!: le16_at_cong le32_at_cong eq)
  moreover have "sub_bytes d' (off + 16) (length (i_data r)) = sub_bytes d (off + 16) (length (i_data r))"
    using r len by (intro sub_bytes_cong eq) (auto simp: rr_at_def rr_size_def)
  ultimately show ?thesis using r len n by (auto simp: rr_at_def)
qed

lemma laid_add:
  assumes "laid d off rs" "length d' = length d" "N = off + total_size rs" "i_sec n = s"
    and eq: "\<And>i. off \<le> i \<Longrightarrow> i < N \<Longrightarrow> (\<And>L. last_off s off rs = Some L \<Longrightarrow> i \<noteq> L + 8 \<and> i \<noteq> L + 9) \<Longrightarrow> d' ! i = d ! i"
    and lnk: "\<And>L. last_off s off rs = Some L \<Longrightarrow> le16_at d' (L + 8) = of_nat N"
    and new: "rr_at d' N n DNS_RR_END"
  shows "laid d' off (rs @ [n])"
  using assms
proof (induction rs arbitrary: off)
  case Nil
  then show ?case by (simp add: link_def)
next
  case (Cons r rs)
  let ?o = "off + rr_size r"
  have tl: "laid d ?o rs" and r: "rr_at d off r (link (first_off (i_sec r) ?o rs))" using Cons.prems(1) by auto
  have b: "?o \<le> L" if "last_off s ?o rs = Some L" for L using last_off_bounds[OF that] by simp
  have eqr: "d' ! i = d ! i" if "off \<le> i" "i < ?o" "i \<noteq> off + 8" "i \<noteq> off + 9" for i
  proof (rule Cons.prems(5))
    fix L assume "last_off s off (r # rs) = Some L"
    hence "L = off \<or> ?o \<le> L" using b by (auto split: option.splits if_splits)
    thus "i \<noteq> L + 8 \<and> i \<noteq> L + 9" using that by auto
  qed (use that Cons.prems(3) in auto)
  have "laid d' ?o (rs @ [n])"
  proof (rule Cons.IH[OF tl Cons.prems(2) _ Cons.prems(4) _ _ new])
    show "N = ?o + total_size rs" using Cons.prems(3) by simp
  next
    fix i assume "?o \<le> i" "i < N" and i: "\<And>L. last_off s ?o rs = Some L \<Longrightarrow> i \<noteq> L + 8 \<and> i \<noteq> L + 9"
    then show "d' ! i = d ! i"
      using rr_size_ge[of r] by (intro Cons.prems(5)) (auto split: option.splits if_splits)
  next
    fix L assume "last_off s ?o rs = Some L"
    then show "le16_at d' (L + 8) = of_nat N" by (intro Cons.prems(6)) simp
  qed
  moreover have "rr_at d' off r (link (first_off (i_sec r) ?o (rs @ [n])))"
  proof (cases "i_sec r = s \<and> last_off s ?o rs = None")
    case True
    then have f: "first_off (i_sec r) ?o (rs @ [n]) = Some N"
      using Cons.prems(3,4) first_off_none[of s ?o rs] by (simp add: first_off_append add.assoc)
    have "le16_at d' (off + 8) = of_nat N" using True by (intro Cons.prems(6)) simp
    then show ?thesis
      using rr_at_cong[OF r Cons.prems(2) _ eqr] by (simp add: f link_def)
  next
    case False
    have "le16_at d' (off + 8) = le16_at d (off + 8)"
    proof (intro le16_at_cong Cons.prems(5))
      fix L assume "last_off s off (r # rs) = Some L"
      hence "?o \<le> L" using False b by (auto split: option.splits if_splits)
      thus "off + 8 \<noteq> L + 8 \<and> off + 8 \<noteq> L + 9" "Suc (off + 8) \<noteq> L + 8 \<and> Suc (off + 8) \<noteq> L + 9"
        using rr_size_ge[of r] by auto
    qed (use Cons.prems(3) rr_size_ge[of r] in auto)
    then have "rr_at d' off r (link (first_off (i_sec r) ?o rs))"
      using rr_at_cong[OF r Cons.prems(2) _ eqr] r by (auto simp: rr_at_def)
    moreover have "first_off (i_sec r) ?o (rs @ [n]) = first_off (i_sec r) ?o rs"
      using False Cons.prems(4) first_off_none[of s ?o rs] by (auto simp: first_off_append split: option.splits)
    ultimately show ?thesis by simp
  qed
  ultimately show ?case by simp
qed

lemma laid_frame:
  assumes "laid d off rs" "length d' = length d" "\<And>i. off \<le> i \<Longrightarrow> i < off + total_size rs \<Longrightarrow> d' ! i = d ! i"
  shows "laid d' off rs"
  using assms
proof (induction rs arbitrary: off)
  case (Cons r rs)
  have "le16_at d' (off + 8) = le16_at d (off + 8)"
    using Cons.prems(3) rr_size_ge[of r] by (intro le16_at_cong) auto
  then have "rr_at d' off r (link (first_off (i_sec r) (off + rr_size r) rs))"
    using rr_at_cong[OF _ Cons.prems(2)] Cons.prems by (auto simp: rr_at_def)
  moreover have "laid d' (off + rr_size r) rs" using Cons.prems by (intro Cons.IH) auto
  ultimately show ?case by simp
qed simp

section \<open>Walking a list\<close>

lemma rrs_next_at:
  "rr_at (p_data p) off r nxt \<Longrightarrow> rrs_next p off = (nxt, False)"
  by (auto simp: rrs_next_def packet_read16_def rr_at_def rr_size_def)

lemma rrs_last_laid:
  assumes "laid (p_data p) off rs" "first_off s off rs = Some x" "length rs \<le> fuel"
    "off \<le> length (p_data p)" "length (p_data p) \<le> 65535"
  shows "rrs_last fuel p x = last_off s off rs"
  using assms
proof (induction rs arbitrary: off x fuel)
  case (Cons r rs)
  let ?o = "off + rr_size r"
  have r: "rr_at (p_data p) off r (link (first_off (i_sec r) ?o rs))" and tl: "laid (p_data p) ?o rs"
    using Cons.prems(1) by auto
  have o: "?o \<le> length (p_data p)" using r by (simp add: rr_at_def)
  obtain f where f: "fuel = Suc f" "length rs \<le> f" using Cons.prems(3) by (cases fuel) auto
  note IH = Cons.IH[OF tl _ _ o Cons.prems(5)]
  show ?case
  proof (cases "i_sec r = s")
    case False
    then have fo: "first_off s ?o rs = Some x" using Cons.prems(2) by simp
    then have "last_off s ?o rs \<noteq> None" using first_off_none[of s ?o rs] by simp
    then show ?thesis using IH[OF fo, of fuel] f False by (auto split: option.splits)
  next
    case True
    have x: "x = off" using Cons.prems(2) True by simp
    show ?thesis
    proof (cases "first_off s ?o rs")
      case None
      then show ?thesis using rrs_next_at[OF r] True x f first_off_none[of s ?o rs] by (simp add: link_def)
    next
      case (Some y)
      have "y < 65535" using first_off_bounds[OF Some] laid_bound[OF tl o] Cons.prems(5) by simp
      moreover have "last_off s ?o rs \<noteq> None" using first_off_none[of s ?o rs] Some by simp
      ultimately show ?thesis
        using rrs_next_at[OF r] True x f Some link_some[of y] IH[OF Some f(2)] by (auto split: option.splits)
    qed
  qed
qed simp

lemma laid_length: "laid d off rs \<Longrightarrow> 16 * length rs \<le> total_size rs"
proof (induction rs arbitrary: off)
  case (Cons r rs)
  then show ?case using rr_size_ge[of r] by fastforce
qed simp

lemma rep_first_some:
  assumes "rep p rs" "s \<noteq> DNS_RRS_END" "first_off s 0 rs = Some x"
  shows "rrs_first p s \<noteq> DNS_RR_END" "unat (rrs_first p s) = x" "rrs_last 65536 p x = last_off s 0 rs"
proof -
  have x: "x < 65535" using assms first_off_bounds[OF assms(3)] by (auto simp: rep_def)
  show "rrs_first p s \<noteq> DNS_RR_END" "unat (rrs_first p s) = x"
    using assms link_some[OF x] by (auto simp: rep_def)
  show "rrs_last 65536 p x = last_off s 0 rs"
    using assms laid_length[of "p_data p" 0 rs] by (intro rrs_last_laid) (auto simp: rep_def)
qed

section \<open>Appending a record\<close>

lemma rrs_first_upd [simp]:
  "s \<noteq> DNS_RRS_END \<Longrightarrow> rrs_first (set_first s v p) t = (if t = s then v else rrs_first p t)"
  "rrs_first (set_count s v p) t = rrs_first p t"
  "rrs_first (p\<lparr>p_data := d\<rparr>) t = rrs_first p t" "rrs_first (p\<lparr>p_len := l\<rparr>) t = rrs_first p t"
  "rrs_first (p\<lparr>p_namedict := n\<rparr>) t = rrs_first p t" "rrs_first (p\<lparr>p_fault := b\<rparr>) t = rrs_first p t"
  "rrs_first (packet_write p i bs) t = rrs_first p t"
  by (auto simp: rrs_first_def set_first_def set_count_def packet_write_def split: dns_rr_type.splits)

lemma rrs_count_upd [simp]:
  "s \<noteq> DNS_RRS_END \<Longrightarrow> rrs_count (set_count s v p) t = (if t = s then v else rrs_count p t)"
  "rrs_count (set_first s v p) t = rrs_count p t"
  "rrs_count (p\<lparr>p_data := d\<rparr>) t = rrs_count p t" "rrs_count (p\<lparr>p_len := l\<rparr>) t = rrs_count p t"
  "rrs_count (p\<lparr>p_namedict := n\<rparr>) t = rrs_count p t" "rrs_count (p\<lparr>p_fault := b\<rparr>) t = rrs_count p t"
  "rrs_count (packet_write p i bs) t = rrs_count p t"
  by (auto simp: rrs_count_def set_first_def set_count_def packet_write_def split: dns_rr_type.splits)

lemma set_first_sel [simp]:
  "p_data (set_first s v p) = p_data p" "p_len (set_first s v p) = p_len p" "p_size (set_first s v p) = p_size p"
  "p_fault (set_first s v p) = p_fault p" "p_namedict (set_first s v p) = p_namedict p"
  "p_base (set_first s v p) = p_base p"
  by (auto simp: set_first_def split: dns_rr_type.splits)

lemma set_count_sel [simp]:
  "p_data (set_count s v p) = p_data p" "p_len (set_count s v p) = p_len p" "p_size (set_count s v p) = p_size p"
  "p_fault (set_count s v p) = p_fault p" "p_namedict (set_count s v p) = p_namedict p"
  "p_base (set_count s v p) = p_base p"
  by (auto simp: set_count_def split: dns_rr_type.splits)

lemma length_rrs_bytes [simp]: "length (rrs_bytes p nxt len rtype) = 16"
  by (simp add: rrs_bytes_def)

text \<open>The bytes of a new record's header hold its members.\<close>

lemma rr_at_new:
  assumes room: "N + 16 + length bs \<le> length d" and hdr: "sub_bytes d N 16 = rrs_bytes p DNS_RR_END (of_nat (length bs)) t"
    and dat: "sub_bytes d (N + 16) (length bs) = bs"
  shows "rr_at d N \<lparr>i_sec = s, i_type = t, i_data = bs\<rparr> DNS_RR_END"
proof -
  have b: "d ! (N + j) = rrs_bytes p DNS_RR_END (of_nat (length bs)) t ! j" if "j < 16" for j
    using nth_sub_bytes[of N 16 d j] that room by (simp add: hdr)
  note nth = rrs_bytes_def nth_append
  have "le16_at d (N + 8) = DNS_RR_END"
    using b[of 8] b[of 9] by (intro le16_at_le16) (simp_all add: nth add.commute)
  moreover have "le16_at d (N + 10) = of_nat (length bs)"
    using b[of 10] b[of 11] by (intro le16_at_le16) (simp_all add: nth add.commute)
  moreover have "le32_at d (N + 12) = of_int t"
    using b[of 12] b[of 13] b[of 14] b[of 15] by (intro le32_at_le32) (simp_all add: nth add.commute)
  ultimately show ?thesis using room dat by (simp add: rr_at_def rr_size_def)
qed

text \<open>The packet with the link of the list's last record, or the list's start, set to the new record.\<close>

definition link_last :: "dns_packet \<Rightarrow> dns_rr_type \<Rightarrow> dns_packet" where
  "link_last p type =
     (let start = rrs_first p type in
      if start \<noteq> DNS_RR_END then
        (case rrs_last 65536 p (unat start) of
           None \<Rightarrow> p\<lparr>p_fault := True\<rparr>
         | Some rrs \<Rightarrow> packet_write p (rrs + 8) (le16 (of_nat (p_len p))))
      else set_first type (of_nat (p_len p)) p)"

lemma link_last_eq:
  assumes "rep p rs" "s \<noteq> DNS_RRS_END"
  shows "link_last p s =
     (case last_off s 0 rs of
        None \<Rightarrow> set_first s (of_nat (p_len p)) p
      | Some L \<Rightarrow> p\<lparr>p_data := put_bytes (L + 8) (le16 (of_nat (p_len p))) (p_data p)\<rparr>)"
proof (cases "first_off s 0 rs")
  case None
  hence "rrs_first p s = DNS_RR_END" "last_off s 0 rs = None"
    using assms first_off_none[of s 0 rs] by (auto simp: rep_def link_def)
  thus ?thesis using assms(2) by (simp add: link_last_def)
next
  case (Some x)
  note f = rep_first_some[OF assms Some]
  obtain L where L: "last_off s 0 rs = Some L" using Some first_off_none[of s 0 rs] by auto
  have "L + 8 + 2 \<le> length (p_data p)" using last_off_bounds[OF L] assms(1) by (auto simp: rep_def)
  thus ?thesis using f L by (simp add: link_last_def packet_write_def)
qed

lemma dns_rr_add_end_link:
  "dns_rr_add_end p s rtype len =
     (if p_size p - SIZEOF_DNS_PACKET - 16 < int (p_len p) + len \<or> s = DNS_RRS_END then (-1, p)
      else let p2 = packet_write (link_last p s) (p_len p) (rrs_bytes p DNS_RR_END (of_int len) rtype)
        in (0, (set_count s (rrs_count p2 s + 1) p2)\<lparr>p_len := nat (int (p_len p) + len + 16)\<rparr>))"
  by (simp add: dns_rr_add_end_def link_last_def Let_def)

lemma laid_link_last:
  assumes rep: "rep p rs" and s: "s \<noteq> DNS_RRS_END"
    and room: "p_len p + 16 + length bs \<le> length (p_data p)"
    and bs: "sub_bytes (p_data p) (p_len p + 16) (length bs) = bs"
    and d: "d = put_bytes (p_len p) (rrs_bytes p DNS_RR_END (of_nat (length bs)) t) (p_data (link_last p s))"
  shows "laid d 0 (rs @ [\<lparr>i_sec = s, i_type = t, i_data = bs\<rparr>])" "length d = length (p_data p)"
proof -
  have len: "p_len p = total_size rs" and laid: "laid (p_data p) 0 rs" using rep by (auto simp: rep_def)
  define d1 where "d1 = p_data (link_last p s)"
  have d1: "d1 = (case last_off s 0 rs of None \<Rightarrow> p_data p | Some L \<Rightarrow> put_bytes (L + 8) (le16 (of_nat (p_len p))) (p_data p))"
    using link_last_eq[OF rep s] by (simp add: d1_def split: option.splits)
  have L: "L + 16 \<le> p_len p" if "last_off s 0 rs = Some L" for L using last_off_bounds[OF that] len by simp
  have l1: "length d1 = length (p_data p)"
    using room L by (fastforce simp: d1 length_put_bytes split: option.splits)
  show ld: "length d = length (p_data p)" using room l1 by (simp add: d d1_def[symmetric] length_put_bytes)
  have nth: "d ! i = d1 ! i" if "i < p_len p \<or> p_len p + 16 \<le> i" "i < length (p_data p)" for i
    using that room l1 by (auto simp: d d1_def[symmetric] nth_put_bytes)
  have nth1: "d1 ! i = p_data p ! i" if "i < length (p_data p)"
    "\<And>L. last_off s 0 rs = Some L \<Longrightarrow> i \<noteq> L + 8 \<and> i \<noteq> L + 9" for i
    using that room L by (fastforce simp: d1 nth_put_bytes split: option.splits)
  have far: "d ! j = p_data p ! j" if "p_len p + 16 \<le> j" "j < length (p_data p)" for j
    using nth[of j] nth1[of j] that L by fastforce
  show "laid d 0 (rs @ [\<lparr>i_sec = s, i_type = t, i_data = bs\<rparr>])"
  proof (rule laid_add[OF laid ld])
    fix i assume "i < p_len p" "\<And>L. last_off s 0 rs = Some L \<Longrightarrow> i \<noteq> L + 8 \<and> i \<noteq> L + 9"
    then show "d ! i = p_data p ! i" using nth[of i] nth1[of i] room by simp
  next
    fix Lo assume Lo: "last_off s 0 rs = Some Lo"
    have "d ! (Lo + 8) = le16 (of_nat (p_len p)) ! 0" "d ! (Lo + 8 + 1) = le16 (of_nat (p_len p)) ! 1"
      using nth[of "Lo + 8"] nth[of "Lo + 8 + 1"] L[OF Lo] room by (auto simp: d1 Lo nth_put_bytes)
    then show "le16_at d (Lo + 8) = of_nat (p_len p)" by (rule le16_at_le16)
  next
    show "rr_at d (p_len p) \<lparr>i_sec = s, i_type = t, i_data = bs\<rparr> DNS_RR_END"
    proof (rule rr_at_new)
      show "sub_bytes d (p_len p) 16 = rrs_bytes p DNS_RR_END (of_nat (length bs)) t"
        using sub_bytes_put_same[of "p_len p" "rrs_bytes p DNS_RR_END (of_nat (length bs)) t" d1] room l1
        by (simp add: d d1_def[symmetric])
      have "sub_bytes d (p_len p + 16) (length bs) = sub_bytes (p_data p) (p_len p + 16) (length bs)"
        using room ld far by (intro sub_bytes_cong) auto
      thus "sub_bytes d (p_len p + 16) (length bs) = bs" using bs by simp
    qed (use room ld in simp)
  qed (use len in auto)
qed

text \<open>\<^verbatim>\<open>_dns_rr_add_end\<close> refuses, or appends the bytes after the end of the packet as a record.\<close>

lemma dns_rr_add_end_rep:
  assumes rep: "rep p rs" and s: "s \<noteq> DNS_RRS_END"
    and fit: "int (p_len p + 16 + n) \<le> p_size p - SIZEOF_DNS_PACKET" "p_size p - SIZEOF_DNS_PACKET \<le> int (length (p_data p))"
    and r: "r = \<lparr>i_sec = s, i_type = t, i_data = sub_bytes (p_data p) (p_len p + 16) n\<rparr>"
  shows "\<exists>q. dns_rr_add_end p s t (int n) = (0, q) \<and> rep q (rs @ [r]) \<and> p_fault q = p_fault p \<and> p_size q = p_size p
     \<and> length (p_data q) = length (p_data p) \<and> p_namedict q = p_namedict p \<and> p_base q = p_base p
     \<and> p_len q = p_len p + 16 + n \<and> (\<forall>S. counts p rs S \<longrightarrow> counts q (rs @ [r]) S)"
proof -
  define bs where "bs = sub_bytes (p_data p) (p_len p + 16) n"
  have r': "r = \<lparr>i_sec = s, i_type = t, i_data = bs\<rparr>" by (simp add: r bs_def)
  have room: "p_len p + 16 + n \<le> length (p_data p)" using fit by linarith
  hence n: "length bs = n" by (simp add: bs_def length_sub_bytes)
  define p1 where "p1 = link_last p s"
  define d where "d = put_bytes (p_len p) (rrs_bytes p DNS_RR_END (of_nat (length bs)) t) (p_data p1)"
  note laid = laid_link_last[OF rep s _ _ d_def[unfolded p1_def], unfolded n, OF room bs_def[symmetric]]
  have l1: "length (p_data p1) = length (p_data p)"
    using link_last_eq[OF rep s] last_off_bounds[of s 0 rs] rep
    by (force simp: p1_def rep_def length_put_bytes split: option.splits)
  define q where "q = (set_count s (rrs_count p s + 1) (p1\<lparr>p_data := d\<rparr>))\<lparr>p_len := p_len p + 16 + n\<rparr>"
  have p1c: "rrs_count p1 t = rrs_count p t" for t
    using link_last_eq[OF rep s] by (simp add: p1_def split: option.splits)
  have "dns_rr_add_end p s t (int n) = (0, q)"
    using fit s room l1 p1c by (simp add: dns_rr_add_end_link q_def p1_def[symmetric] packet_write_def d_def n nat_int_add)
  moreover have sel: "p_fault q = p_fault p" "p_size q = p_size p" "p_namedict q = p_namedict p" "p_base q = p_base p"
    "p_len q = p_len p + 16 + n" "p_data q = d"
    using link_last_eq[OF rep s] by (auto simp: q_def p1_def split: option.splits)
  moreover have "rep q (rs @ [r])"
  proof -
    have "rrs_first q u = link (first_off u 0 (rs @ [r]))" if u: "u \<noteq> DNS_RRS_END" for u
    proof -
      have f: "rrs_first q u = (if u = s \<and> last_off s 0 rs = None then of_nat (p_len p) else rrs_first p u)"
        using link_last_eq[OF rep s] s by (auto simp: q_def p1_def split: option.splits)
      show ?thesis
        using rep u first_off_none[of s 0 rs] unfolding f
        by (auto simp: rep_def first_off_append r' link_def split: option.splits)
    qed
    then show ?thesis
      using rep s laid sel room n unfolding rep_def by (auto simp: r' rr_size_def)
  qed
  moreover have "counts q (rs @ [r]) S" if "counts p rs S" for S
    using that s p1c by (auto simp: counts_def in_sec_def q_def r')
  ultimately show ?thesis using laid(2) by blast
qed

section \<open>Iteration\<close>

text \<open>The offsets of the records of a section, and the records at them.\<close>

fun offsets :: "dns_rr_type \<Rightarrow> nat \<Rightarrow> rr_item list \<Rightarrow> nat list" where
  "offsets s off [] = []"
| "offsets s off (r # rs) =
     (if i_sec r = s then off # offsets s (off + rr_size r) rs else offsets s (off + rr_size r) rs)"

lemma length_offsets [simp]: "length (offsets s off rs) = length (in_sec s rs)"
  by (induction rs arbitrary: off) (auto simp: in_sec_def)

text \<open>
  The loop \<^verbatim>\<open>for (i = 0; i < count && rrs; i++, rrs = dns_get_rrs_next(packet, rrs))\<close>: the records it runs over, and
  whether it followed a link out of the packet. The third argument is what is left of \<^verbatim>\<open>count\<close>.
\<close>

fun rrs_loop :: "dns_packet \<Rightarrow> nat option \<Rightarrow> nat \<Rightarrow> nat list \<times> bool" where
  "rrs_loop p rrs 0 = ([], False)"
| "rrs_loop p None (Suc n) = ([], False)"
| "rrs_loop p (Some rrs) (Suc n) =
     (let (nxt, bad) = dns_get_rrs_next p rrs; (xs, bad') = rrs_loop p nxt n in (rrs # xs, bad \<or> bad'))"

definition section_records :: "dns_packet \<Rightarrow> dns_rr_type \<Rightarrow> nat list \<times> bool" where
  "section_records p s = (let (rrs, count) = dns_get_rrs_start p s in rrs_loop p rrs (nat count))"

lemma loop_offsets:
  assumes "laid (p_data p) off rs" "off \<le> length (p_data p)" "length (p_data p) \<le> 65535"
  shows "rrs_loop p (first_off s off rs) (length (in_sec s rs)) = (offsets s off rs, False)"
  using assms
proof (induction rs arbitrary: off)
  case (Cons r rs)
  let ?o = "off + rr_size r"
  have r: "rr_at (p_data p) off r (link (first_off (i_sec r) ?o rs))" and tl: "laid (p_data p) ?o rs"
    using Cons.prems(1) by auto
  have o: "?o \<le> length (p_data p)" using r by (simp add: rr_at_def)
  have v: "rrs_loop p (first_off s ?o rs) (length (in_sec s rs)) = (offsets s ?o rs, False)" by (rule Cons.IH[OF tl o Cons.prems(3)])
  show ?case
  proof (cases "i_sec r = s")
    case True
    have "dns_get_rrs_next p off = (first_off s ?o rs, False)"
    proof (cases "first_off s ?o rs")
      case None
      then show ?thesis using rrs_next_at[OF r] True by (simp add: dns_get_rrs_next_def link_def)
    next
      case (Some y)
      have "y < 65535" using first_off_bounds[OF Some] laid_bound[OF tl o] Cons.prems(3) by simp
      then show ?thesis using rrs_next_at[OF r] True Some link_some[of y] by (simp add: dns_get_rrs_next_def)
    qed
    then show ?thesis using v True by (simp add: in_sec_def)
  qed (use v in \<open>simp add: in_sec_def\<close>)
qed (simp add: in_sec_def)

lemma offsets_rr_at:
  "laid d off rs \<Longrightarrow> list_all2 (\<lambda>x r. \<exists>nxt. rr_at d x r nxt) (offsets s off rs) (in_sec s rs)"
  by (induction rs arbitrary: off) (auto simp: in_sec_def)

lemma start_first:
  assumes "rep p rs" "s \<noteq> DNS_RRS_END"
  shows "fst (dns_get_rrs_start p s) = first_off s 0 rs"
proof (cases "first_off s 0 rs")
  case None
  then show ?thesis using assms by (simp add: rep_def dns_get_rrs_start_def link_def)
next
  case (Some x)
  then show ?thesis using rep_first_some[OF assms Some] by (simp add: dns_get_rrs_start_def)
qed

lemma laid_records: "laid d off rs \<Longrightarrow> off \<le> length d \<Longrightarrow> off + 16 * length rs \<le> length d"
proof (induction rs arbitrary: off)
  case (Cons r rs)
  then have "off + rr_size r \<le> length d" by (auto simp: rr_at_def)
  then show ?case using Cons.IH[of "off + rr_size r"] Cons.prems(1) by (auto simp: rr_size_def)
qed simp

lemma start_count:
  assumes "rep p rs" "counts p rs S" "s \<in> S"
  shows "snd (dns_get_rrs_start p s) = int (length (in_sec s rs))"
proof -
  have "length (in_sec s rs) \<le> length rs" by (simp add: in_sec_def)
  moreover have "16 * length rs \<le> 65535" using assms(1) laid_records[of "p_data p" 0 rs] by (simp add: rep_def)
  ultimately have "uint (of_nat (length (in_sec s rs)) :: u16) = int (length (in_sec s rs))" by (simp add: uint_nat of_nat_inverse)
  then show ?thesis using assms(2,3) by (simp add: counts_def dns_get_rrs_start_def Let_def)
qed

lemma section_offsets:
  assumes "rep p rs" "s \<noteq> DNS_RRS_END" "counts p rs S" "s \<in> S"
  shows "section_records p s = (offsets s 0 rs, False)"
  using loop_offsets[of p 0 rs s] start_first[OF assms(1,2)] start_count[OF assms(1,3,4)] assms(1)
  by (simp add: section_records_def case_prod_beta rep_def)

section \<open>Properties\<close>

text \<open>
  C14: \<^verbatim>\<open>_dns_rr_add_end\<close> refines appending to a list. The packet's one byte array, in which the records
  of the five sections lie one after the other and are chained by 16-bit offsets, represents a list of
  records; committing a record of \<open>n\<close> bytes that was written behind the last one succeeds whenever it
  fits, appends exactly that record to the list and to its section's chain, moves every other record
  not at all, and increments the section's counter.
\<close>

theorem rr_add_end_refines_append:
  assumes "rep p rs" "s \<noteq> DNS_RRS_END"
    and "int (p_len p + 16 + n) \<le> p_size p - SIZEOF_DNS_PACKET" "p_size p - SIZEOF_DNS_PACKET \<le> int (length (p_data p))"
  shows "\<exists>q. dns_rr_add_end p s t (int n) = (0, q) \<and> p_fault q = p_fault p \<and>
     rep q (rs @ [\<lparr>i_sec = s, i_type = t, i_data = sub_bytes (p_data p) (p_len p + 16) n\<rparr>]) \<and>
     p_len q = p_len p + 16 + n \<and>
     (\<forall>S. counts p rs S \<longrightarrow> counts q (rs @ [\<lparr>i_sec = s, i_type = t, i_data = sub_bytes (p_data p) (p_len p + 16) n\<rparr>]) S)"
  using dns_rr_add_end_rep[OF assms refl, of t] by blast

lemma empty_rep: "rep (snd (dns_packet_init (packet_object 64) 216 zero_head)) []"
  by (auto simp: dns_packet_init_def packet_write_def packet_object_def rep_def length_put_bytes rrs_first_def link_def
      Let_def split: dns_rr_type.splits)

theorem rr_add_end_refines_append_witness:
  "\<exists>q. dns_rr_add_end (snd (dns_packet_init (packet_object 64) 216 zero_head)) DNS_RRS_AN 1 4 = (0, q) \<and>
     rep q [\<lparr>i_sec = DNS_RRS_AN, i_type = 1, i_data = [0, 0, 0, 0]\<rparr>]"
proof -
  let ?p = "snd (dns_packet_init (packet_object 64) 216 zero_head)"
  have "sub_bytes (p_data ?p) 16 4 = [0, 0, 0, 0]" by code_simp
  moreover have "p_len ?p = 0" "p_size ?p = 216" "length (p_data ?p) = 64" by code_simp+
  ultimately show ?thesis using rr_add_end_refines_append[OF empty_rep, of DNS_RRS_AN 4 1] by auto
qed

end
