(* ===== verification/Dns_Record.thy ===== *)
theory Dns_Record
  imports Dns_Rrs
begin

text \<open>
  The functions of \<^verbatim>\<open>src/src/dns.c\<close> that add a resource record to a packet and read one back.
  An adder returns its result code and the packet; on failure the packet's data area may have
  been written behind the last record and names may have entered the dictionary. A getter
  returns its out-parameters and the context it read with, whose \<open>c_fault\<close> tells whether a
  load left the packet's data.
\<close>

abbreviation (input) DNS_T_A :: int where "DNS_T_A \<equiv> 1"
abbreviation (input) DNS_T_NS :: int where "DNS_T_NS \<equiv> 2"
abbreviation (input) DNS_T_CNAME :: int where "DNS_T_CNAME \<equiv> 5"
abbreviation (input) DNS_T_SOA :: int where "DNS_T_SOA \<equiv> 6"
abbreviation (input) DNS_T_PTR :: int where "DNS_T_PTR \<equiv> 12"
abbreviation (input) DNS_T_TXT :: int where "DNS_T_TXT \<equiv> 16"
abbreviation (input) DNS_T_AAAA :: int where "DNS_T_AAAA \<equiv> 28"
abbreviation (input) DNS_T_SRV :: int where "DNS_T_SRV \<equiv> 33"
abbreviation (input) DNS_T_OPT :: int where "DNS_T_OPT \<equiv> 41"
abbreviation (input) DNS_T_SVCB :: int where "DNS_T_SVCB \<equiv> 64"
abbreviation (input) DNS_T_HTTPS :: int where "DNS_T_HTTPS \<equiv> 65"
abbreviation (input) DNS_OPT_T_ECS :: int where "DNS_OPT_T_ECS \<equiv> 8"
abbreviation (input) DNS_OPT_T_COOKIE :: int where "DNS_OPT_T_COOKIE \<equiv> 10"
abbreviation (input) DNS_OPT_T_TCP_KEEPALIVE :: int where "DNS_OPT_T_TCP_KEEPALIVE \<equiv> 11"
abbreviation (input) DNS_OPT_T_PADDING :: int where "DNS_OPT_T_PADDING \<equiv> 12"
abbreviation (input) DNS_MAX_OPT_LEN :: int where "DNS_MAX_OPT_LEN \<equiv> 256"

record dns_soa =
  s_mname :: cstring
  s_rname :: cstring
  s_serial :: u32
  s_refresh :: u32
  s_retry :: u32
  s_expire :: u32
  s_minimum :: u32

text \<open>\<open>e_addr\<close> has the 16 bytes of the array.\<close>

record dns_opt_ecs =
  e_family :: u16
  e_source_prefix :: u8
  e_scope_prefix :: u8
  e_addr :: bytes

section \<open>Raw records\<close>

definition dns_add_RAW ::
  "dns_packet \<Rightarrow> dns_rr_type \<Rightarrow> int \<Rightarrow> cstring \<Rightarrow> u32 \<Rightarrow> bytes \<Rightarrow> int \<Rightarrow> int \<times> dns_packet" where
  "dns_add_RAW p rrtype rtype domain ttl raw raw_len =
     (if raw_len < 0 then (-1, p)
      else
        let (ret, c) = dns_add_rrs_start p in
        if ret < 0 then (-1, p)
        else
          let (len, c) = dns_add_rr_head c domain rtype DNS_C_IN ttl raw_len in
          if len < 0 then (-1, packet_of_context p c)
          else if dns_left_len c < raw_len then (-1, packet_of_context p c)
          else
            let c = dns_copy c raw (nat raw_len)
            in dns_rr_add_end (packet_of_context p c) rrtype rtype (len + raw_len))"

text \<open>The bytes in \<^verbatim>\<open>raw\<close> are returned; their number is the new \<^verbatim>\<open>*raw_len\<close>.\<close>

definition dns_get_RAW ::
  "dns_packet \<Rightarrow> nat \<Rightarrow> int \<Rightarrow> int \<Rightarrow> int \<times> cstring \<times> u32 \<times> bytes \<times> dns_context" where
  "dns_get_RAW p rrs maxsize raw_len =
     (let c = dns_init_context_by_rrs p rrs;
          (ret, domain, qtype, qclass, ttl, rr_len, c) = dns_get_rr_head c maxsize
      in if ret < 0 then (-1, domain, ttl, [], c)
         else
           let (rrs_t, bad) = rrs_type p rrs; c = c\<lparr>c_fault := c_fault c \<or> bad\<rparr>
           in if qtype \<noteq> rrs_t \<or> rr_len > raw_len then (-1, domain, ttl, [], c)
              else let (raw, c) = dns_read_raw c (nat rr_len) in (0, domain, ttl, raw, c))"

text \<open>The code sets \<^verbatim>\<open>opt->length\<close> to 2 whatever \<^verbatim>\<open>raw_len\<close> is.\<close>

definition dns_add_opt_RAW :: "dns_packet \<Rightarrow> int \<Rightarrow> bytes \<Rightarrow> nat \<Rightarrow> int \<times> dns_packet" where
  "dns_add_opt_RAW p opt_rrtype raw raw_len =
     (let opt_data = le16 (of_int opt_rrtype) @ le16 2 @ take raw_len raw
      in dns_add_RAW p DNS_RRS_OPT opt_rrtype [] 0 opt_data (int raw_len + 4))"

definition dns_get_opt_RAW ::
  "dns_packet \<Rightarrow> nat \<Rightarrow> int \<Rightarrow> int \<times> cstring \<times> u32 \<times> bytes \<times> dns_context" where
  "dns_get_opt_RAW p rrs maxsize = dns_get_RAW p rrs maxsize DNS_MAX_OPT_LEN"

section \<open>Addresses and names\<close>

definition dns_add_CNAME :: "dns_packet \<Rightarrow> dns_rr_type \<Rightarrow> cstring \<Rightarrow> u32 \<Rightarrow> cstring \<Rightarrow> int \<times> dns_packet" where
  "dns_add_CNAME p type domain ttl cname =
     (let rr_len = int (strnlen cname 256) + 1
      in dns_add_RAW p type DNS_T_CNAME domain ttl (cname @ [0]) rr_len)"

definition dns_get_CNAME ::
  "dns_packet \<Rightarrow> nat \<Rightarrow> int \<Rightarrow> int \<Rightarrow> int \<times> cstring \<times> u32 \<times> bytes \<times> dns_context" where
  "dns_get_CNAME p rrs maxsize cname_size = dns_get_RAW p rrs maxsize cname_size"

definition dns_add_A :: "dns_packet \<Rightarrow> dns_rr_type \<Rightarrow> cstring \<Rightarrow> u32 \<Rightarrow> bytes \<Rightarrow> int \<times> dns_packet" where
  "dns_add_A p type domain ttl addr = dns_add_RAW p type DNS_T_A domain ttl addr 4"

definition dns_get_A :: "dns_packet \<Rightarrow> nat \<Rightarrow> int \<Rightarrow> int \<times> cstring \<times> u32 \<times> bytes \<times> dns_context" where
  "dns_get_A p rrs maxsize = dns_get_RAW p rrs maxsize 4"

definition dns_add_PTR :: "dns_packet \<Rightarrow> dns_rr_type \<Rightarrow> cstring \<Rightarrow> u32 \<Rightarrow> cstring \<Rightarrow> int \<times> dns_packet" where
  "dns_add_PTR p type domain ttl cname =
     (let rr_len = int (strnlen cname 256) + 1
      in dns_add_RAW p type DNS_T_PTR domain ttl (cname @ [0]) rr_len)"

definition dns_get_PTR ::
  "dns_packet \<Rightarrow> nat \<Rightarrow> int \<Rightarrow> int \<Rightarrow> int \<times> cstring \<times> u32 \<times> bytes \<times> dns_context" where
  "dns_get_PTR p rrs maxsize cname_size = dns_get_RAW p rrs maxsize cname_size"

definition dns_add_TXT :: "dns_packet \<Rightarrow> dns_rr_type \<Rightarrow> cstring \<Rightarrow> u32 \<Rightarrow> cstring \<Rightarrow> int \<times> dns_packet" where
  "dns_add_TXT p type domain ttl text =
     (let text_len = strnlen text 256
      in if text_len > 255 then (-1, p)
         else dns_add_RAW p type DNS_T_TXT domain ttl (of_nat text_len # take text_len text) (int text_len + 1))"

definition dns_get_TXT :: "dns_packet \<Rightarrow> nat \<Rightarrow> int" where
  "dns_get_TXT p rrs = -1"

definition dns_add_NS :: "dns_packet \<Rightarrow> dns_rr_type \<Rightarrow> cstring \<Rightarrow> u32 \<Rightarrow> cstring \<Rightarrow> int \<times> dns_packet" where
  "dns_add_NS p type domain ttl cname =
     (let rr_len = int (strnlen cname 256) + 1
      in dns_add_RAW p type DNS_T_NS domain ttl (cname @ [0]) rr_len)"

definition dns_get_NS ::
  "dns_packet \<Rightarrow> nat \<Rightarrow> int \<Rightarrow> int \<Rightarrow> int \<times> cstring \<times> u32 \<times> bytes \<times> dns_context" where
  "dns_get_NS p rrs maxsize cname_size = dns_get_RAW p rrs maxsize cname_size"

definition dns_add_AAAA :: "dns_packet \<Rightarrow> dns_rr_type \<Rightarrow> cstring \<Rightarrow> u32 \<Rightarrow> bytes \<Rightarrow> int \<times> dns_packet" where
  "dns_add_AAAA p type domain ttl addr = dns_add_RAW p type DNS_T_AAAA domain ttl addr 16"

definition dns_get_AAAA :: "dns_packet \<Rightarrow> nat \<Rightarrow> int \<Rightarrow> int \<times> cstring \<times> u32 \<times> bytes \<times> dns_context" where
  "dns_get_AAAA p rrs maxsize = dns_get_RAW p rrs maxsize 16"

section \<open>SOA\<close>

definition dns_add_SOA :: "dns_packet \<Rightarrow> dns_rr_type \<Rightarrow> cstring \<Rightarrow> u32 \<Rightarrow> dns_soa \<Rightarrow> int \<times> dns_packet" where
  "dns_add_SOA p type domain ttl soa =
     (let data = take 255 (s_mname soa) @ [0] @ take 255 (s_rname soa) @ [0] @ le32 (s_serial soa) @
            le32 (s_refresh soa) @ le32 (s_retry soa) @ le32 (s_expire soa) @ le32 (s_minimum soa)
      in dns_add_RAW p type DNS_T_SOA domain ttl data (int (length data)))"

text \<open>
  \<open>data\<close> is the local array of 532 bytes. What it holds behind the record's bytes does not
  reach a successful result, because the code then compares the cursor with the length.
\<close>

definition dns_get_SOA :: "dns_packet \<Rightarrow> nat \<Rightarrow> int \<Rightarrow> int \<times> cstring \<times> u32 \<times> dns_soa option \<times> dns_context" where
  "dns_get_SOA p rrs maxsize =
     (let (ret, domain, ttl, raw, c) = dns_get_RAW p rrs maxsize 532 in
      if ret \<noteq> 0 then (-1, domain, ttl, None, c)
      else
        let len = length raw;
            data = raw @ replicate (532 - len) 0;
            (mname, bad1) = strncpy_at data 0 255;
            ptr = strnlen mname 255 + 1
        in if ptr \<ge> len then (-1, domain, ttl, None, c\<lparr>c_fault := c_fault c \<or> bad1\<rparr>)
           else
             let (rname, bad2) = strncpy_at data ptr 255;
                 ptr = ptr + strnlen rname 255 + 1;
                 c = c\<lparr>c_fault := c_fault c \<or> bad1 \<or> bad2\<rparr>
             in if ptr + 20 > len then (-1, domain, ttl, None, c)
                else (0, domain, ttl,
                  Some \<lparr>s_mname = mname, s_rname = rname, s_serial = le32_at data ptr,
                    s_refresh = le32_at data (ptr + 4), s_retry = le32_at data (ptr + 8),
                    s_expire = le32_at data (ptr + 12), s_minimum = le32_at data (ptr + 16)\<rparr>, c))"

section \<open>EDNS options\<close>

definition dns_set_OPT_payload_size :: "dns_packet \<Rightarrow> int \<Rightarrow> int \<times> dns_packet" where
  "dns_set_OPT_payload_size p payload_size =
     (let payload_size = (if payload_size < 512 then 512 else payload_size)
      in (0, p\<lparr>p_payloadsize := of_int payload_size\<rparr>))"

definition dns_get_OPT_payload_size :: "dns_packet \<Rightarrow> int" where
  "dns_get_OPT_payload_size p = uint (p_payloadsize p)"

definition dns_set_OPT_option :: "dns_packet \<Rightarrow> u32 \<Rightarrow> int \<times> dns_packet" where
  "dns_set_OPT_option p option = (0, p\<lparr>p_opt_option := option\<rparr>)"

definition dns_get_OPT_option :: "dns_packet \<Rightarrow> u32" where
  "dns_get_OPT_option p = p_opt_option p"

definition ecs_bytes :: "dns_opt_ecs \<Rightarrow> bytes" where
  "ecs_bytes ecs = le16 (e_family ecs) @ [e_source_prefix ecs, e_scope_prefix ecs] @ e_addr ecs"

text \<open>The number of address bytes that a prefix length covers.\<close>

definition ecs_prefix_len :: "u8 \<Rightarrow> nat" where
  "ecs_prefix_len prefix = unat prefix div 8 + (if unat prefix mod 8 > 0 then 1 else 0)"

text \<open>The structure has 20 bytes; a longer copy reads behind it.\<close>

definition dns_add_OPT_ECS :: "dns_packet \<Rightarrow> dns_opt_ecs \<Rightarrow> int \<times> dns_packet" where
  "dns_add_OPT_ECS p ecs =
     (let len = 4 + ecs_prefix_len (e_source_prefix ecs);
          src = ecs_bytes ecs;
          p = (if len > length src then p\<lparr>p_fault := True\<rparr> else p);
          opt_data = le16 (of_int DNS_OPT_T_ECS) @ le16 (of_nat len) @
            take len (src @ replicate (len - length src) 0)
      in dns_add_RAW p DNS_RRS_OPT DNS_OPT_T_ECS [] 0 opt_data (int len + 4))"

text \<open>\<open>ecs\<close> is the structure before the call; the copy overwrites its first bytes.\<close>

definition dns_get_OPT_ECS :: "dns_packet \<Rightarrow> nat \<Rightarrow> dns_opt_ecs \<Rightarrow> int \<times> dns_opt_ecs \<times> dns_context" where
  "dns_get_OPT_ECS p rrs ecs =
     (let (ret, domain, ttl, opt_data, c) = dns_get_RAW p rrs DNS_MAX_CNAME_LEN DNS_MAX_OPT_LEN in
      if ret \<noteq> 0 then (-1, ecs, c)
      else if length opt_data < 4 then (-1, ecs, c)
      else if le16_at opt_data 0 \<noteq> of_int DNS_OPT_T_ECS then (-1, ecs, c)
      else
        let n = unat (le16_at opt_data 2);
            c = c\<lparr>c_fault := c_fault c \<or> n > length (ecs_bytes ecs) \<or> n + 4 > length opt_data\<rparr>;
            b = take n (drop 4 opt_data) @ drop n (ecs_bytes ecs)
        in (0, \<lparr>e_family = le16_at b 0, e_source_prefix = b ! 2, e_scope_prefix = b ! 3, e_addr = drop 4 b\<rparr>, c))"

definition dns_add_OPT_TCP_KEEPALIVE :: "dns_packet \<Rightarrow> u16 \<Rightarrow> int \<times> dns_packet" where
  "dns_add_OPT_TCP_KEEPALIVE p timeout =
     (let data_len = (if timeout > 0 then 2 else 0)
      in dns_add_opt_RAW p DNS_OPT_T_TCP_KEEPALIVE (be16 timeout) data_len)"

text \<open>\<open>junk\<close> is what the local array \<^verbatim>\<open>opt_data\<close> holds before the record is copied to it.\<close>

definition dns_get_OPT_TCP_KEEPALIVE :: "dns_packet \<Rightarrow> nat \<Rightarrow> bytes \<Rightarrow> int \<times> u16 option \<times> dns_context" where
  "dns_get_OPT_TCP_KEEPALIVE p rrs junk =
     (let (ret, domain, ttl, raw, c) = dns_get_opt_RAW p rrs DNS_MAX_CNAME_LEN in
      if ret \<noteq> 0 then (-1, None, c)
      else if length raw < 4 then (-1, None, c)
      else
        let opt_data = raw @ drop (length raw) junk in
        if le16_at opt_data 0 \<noteq> of_int DNS_OPT_T_TCP_KEEPALIVE then (-1, None, c)
        else if le16_at opt_data 2 = 0 then (0, Some 0, c)
        else if le16_at opt_data 2 \<noteq> 2 then (-1, None, c)
        else (0, Some (get16 (opt_data ! 4) (opt_data ! 5)), c))"

section \<open>SRV\<close>

definition dns_add_SRV ::
  "dns_packet \<Rightarrow> dns_rr_type \<Rightarrow> cstring \<Rightarrow> u32 \<Rightarrow> int \<Rightarrow> int \<Rightarrow> int \<Rightarrow> cstring \<Rightarrow> int \<times> dns_packet" where
  "dns_add_SRV p type domain ttl priority weight port target =
     (let target_len = strnlen target 256 + 1
      in if 6 + int target_len \<ge> DNS_MAX_CNAME_LEN then (-1, p)
         else
           let data = le16 (of_int priority) @ le16 (of_int weight) @ le16 (of_int port) @
                 take (target_len - 1) target @ [0]
           in dns_add_RAW p type DNS_T_SRV domain ttl data (int (length data)))"

definition dns_get_SRV ::
  "dns_packet \<Rightarrow> nat \<Rightarrow> int \<Rightarrow> nat \<Rightarrow> bytes \<Rightarrow>
     int \<times> cstring \<times> u32 \<times> (u16 \<times> u16 \<times> u16 \<times> cstring) option \<times> dns_context" where
  "dns_get_SRV p rrs maxsize target_maxlen junk =
     (let (ret, domain, ttl, raw, c) = dns_get_RAW p rrs maxsize 256 in
      if ret \<noteq> 0 then (-1, domain, ttl, None, c)
      else if length raw < 6 then (-1, domain, ttl, None, c)
      else
        let data = raw @ drop (length raw) junk; (target, bad) = strncpy_at data 6 target_maxlen
        in (0, domain, ttl, Some (le16_at data 0, le16_at data 2, le16_at data 4, target),
            c\<lparr>c_fault := c_fault c \<or> bad\<rparr>))"

section \<open>Questions\<close>

definition dns_add_domain :: "dns_packet \<Rightarrow> cstring \<Rightarrow> int \<Rightarrow> int \<Rightarrow> int \<times> dns_packet" where
  "dns_add_domain p domain qtype qclass =
     (let (ret, c) = dns_add_rrs_start p in
      if ret < 0 then (-1, p)
      else
        let (len, c) = dns_add_qr_head c domain qtype qclass in
        if len < 0 then (-1, packet_of_context p c)
        else dns_rr_add_end (packet_of_context p c) DNS_RRS_QD DNS_T_CNAME len)"

definition dns_get_domain :: "dns_packet \<Rightarrow> nat \<Rightarrow> int \<Rightarrow> int \<times> cstring \<times> int \<times> int \<times> dns_context" where
  "dns_get_domain p rrs maxsize = dns_get_qr_head (dns_init_context_by_rrs p rrs) maxsize"

end
