(* ===== verification/Dns_Svcb.thy ===== *)
theory Dns_Svcb
  imports Dns_Record
begin

text \<open>
  Records that are built piece by piece (struct \<^verbatim>\<open>dns_rr_nested\<close> of \<^verbatim>\<open>src/src/dns.c\<close>) and the
  SVCB and HTTPS records that use them. The members of the nested context that point into the
  packet are offsets of the packet's data; \<open>None\<close> is \<^verbatim>\<open>NULL\<close>. A nested record whose start failed
  has the zeroed context of the \<^verbatim>\<open>memset\<close>, in which no byte is left.
\<close>

record dns_rr_nested =
  n_ptr :: nat
  n_maxsize :: int
  n_rr_start :: "nat option"
  n_rr_len_ptr :: "nat option"
  n_rr_head_len :: u16
  n_type :: dns_rr_type
  n_rtype :: int

definition nested_context :: "dns_rr_nested \<Rightarrow> dns_packet \<Rightarrow> dns_context" where
  "nested_context n p =
     \<lparr>c_data = p_data p, c_maxsize = n_maxsize n, c_ptr = n_ptr n, c_namedict = p_namedict p, c_fault = p_fault p\<rparr>"

definition is_aligned :: "dns_packet \<Rightarrow> nat \<Rightarrow> nat \<Rightarrow> bool" where
  "is_aligned p ptr aligment \<longleftrightarrow> (p_base p + ptr) mod aligment = 0"

section \<open>Nested records\<close>

text \<open>The flag tells whether the result is not \<^verbatim>\<open>NULL\<close>.\<close>

definition dns_add_rr_nested_start ::
  "dns_packet \<Rightarrow> dns_rr_type \<Rightarrow> int \<Rightarrow> cstring \<Rightarrow> u32 \<Rightarrow> bool \<times> dns_rr_nested \<times> dns_packet" where
  "dns_add_rr_nested_start p type rtype domain ttl =
     (let n = \<lparr>n_ptr = 0, n_maxsize = 0, n_rr_start = None, n_rr_len_ptr = None, n_rr_head_len = 0,
               n_type = type, n_rtype = rtype\<rparr>;
          (ret, c) = dns_add_rrs_start p
      in if ret < 0 then (False, n, p)
         else
           let n = n\<lparr>n_ptr := c_ptr c, n_maxsize := c_maxsize c, n_rr_start := Some (c_ptr c)\<rparr>;
               (len, c) = dns_add_rr_head c domain rtype DNS_C_IN ttl 0;
               n = n\<lparr>n_ptr := c_ptr c\<rparr>;
               p = packet_of_context p c
           in if len < 0 then (False, n, p)
              else (True, n\<lparr>n_rr_len_ptr := Some (c_ptr c - 2), n_rr_head_len := of_int len\<rparr>, p))"

definition dns_add_rr_nested_memcpy ::
  "dns_rr_nested \<Rightarrow> dns_packet \<Rightarrow> bytes \<Rightarrow> int \<Rightarrow> int \<times> dns_rr_nested \<times> dns_packet" where
  "dns_add_rr_nested_memcpy n p data data_len =
     (if data_len \<le> 0 then (-1, n, p)
      else if dns_left_len (nested_context n p) < data_len then (-1, n, p)
      else if \<not> is_aligned p (n_ptr n) 2 then (-1, n, p)
      else
        let c = dns_copy (nested_context n p) data (nat data_len);
            n = n\<lparr>n_ptr := c_ptr c\<rparr>;
            p = packet_of_context p c
        in if \<not> is_aligned p (n_ptr n) 2 then
             (if dns_left_len c < 1 then (-1, n, p)
              else let c = dns_write_char c 0 in (0, n\<lparr>n_ptr := c_ptr c\<rparr>, packet_of_context p c))
           else (0, n, p))"

definition dns_add_rr_nested_end :: "dns_rr_nested \<Rightarrow> dns_packet \<Rightarrow> int \<times> dns_rr_nested \<times> dns_packet" where
  "dns_add_rr_nested_end n p =
     (case n_rr_start n of
        None \<Rightarrow> (-1, n, p)
      | Some rr_start \<Rightarrow>
          let len = int (n_ptr n) - int rr_start in
          case n_rr_len_ptr n of
            None \<Rightarrow> (-1, n, p)
          | Some ptr \<Rightarrow>
              if dns_left_len (nested_context n p) < 2 then (-1, n, p)
              else if len \<le> 14 then (0, n\<lparr>n_ptr := rr_start\<rparr>, p)
              else
                let p = packet_write p ptr (be16 (of_int (len - uint (n_rr_head_len n))));
                    (ret, p) = dns_rr_add_end p (n_type n) (n_rtype n) len
                in (ret, n, p))"

definition dns_get_rr_nested_start ::
  "dns_packet \<Rightarrow> nat \<Rightarrow> nat option \<times> cstring \<times> int \<times> u32 \<times> int \<times> dns_context" where
  "dns_get_rr_nested_start p rrs =
     (let c = dns_init_context_by_rrs p rrs;
          (ret, domain, qtype, qclass, ttl, rr_len, c) = dns_get_rr_head c DNS_MAX_CNAME_LEN
      in if ret < 0 then (None, domain, qtype, ttl, rr_len, c)
         else if qclass \<noteq> DNS_C_IN then (None, domain, qtype, ttl, rr_len, c)
         else if rr_len < 2 then (None, domain, qtype, ttl, rr_len, c)
         else (Some (c_ptr c), domain, qtype, ttl, rr_len, c))"

definition dns_get_rr_nested_next :: "dns_packet \<Rightarrow> nat \<Rightarrow> nat \<Rightarrow> nat \<Rightarrow> nat option \<times> bool" where
  "dns_get_rr_nested_next p rrs rr_nested rr_nested_len =
     (let (len, bad) = rrs_len p rrs;
          rr_end = rrs + SIZEOF_DNS_RRS + unat len;
          q = rr_nested + rr_nested_len;
          q = (if \<not> is_aligned p q 2 then q + 1 else q)
      in (if q \<ge> rr_end then None else Some q, bad))"

section \<open>SVCB and HTTPS records\<close>

definition dns_add_SVCB_HTTPS_start ::
  "dns_packet \<Rightarrow> dns_rr_type \<Rightarrow> int \<Rightarrow> cstring \<Rightarrow> u32 \<Rightarrow> int \<Rightarrow> cstring \<Rightarrow> int \<times> dns_rr_nested \<times> dns_packet" where
  "dns_add_SVCB_HTTPS_start p type rtype domain ttl priority target =
     (let (started, n, p) = dns_add_rr_nested_start p type rtype domain ttl in
      if \<not> started then (-1, n, p)
      else
        let target = (if target \<noteq> [] \<and> hd target = 46 then [] else target);
            target_len = strnlen target 256 + 1
        in if dns_left_len (nested_context n p) < 2 + int target_len then (-1, n, p)
           else
             let c = dns_write_short (nested_context n p) (of_int priority);
                 c = dns_write_raw c (take (target_len - 1) target @ [0]);
                 n = n\<lparr>n_ptr := c_ptr c\<rparr>;
                 p = packet_of_context p c
             in if \<not> is_aligned p (n_ptr n) 2 then
                  (if dns_left_len c < 1 then (-1, n, p)
                   else let c = dns_write_char c 0 in (0, n\<lparr>n_ptr := c_ptr c\<rparr>, packet_of_context p c))
                else (0, n, p))"

definition dns_add_HTTPS_start ::
  "dns_packet \<Rightarrow> dns_rr_type \<Rightarrow> cstring \<Rightarrow> u32 \<Rightarrow> int \<Rightarrow> cstring \<Rightarrow> int \<times> dns_rr_nested \<times> dns_packet" where
  "dns_add_HTTPS_start p type domain ttl priority target =
     dns_add_SVCB_HTTPS_start p type DNS_T_HTTPS domain ttl priority target"

definition dns_add_SVCB_start ::
  "dns_packet \<Rightarrow> dns_rr_type \<Rightarrow> cstring \<Rightarrow> u32 \<Rightarrow> int \<Rightarrow> cstring \<Rightarrow> int \<times> dns_rr_nested \<times> dns_packet" where
  "dns_add_SVCB_start p type domain ttl priority target =
     dns_add_SVCB_HTTPS_start p type DNS_T_SVCB domain ttl priority target"

text \<open>A sequence of copies, which stops at the first one that fails.\<close>

fun nested_copies ::
  "dns_rr_nested \<Rightarrow> dns_packet \<Rightarrow> (bytes \<times> int) list \<Rightarrow> int \<times> dns_rr_nested \<times> dns_packet" where
  "nested_copies n p [] = (0, n, p)"
| "nested_copies n p ((data, len) # rest) =
     (let (ret, n, p) = dns_add_rr_nested_memcpy n p data len in
      if ret \<noteq> 0 then (-1, n, p) else nested_copies n p rest)"

definition dns_SVCB_add_raw ::
  "dns_rr_nested \<Rightarrow> dns_packet \<Rightarrow> u16 \<Rightarrow> bytes \<Rightarrow> u16 \<Rightarrow> int \<times> dns_rr_nested \<times> dns_packet" where
  "dns_SVCB_add_raw n p key val len =
     (if dns_left_len (nested_context n p) < 2 + uint len then (-1, n, p)
      else nested_copies n p [(le16 key, 2), (le16 len, 2), (val, uint len)])"

definition dns_SVCB_add_port :: "dns_rr_nested \<Rightarrow> dns_packet \<Rightarrow> u16 \<Rightarrow> int \<times> dns_rr_nested \<times> dns_packet" where
  "dns_SVCB_add_port n p port =
     (if dns_left_len (nested_context n p) < 6 then (-1, n, p)
      else nested_copies n p [(le16 3, 2), (le16 2, 2), (be16 port, 2)])"

definition dns_SVCB_add_alpn ::
  "dns_rr_nested \<Rightarrow> dns_packet \<Rightarrow> bytes \<Rightarrow> int \<Rightarrow> int \<times> dns_rr_nested \<times> dns_packet" where
  "dns_SVCB_add_alpn n p alpn alpn_len =
     (if dns_left_len (nested_context n p) < 2 + 2 + alpn_len then (-1, n, p)
      else nested_copies n p [(le16 1, 2), (le16 (of_int alpn_len), 2), (alpn, alpn_len)])"

definition dns_SVCB_add_no_default_alpn :: "dns_rr_nested \<Rightarrow> dns_packet \<Rightarrow> int \<times> dns_rr_nested \<times> dns_packet" where
  "dns_SVCB_add_no_default_alpn n p =
     (if dns_left_len (nested_context n p) < 4 then (-1, n, p)
      else nested_copies n p [(le16 2, 2), (le16 0, 2)])"

definition dns_SVCB_add_ech ::
  "dns_rr_nested \<Rightarrow> dns_packet \<Rightarrow> bytes \<Rightarrow> int \<Rightarrow> int \<times> dns_rr_nested \<times> dns_packet" where
  "dns_SVCB_add_ech n p ech ech_len =
     (if dns_left_len (nested_context n p) < 2 + 2 + ech_len then (-1, n, p)
      else nested_copies n p [(le16 5, 2), (le16 (of_int ech_len), 2), (ech, ech_len)])"

definition dns_SVCB_add_ipv4hint ::
  "dns_rr_nested \<Rightarrow> dns_packet \<Rightarrow> bytes list \<Rightarrow> int \<times> dns_rr_nested \<times> dns_packet" where
  "dns_SVCB_add_ipv4hint n p addr =
     (let addr_num = int (length addr) in
      if dns_left_len (nested_context n p) < 4 + addr_num * 4 then (-1, n, p)
      else nested_copies n p ([(le16 4, 2), (le16 (of_int (addr_num * 4)), 2)] @ map (\<lambda>a. (a, 4)) addr))"

definition dns_SVCB_add_ipv6hint ::
  "dns_rr_nested \<Rightarrow> dns_packet \<Rightarrow> bytes list \<Rightarrow> int \<times> dns_rr_nested \<times> dns_packet" where
  "dns_SVCB_add_ipv6hint n p addr =
     (let addr_num = int (length addr) in
      if dns_left_len (nested_context n p) < 4 + addr_num * 16 then (-1, n, p)
      else nested_copies n p ([(le16 6, 2), (le16 (of_int (addr_num * 16)), 2)] @ map (\<lambda>a. (a, 16)) addr))"

definition dns_add_SVCB_end :: "dns_rr_nested \<Rightarrow> dns_packet \<Rightarrow> int \<times> dns_rr_nested \<times> dns_packet" where
  "dns_add_SVCB_end n p = dns_add_rr_nested_end n p"

definition dns_add_HTTPS_end :: "dns_rr_nested \<Rightarrow> dns_packet \<Rightarrow> int \<times> dns_rr_nested \<times> dns_packet" where
  "dns_add_HTTPS_end n p = dns_add_SVCB_end n p"

text \<open>The wrappers that keep the older names.\<close>

definition dns_HTTPS_add_raw ::
  "dns_rr_nested \<Rightarrow> dns_packet \<Rightarrow> u16 \<Rightarrow> bytes \<Rightarrow> u16 \<Rightarrow> int \<times> dns_rr_nested \<times> dns_packet" where
  "dns_HTTPS_add_raw n p key val len = dns_SVCB_add_raw n p key val len"

definition dns_HTTPS_add_alpn ::
  "dns_rr_nested \<Rightarrow> dns_packet \<Rightarrow> bytes \<Rightarrow> int \<Rightarrow> int \<times> dns_rr_nested \<times> dns_packet" where
  "dns_HTTPS_add_alpn n p alpn alpn_len = dns_SVCB_add_alpn n p alpn alpn_len"

definition dns_HTTPS_add_no_default_alpn :: "dns_rr_nested \<Rightarrow> dns_packet \<Rightarrow> int \<times> dns_rr_nested \<times> dns_packet" where
  "dns_HTTPS_add_no_default_alpn n p = dns_SVCB_add_no_default_alpn n p"

definition dns_HTTPS_add_port :: "dns_rr_nested \<Rightarrow> dns_packet \<Rightarrow> u16 \<Rightarrow> int \<times> dns_rr_nested \<times> dns_packet" where
  "dns_HTTPS_add_port n p port = dns_SVCB_add_port n p port"

definition dns_HTTPS_add_ipv4hint ::
  "dns_rr_nested \<Rightarrow> dns_packet \<Rightarrow> bytes list \<Rightarrow> int \<times> dns_rr_nested \<times> dns_packet" where
  "dns_HTTPS_add_ipv4hint n p addr = dns_SVCB_add_ipv4hint n p addr"

definition dns_HTTPS_add_ech ::
  "dns_rr_nested \<Rightarrow> dns_packet \<Rightarrow> bytes \<Rightarrow> int \<Rightarrow> int \<times> dns_rr_nested \<times> dns_packet" where
  "dns_HTTPS_add_ech n p ech ech_len = dns_SVCB_add_ech n p ech ech_len"

definition dns_HTTPS_add_ipv6hint ::
  "dns_rr_nested \<Rightarrow> dns_packet \<Rightarrow> bytes list \<Rightarrow> int \<times> dns_rr_nested \<times> dns_packet" where
  "dns_HTTPS_add_ipv6hint n p addr = dns_SVCB_add_ipv6hint n p addr"

text \<open>
  The result is the return value, the first parameter (\<open>None\<close> is \<^verbatim>\<open>NULL\<close>), the name, the TTL, the
  priority, the target and the context.
\<close>

definition dns_svcparm_start ::
  "dns_packet \<Rightarrow> nat \<Rightarrow> nat \<Rightarrow> int \<times> nat option \<times> cstring \<times> u32 \<times> int \<times> cstring \<times> dns_context" where
  "dns_svcparm_start p rrs target_maxlen =
     (let (start, domain, qtype, ttl, rr_len, c) = dns_get_rr_nested_start p rrs in
      if start = None then (-1, None, domain, ttl, 0, [], c)
      else if qtype \<noteq> DNS_T_HTTPS \<and> qtype \<noteq> DNS_T_SVCB then (-1, None, domain, ttl, 0, [], c)
      else if rr_len < 2 then (-1, None, domain, ttl, 0, [], c)
      else
        let (priority, c) = dns_read_short c;
            rr_len = rr_len - 2
        in if rr_len \<le> 0 then (-1, None, domain, ttl, uint priority, [], c)
           else
             let data = c_ptr c;
                 (s, bad1) = strncpy_at (c_data c) data (nat rr_len + 1);
                 len = length s;
                 (target, bad2) = strncpy_at (c_data c) data target_maxlen;
                 c = c\<lparr>c_fault := c_fault c \<or> bad1 \<or> bad2\<rparr>;
                 data = data + len + 1;
                 rr_len = rr_len - (int len + 1)
             in if rr_len < 0 then (-1, None, domain, ttl, uint priority, target, c)
                else
                  let aligned = is_aligned p data 2;
                      data = (if \<not> aligned then data + 1 else data);
                      rr_len = (if \<not> aligned then rr_len - 1 else rr_len)
                  in (0, if rr_len = 0 then None else Some data, domain, ttl, uint priority, target, c))"

text \<open>The flag tells whether a load left the packet's data.\<close>

definition dns_svcparm_next :: "dns_packet \<Rightarrow> nat \<Rightarrow> nat \<Rightarrow> nat option \<times> bool" where
  "dns_svcparm_next p rrs param =
     (let (len, bad) = packet_read16 p (param + 2);
          (nxt, bad') = dns_get_rr_nested_next p rrs param (4 + unat len)
      in (nxt, bad \<or> bad'))"

end
