(* ===== verification/Dns_Decode.thy ===== *)
theory Dns_Decode
  imports Dns_Svcb
begin

text \<open>
  The decoder of \<^verbatim>\<open>src/src/dns.c\<close>: it reads a wire packet through the context \<open>c\<close> and adds what
  it finds to the packet \<open>p\<close>.
\<close>

section \<open>Heads\<close>

definition dns_decode_head :: "dns_context \<Rightarrow> dns_packet \<Rightarrow> int \<times> dns_context \<times> dns_packet" where
  "dns_decode_head c p =
     (if dns_left_len c < 12 then (-1, c, p)
      else
        let (id, c) = dns_read_short c;
            (fields, c) = dns_read_short c;
            (qd, c) = dns_read_short c;
            (an, c) = dns_read_short c;
            (ns, c) = dns_read_short c;
            (nr, c) = dns_read_short c
        in (0, c, p\<lparr>p_head := (p_head p)\<lparr>
             h_id := id,
             h_qr := drop_bit 15 (fields AND 0x8000),
             h_opcode := drop_bit 11 (fields AND 0x7800),
             h_aa := ucast (drop_bit 10 (fields AND 0x0400)),
             h_tc := ucast (drop_bit 9 (fields AND 0x0200)),
             h_rd := ucast (drop_bit 8 (fields AND 0x0100)),
             h_ra := ucast (drop_bit 7 (fields AND 0x0080)),
             h_z := ucast (drop_bit 6 (fields AND 0x0040)),
             h_ad := ucast (drop_bit 5 (fields AND 0x0020)),
             h_cd := ucast (drop_bit 4 (fields AND 0x0010)),
             h_rcode := fields AND 0x000F,
             h_qdcount := qd, h_ancount := an, h_nscount := ns, h_nrcount := nr\<rparr>\<rparr>))"

definition dns_decode_qr_head :: "dns_context \<Rightarrow> int \<Rightarrow> int \<times> cstring \<times> int \<times> int \<times> dns_context" where
  "dns_decode_qr_head c domain_size =
     (let (ret, domain, c) = dns_decode_domain c domain_size in
      if ret < 0 then (-1, domain, 0, 0, c)
      else if dns_left_len c < 4 then (-1, domain, 0, 0, c)
      else
        let (qtype, c) = dns_read_short c; (qclass, c) = dns_read_short c
        in (0, domain, uint qtype, uint qclass, c))"

definition dns_decode_rr_head ::
  "dns_context \<Rightarrow> int \<Rightarrow> int \<times> cstring \<times> int \<times> int \<times> u32 \<times> int \<times> dns_context" where
  "dns_decode_rr_head c domain_size =
     (let (len, domain, qtype, qclass, c) = dns_decode_qr_head c domain_size in
      if len < 0 then (-1, domain, qtype, qclass, 0, 0, c)
      else if dns_left_len c < 6 then (-1, domain, qtype, qclass, 0, 0, c)
      else
        let (ttl, c) = dns_read_int c; (rl, c) = dns_read_short c; rr_len = uint rl
        in if rr_len < 0 \<or> sint ttl < 0 then (-1, domain, qtype, qclass, ttl, rr_len, c)
           else if rr_len > dns_left_len c then (-1, domain, qtype, qclass, ttl, rr_len, c)
           else (0, domain, qtype, qclass, ttl, rr_len, c))"

section \<open>Record data\<close>

definition dns_decode_raw :: "dns_context \<Rightarrow> int \<Rightarrow> int \<times> bytes \<times> dns_context" where
  "dns_decode_raw c len =
     (if dns_left_len c < len \<or> len < 0 then (-1, [], c)
      else let (raw, c) = dns_read_raw c (nat len) in (0, raw, c))"

definition dns_decode_CNAME :: "dns_context \<Rightarrow> int \<Rightarrow> int \<times> cstring \<times> dns_context" where
  "dns_decode_CNAME c cname_size =
     (let (ret, cname, c) = dns_decode_domain c cname_size in
      if ret < 0 then (-1, cname, c) else (0, cname, c))"

definition dns_decode_SRV :: "dns_context \<Rightarrow> int \<Rightarrow> int \<times> u16 \<times> u16 \<times> u16 \<times> cstring \<times> dns_context" where
  "dns_decode_SRV c target_maxlen =
     (if dns_left_len c < 6 then (-1, 0, 0, 0, [], c)
      else
        let (priority, c) = dns_read_short c;
            (weight, c) = dns_read_short c;
            (port, c) = dns_read_short c;
            (ret, target, c) = dns_decode_domain c target_maxlen
        in if ret < 0 then (-1, priority, weight, port, target, c)
           else (0, priority, weight, port, target, c))"

text \<open>A failed result carries no structure, which its caller does not look at.\<close>

definition dns_decode_SOA :: "dns_context \<Rightarrow> int \<times> dns_soa option \<times> dns_context" where
  "dns_decode_SOA c =
     (let (ret, mname, c) = dns_decode_domain c (DNS_MAX_CNAME_LEN - 1) in
      if ret < 0 then (-1, None, c)
      else
        let (ret, rname, c) = dns_decode_domain c (DNS_MAX_CNAME_LEN - 1) in
        if ret < 0 then (-1, None, c)
        else if dns_left_len c < 20 then (-1, None, c)
        else
          let (serial, c) = dns_read_int c;
              (refresh, c) = dns_read_int c;
              (retry, c) = dns_read_int c;
              (expire, c) = dns_read_int c;
              (minimum, c) = dns_read_int c
          in (0, Some \<lparr>s_mname = mname, s_rname = rname, s_serial = serial, s_refresh = refresh,
                s_retry = retry, s_expire = expire, s_minimum = minimum\<rparr>, c))"

section \<open>EDNS options\<close>

text \<open>The structure is zeroed by the caller before the call.\<close>

definition dns_decode_opt_ecs :: "dns_context \<Rightarrow> int \<Rightarrow> int \<times> dns_opt_ecs \<times> dns_context" where
  "dns_decode_opt_ecs c opt_len =
     (if opt_len < 4 then (-1, \<lparr>e_family = 0, e_source_prefix = 0, e_scope_prefix = 0, e_addr = replicate 16 0\<rparr>, c)
      else
        let (family, c) = dns_read_short c;
            (source, c) = dns_read_char c;
            (scope, c) = dns_read_char c;
            ecs = \<lparr>e_family = family, e_source_prefix = source, e_scope_prefix = scope, e_addr = replicate 16 0\<rparr>;
            len = ecs_prefix_len source
        in if dns_left_len c < int len \<or> len > 16 then (-1, ecs, c)
           else let (addr, c) = dns_read_raw c len in (0, ecs\<lparr>e_addr := put_bytes 0 addr (e_addr ecs)\<rparr>, c))"

text \<open>The cookie is read and not kept.\<close>

definition dns_decode_opt_cookie :: "dns_context \<Rightarrow> int \<Rightarrow> int \<times> dns_context" where
  "dns_decode_opt_cookie c opt_len =
     (if opt_len < 8 then (-1, c)
      else
        let (client_cookie, c) = dns_read_raw c 8; opt_len = opt_len - 8
        in if opt_len \<le> 0 then (0, c)
           else if opt_len < 8 \<or> opt_len > 32 then (-1, c)
           else let (server_cookie, c) = dns_read_raw c (nat opt_len) in (0, c))"

definition dns_decode_opt_tcp_keepalive :: "dns_context \<Rightarrow> int \<Rightarrow> int \<times> u16 \<times> dns_context" where
  "dns_decode_opt_tcp_keepalive c opt_len =
     (if opt_len = 0 then (0, 0, c)
      else if opt_len < 2 then (-1, 0, c)
      else let (timeout, c) = dns_read_short c in (0, timeout, c))"

text \<open>One option: what the body of the loop does after the code and the length are read.\<close>

definition dns_decode_opt_item ::
  "dns_context \<Rightarrow> dns_packet \<Rightarrow> int \<Rightarrow> int \<Rightarrow> int \<times> dns_context \<times> dns_packet" where
  "dns_decode_opt_item c p opt_code opt_len =
     (if opt_code = DNS_OPT_T_ECS then
        let (ret, ecs, c) = dns_decode_opt_ecs c opt_len in
        if ret \<noteq> 0 then (-1, c, p)
        else let (ret, p) = dns_add_OPT_ECS p ecs in if ret \<noteq> 0 then (-1, c, p) else (0, c, p)
      else if opt_code = DNS_OPT_T_COOKIE then
        let (ret, c) = dns_decode_opt_cookie c opt_len in if ret \<noteq> 0 then (-1, c, p) else (0, c, p)
      else if opt_code = DNS_OPT_T_TCP_KEEPALIVE then
        let (ret, timeout, c) = dns_decode_opt_tcp_keepalive c opt_len in
        if ret \<noteq> 0 then (-1, c, p)
        else let (ret, p) = dns_add_OPT_TCP_KEEPALIVE p timeout in if ret \<noteq> 0 then (-1, c, p) else (0, c, p)
      else (0, c\<lparr>c_ptr := c_ptr c + nat opt_len\<rparr>, p))"

lemma read_short_ptr [simp]: "c_ptr (snd (dns_read_short c)) = c_ptr c + 2"
  by (simp add: dns_read_short_def read_bytes_def)

lemma read_char_ptr [simp]: "c_ptr (snd (dns_read_char c)) = c_ptr c + 1"
  by (simp add: dns_read_char_def read_bytes_def)

lemma read_int_ptr [simp]: "c_ptr (snd (dns_read_int c)) = c_ptr c + 4"
  by (simp add: dns_read_int_def read_bytes_def)

lemma read_raw_ptr [simp]: "c_ptr (snd (dns_read_raw c n)) = c_ptr c + n"
  by (simp add: dns_read_raw_def read_bytes_def)

lemma read_eq_ptr:
  "dns_read_short c = (v, c') \<Longrightarrow> c_ptr c' = c_ptr c + 2"
  "dns_read_char c = (b, c') \<Longrightarrow> c_ptr c' = c_ptr c + 1"
  "dns_read_int c = (w, c') \<Longrightarrow> c_ptr c' = c_ptr c + 4"
  "dns_read_raw c n = (bs, c') \<Longrightarrow> c_ptr c' = c_ptr c + n"
  using read_short_ptr[of c] read_char_ptr[of c] read_int_ptr[of c] read_raw_ptr[of c n] by auto

lemma decode_opt_item_ptr: "dns_decode_opt_item c p code len = (ret, c', p') \<Longrightarrow> c_ptr c \<le> c_ptr c'"
  by (auto simp: dns_decode_opt_item_def dns_decode_opt_ecs_def dns_decode_opt_cookie_def
      dns_decode_opt_tcp_keepalive_def Let_def split: if_splits prod.splits dest!: read_eq_ptr)

text \<open>The loop over the options; \<open>start\<close> is where the record's data begins.\<close>

function dns_decode_opt_loop ::
  "dns_context \<Rightarrow> dns_packet \<Rightarrow> nat \<Rightarrow> int \<Rightarrow> int \<times> dns_context \<times> dns_packet" where
  "dns_decode_opt_loop c p start rr_len =
     (if int (c_ptr c) - int start < rr_len then
        if dns_left_len c < 4 then (-1, c, p)
        else
          let (opt_code, c1) = dns_read_short c;
              (opt_len, c2) = dns_read_short c1
          in if dns_left_len c2 < uint opt_len then (-1, c2, p)
             else
               case dns_decode_opt_item c2 p (uint opt_code) (uint opt_len) of
                 (ret, c3, p3) \<Rightarrow> if ret \<noteq> 0 then (-1, c3, p3) else dns_decode_opt_loop c3 p3 start rr_len
      else (0, c, p))"
  by pat_completeness auto
termination
  by (relation "measure (\<lambda>(c, p, start, rr_len). nat (rr_len + int start - int (c_ptr c)))")
     (auto dest!: decode_opt_item_ptr[OF sym] decode_opt_item_ptr read_eq_ptr(1)[OF sym])

declare dns_decode_opt_loop.simps [simp del]

definition dns_decode_opt :: "dns_context \<Rightarrow> dns_packet \<Rightarrow> u32 \<Rightarrow> int \<Rightarrow> int \<times> dns_context \<times> dns_packet" where
  "dns_decode_opt c p ttl rr_len =
     (let errcode = drop_bit 16 ttl AND 0xFFFF in
      if rr_len < 0 then (-1, c, p)
      else if errcode \<noteq> 0 then (0, c, p)
      else dns_decode_opt_loop c p (c_ptr c) rr_len)"

section \<open>SVCB and HTTPS records\<close>

text \<open>The keys that are kept: mandatory to ipv6hint.\<close>

definition svcparam_known :: "u16 \<Rightarrow> bool" where
  "svcparam_known key \<longleftrightarrow> key \<in> {0, 1, 2, 3, 4, 5, 6}"

text \<open>The result of adding a parameter is ignored, as in the code.\<close>

function dns_decode_svc_loop ::
  "dns_context \<Rightarrow> dns_rr_nested \<Rightarrow> dns_packet \<Rightarrow> nat \<Rightarrow> int \<Rightarrow> int \<times> dns_context \<times> dns_rr_nested \<times> dns_packet" where
  "dns_decode_svc_loop c n p start rr_len =
     (if int (c_ptr c) - int start < rr_len then
        if dns_left_len c < 4 then (-1, c, n, p)
        else
          let (key, c1) = dns_read_short c;
              (value_len, c2) = dns_read_short c1
          in if dns_left_len c2 < uint value_len then (-1, c2, n, p)
             else
               if svcparam_known key then
                 let (val, c3) = dns_read_raw c2 (unat value_len);
                     (_, n3, p3) = dns_SVCB_add_raw n p key val value_len
                 in dns_decode_svc_loop c3 n3 p3 start rr_len
               else dns_decode_svc_loop (c2\<lparr>c_ptr := c_ptr c2 + unat value_len\<rparr>) n p start rr_len
      else (0, c, n, p))"
  by pat_completeness auto
termination
  by (relation "measure (\<lambda>(c, n, p, start, rr_len). nat (rr_len + int start - int (c_ptr c)))")
     (auto dest!: read_eq_ptr[OF sym])

declare dns_decode_svc_loop.simps [simp del]

definition dns_decode_SVCB_HTTPS ::
  "dns_context \<Rightarrow> dns_packet \<Rightarrow> cstring \<Rightarrow> int \<Rightarrow> u32 \<Rightarrow> int \<Rightarrow> int \<times> dns_context \<times> dns_packet" where
  "dns_decode_SVCB_HTTPS c p domain qtype ttl rr_len =
     (let start = c_ptr c in
      if rr_len < 2 then (-1, c, p)
      else if dns_left_len c < rr_len then (-1, c, p)
      else
        let (priority, c) = dns_read_short c;
            (ret, target, c) = dns_decode_domain c DNS_MAX_CNAME_LEN
        in if ret < 0 then (-1, c, p)
           else
             let (_, n, p) = dns_add_SVCB_HTTPS_start p DNS_RRS_AN qtype domain ttl (uint priority) target;
                 (ret, c, n, p) = dns_decode_svc_loop c n p start rr_len
             in if ret < 0 then (-1, c, p)
                else let (_, n, p) = dns_add_SVCB_end n p in (0, c, p))"

section \<open>Sections\<close>

definition dns_decode_qd :: "dns_context \<Rightarrow> dns_packet \<Rightarrow> int \<times> dns_context \<times> dns_packet" where
  "dns_decode_qd c p =
     (let (len, domain, qtype, qclass, c) = dns_decode_qr_head c DNS_MAX_CNAME_LEN in
      if len < 0 then (-1, c, p)
      else
        let (len, p) = dns_add_domain p domain qtype qclass
        in if len < 0 then (-1, c, p) else (0, c, p))"

text \<open>The switch of \<^verbatim>\<open>_dns_decode_an\<close> over the record type.\<close>

definition dns_decode_rdata ::
  "dns_context \<Rightarrow> dns_packet \<Rightarrow> dns_rr_type \<Rightarrow> cstring \<Rightarrow> int \<Rightarrow> int \<Rightarrow> u32 \<Rightarrow> int \<Rightarrow> int \<times> dns_context \<times> dns_packet" where
  "dns_decode_rdata c p type domain qtype qclass ttl rr_len =
     (if qtype = DNS_T_A then
        let (ret, addr, c) = dns_decode_raw c 4 in
        if ret < 0 then (-1, c, p)
        else let (ret, p) = dns_add_A p type domain ttl addr in (if ret < 0 then -1 else 0, c, p)
      else if qtype = DNS_T_CNAME then
        let (ret, cname, c) = dns_decode_CNAME c DNS_MAX_CNAME_LEN in
        if ret < 0 then (-1, c, p)
        else let (ret, p) = dns_add_CNAME p type domain ttl cname in (if ret < 0 then -1 else 0, c, p)
      else if qtype = DNS_T_SOA then
        let (ret, soa, c) = dns_decode_SOA c in
        (case soa of
           None \<Rightarrow> (-1, c, p)
         | Some soa \<Rightarrow> let (ret, p) = dns_add_SOA p type domain ttl soa in (if ret < 0 then -1 else 0, c, p))
      else if qtype = DNS_T_NS then
        let (ret, ns, c) = dns_decode_CNAME c DNS_MAX_CNAME_LEN in
        if ret < 0 then (-1, c, p)
        else let (ret, p) = dns_add_NS p type domain ttl ns in (if ret < 0 then -1 else 0, c, p)
      else if qtype = DNS_T_PTR then
        let (ret, name, c) = dns_decode_CNAME c DNS_MAX_CNAME_LEN in
        if ret < 0 then (-1, c, p)
        else let (ret, p) = dns_add_PTR p type domain ttl name in (if ret < 0 then -1 else 0, c, p)
      else if qtype = DNS_T_AAAA then
        let (ret, addr, c) = dns_decode_raw c 16 in
        if ret < 0 then (-1, c, p)
        else let (ret, p) = dns_add_AAAA p type domain ttl addr in (if ret < 0 then -1 else 0, c, p)
      else if qtype = DNS_T_SRV then
        let (ret, priority, weight, port, target, c) = dns_decode_SRV c DNS_MAX_CNAME_LEN in
        if ret < 0 then (-1, c, p)
        else
          let (ret, p) = dns_add_SRV p type domain ttl (uint priority) (uint weight) (uint port) target
          in (if ret < 0 then -1 else 0, c, p)
      else if qtype = DNS_T_OPT then
        let opt_start = c_ptr c;
            (ret, c, p) = dns_decode_opt c p ttl rr_len
        in if ret < 0 then (-1, c, p)
           else if int (c_ptr c) - int opt_start \<noteq> rr_len then (-1, c, p)
           else
             let (_, p) = dns_set_OPT_option p ttl;
                 (_, p) = dns_set_OPT_payload_size p qclass
             in (0, c, p)
      else if qtype = DNS_T_HTTPS \<or> qtype = DNS_T_SVCB then
        let https_start = c_ptr c;
            (ret, c, p) = dns_decode_SVCB_HTTPS c p domain qtype ttl rr_len
        in if ret < 0 then (-1, c, p)
           else if int (c_ptr c) - int https_start \<noteq> rr_len then (-1, c, p)
           else (0, c, p)
      else
        if dns_left_len c < rr_len \<or> rr_len \<ge> 1024 then (-1, c, p)
        else
          let (ret, raw_data, c) = dns_decode_raw c rr_len in
          if ret < 0 then (-1, c, p)
          else
            let (ret, p) = dns_add_RAW p type qtype domain ttl raw_data rr_len
            in (if ret < 0 then -1 else 0, c, p))"

definition dns_decode_an ::
  "dns_context \<Rightarrow> dns_packet \<Rightarrow> dns_rr_type \<Rightarrow> int \<times> dns_context \<times> dns_packet" where
  "dns_decode_an c p type =
     (let (ret, domain, qtype, qclass, ttl, rr_len, c) = dns_decode_rr_head c DNS_MAX_CNAME_LEN in
      if ret < 0 \<or> qclass < 0 then (-1, c, p)
      else
        let start = c_ptr c;
            (ret, c, p) = dns_decode_rdata c p type domain qtype qclass ttl rr_len
        in if ret < 0 then (-1, c, p)
           else if int (c_ptr c) - int start \<noteq> rr_len then (-1, c, p)
           else (0, c, p))"

text \<open>The loop \<^verbatim>\<open>for (i = 0; i < count; i++)\<close> around the decoder of one record.\<close>

fun dns_decode_times ::
  "(dns_context \<Rightarrow> dns_packet \<Rightarrow> int \<times> dns_context \<times> dns_packet) \<Rightarrow> nat \<Rightarrow> dns_context \<Rightarrow> dns_packet \<Rightarrow>
     int \<times> dns_context \<times> dns_packet" where
  "dns_decode_times f 0 c p = (0, c, p)"
| "dns_decode_times f (Suc n) c p =
     (let (ret, c, p) = f c p in if ret < 0 then (-1, c, p) else dns_decode_times f n c p)"

text \<open>One section: the count is read and zeroed, then the records are decoded.\<close>

definition dns_decode_section ::
  "dns_rr_type \<Rightarrow> (dns_context \<Rightarrow> dns_packet \<Rightarrow> int \<times> dns_context \<times> dns_packet) \<Rightarrow>
     dns_context \<Rightarrow> dns_packet \<Rightarrow> int \<times> dns_context \<times> dns_packet" where
  "dns_decode_section s f c p =
     (let count = unat (rrs_count p s) in dns_decode_times f count c (set_count s 0 p))"

definition dns_decode_body :: "dns_context \<Rightarrow> dns_packet \<Rightarrow> int \<times> dns_context \<times> dns_packet" where
  "dns_decode_body c p =
     (let (ret, c, p) = dns_decode_section DNS_RRS_QD dns_decode_qd c p in
      if ret < 0 then (-1, c, p)
      else
        let (ret, c, p) = dns_decode_section DNS_RRS_AN (\<lambda>c p. dns_decode_an c p DNS_RRS_AN) c p in
        if ret < 0 then (-1, c, p)
        else
          let (ret, c, p) = dns_decode_section DNS_RRS_NS (\<lambda>c p. dns_decode_an c p DNS_RRS_NS) c p in
          if ret < 0 then (-1, c, p)
          else
            let (ret, c, p) = dns_decode_section DNS_RRS_NR (\<lambda>c p. dns_decode_an c p DNS_RRS_NR) c p in
            if ret < 0 then (-1, c, p) else (0, c, p))"

text \<open>
  \<open>p\<close> is the memory that the caller passes for the packet and \<open>data\<close> the object of the wire
  packet. The result is the return value, the context's fault flag joined to the packet's, and the
  packet.
\<close>

definition dns_wire_context :: "bytes \<Rightarrow> int \<Rightarrow> dns_context" where
  "dns_wire_context data sz = \<lparr>c_data = data, c_maxsize = sz, c_ptr = 0, c_namedict = [], c_fault = False\<rparr>"

definition dns_decode_head_only :: "dns_packet \<Rightarrow> int \<Rightarrow> bytes \<Rightarrow> int \<Rightarrow> int \<times> bool \<times> dns_packet" where
  "dns_decode_head_only p maxsize data sz =
     (let (ret, p) = dns_packet_init (packet_clear p) maxsize zero_head in
      if ret \<noteq> 0 then (-1, p_fault p, p)
      else
        let (ret, c, p) = dns_decode_head (dns_wire_context data sz) p in
        if ret < 0 then (-1, c_fault c \<or> p_fault p, p)
        else (0, c_fault c \<or> p_fault p, p\<lparr>p_size := int (c_ptr c) + SIZEOF_DNS_PACKET\<rparr>))"

definition dns_decode :: "dns_packet \<Rightarrow> int \<Rightarrow> bytes \<Rightarrow> int \<Rightarrow> int \<times> bool \<times> dns_packet" where
  "dns_decode p maxsize data sz =
     (let (ret, p) = dns_packet_init (packet_clear p) maxsize zero_head in
      if ret \<noteq> 0 then (-1, p_fault p, p)
      else
        let (ret, c, p) = dns_decode_head (dns_wire_context data sz) p in
        if ret < 0 then (-1, c_fault c \<or> p_fault p, p)
        else
          let (ret, c, p) = dns_decode_body c p in
          if ret < 0 then (-1, c_fault c \<or> p_fault p, p)
          else (0, c_fault c \<or> p_fault p, p\<lparr>p_size := int (c_ptr c) + SIZEOF_DNS_PACKET\<rparr>))"

end
