(* ===== verification/Dns_Update.thy ===== *)
theory Dns_Update
  imports Dns_Decode
begin

text \<open>
  \<^verbatim>\<open>dns_packet_update\<close> of \<^verbatim>\<open>src/src/dns.c\<close>: a cached wire packet is changed in place before it is
  sent again. It gets the identifier and the TTL of the new request, and the names that equal the
  query up to case get the spelling of the query.
\<close>

record dns_update_param =
  u_id :: int
  u_ip_ttl :: int
  u_cname_ttl :: int
  u_query_domain :: "cstring option"

text \<open>\<^verbatim>\<open>strncasecmp(a, b, n) == 0\<close> on C strings.\<close>

definition tolower :: "u8 \<Rightarrow> u8" where
  "tolower b = (if 65 \<le> b \<and> b \<le> 90 then b + 32 else b)"

definition strncasecmp_eq :: "cstring \<Rightarrow> cstring \<Rightarrow> nat \<Rightarrow> bool" where
  "strncasecmp_eq a b n \<longleftrightarrow> map tolower (take n a) = map tolower (take n b)"

text \<open>
  The loop of \<^verbatim>\<open>_dns_update_domain\<close>. The copy reads \<open>len\<close> bytes of the query, which as an object
  is the string and its NUL; a read behind it is a fault.
\<close>

function dns_update_domain_loop ::
  "dns_context \<Rightarrow> cstring \<Rightarrow> nat \<Rightarrow> nat \<Rightarrow> nat \<Rightarrow> nat \<Rightarrow> int \<times> dns_context" where
  "dns_update_domain_loop c domain ptr ptr_jump output_len processed_len =
     (if int ptr \<ge> c_maxsize c \<or> ptr_jump > 32 \<or> processed_len > length domain + 1 then (-1, c)
      else
        let (b, c) = read_bytes c ptr 1; len = unat (b ! 0) in
        if len = 0 then (if output_len \<noteq> length domain then (-1, c) else (0, c))
        else if len \<ge> 0xC0 then
          (if int (ptr + 2) > c_maxsize c then (-1, c)
           else
             let (b, c) = read_bytes c ptr 2;
                 off = unat (get16 (b ! 0) (b ! 1) AND 0x3FFF)
             in if int off > c_maxsize c then (-1, c)
                else dns_update_domain_loop c domain off (ptr_jump + 1) output_len processed_len)
        else
          let output_len = (if output_len > 0 then output_len + 1 else output_len) in
          if int ptr > c_maxsize c then (-1, c)
          else
            let ptr = ptr + 1;
                src = drop processed_len (domain @ [0]);
                bs = take len src @ replicate (len - length src) 0;
                c = write_bytes c ptr bs;
                c = c\<lparr>c_fault := c_fault c \<or> length src < len\<rparr>
            in dns_update_domain_loop c domain (ptr + len) 0 (output_len + len) (processed_len + len + 1))"
  by pat_completeness auto
termination
  by (relation "measures [\<lambda>(c, domain, ptr, jump, olen, done). length domain + 2 - done,
                          \<lambda>(c, domain, ptr, jump, olen, done). 33 - jump]") auto

declare dns_update_domain_loop.simps [simp del]

definition dns_update_domain :: "dns_context \<Rightarrow> cstring \<Rightarrow> int \<times> dns_context" where
  "dns_update_domain c domain = dns_update_domain_loop c domain (c_ptr c) 0 0 0"

definition dns_update_rr_domain ::
  "dns_context \<Rightarrow> nat \<Rightarrow> cstring \<Rightarrow> dns_update_param \<Rightarrow> int \<times> dns_context" where
  "dns_update_rr_domain c rr_start domain param =
     (case u_query_domain param of
        None \<Rightarrow> (0, c)
      | Some query_domain \<Rightarrow>
          if \<not> strncasecmp_eq domain query_domain 256 then (0, c)
          else
            let old_ptr = c_ptr c;
                (ret, c) = dns_update_domain (c\<lparr>c_ptr := rr_start\<rparr>) query_domain;
                c = c\<lparr>c_ptr := old_ptr\<rparr>
            in if ret \<noteq> 0 then (-1, c) else (0, c))"

definition dns_update_qd :: "dns_context \<Rightarrow> dns_update_param \<Rightarrow> int \<times> dns_context" where
  "dns_update_qd c param =
     (let rr_start = c_ptr c;
          (len, domain, qtype, qclass, c) = dns_decode_qr_head c DNS_MAX_CNAME_LEN
      in if len < 0 then (-1, c)
         else
           let (ret, c) = dns_update_rr_domain c rr_start domain param
           in if ret < 0 then (-1, c) else (0, c))"

definition dns_update_an :: "dns_context \<Rightarrow> dns_update_param \<Rightarrow> int \<times> dns_context" where
  "dns_update_an c param =
     (let rr_start = c_ptr c;
          (ret, domain, qtype, qclass, ttl, rr_len, c) = dns_decode_rr_head c DNS_MAX_CNAME_LEN
      in if ret < 0 then (-1, c)
         else
           let (ret, c) = dns_update_rr_domain c rr_start domain param in
           if ret < 0 then (-1, c)
           else
             let start = c_ptr c;
                 c = (if qtype = DNS_T_OPT then c
                      else if u_ip_ttl param < 0 then c
                      else write_bytes c (start - 6) (be32 (of_int (u_ip_ttl param))));
                 c = c\<lparr>c_ptr := c_ptr c + nat rr_len\<rparr>
             in if int (c_ptr c) - int start \<noteq> rr_len then (-1, c) else (0, c))"

fun dns_update_times ::
  "(dns_context \<Rightarrow> dns_update_param \<Rightarrow> int \<times> dns_context) \<Rightarrow> nat \<Rightarrow> dns_context \<Rightarrow> dns_update_param \<Rightarrow>
     int \<times> dns_context" where
  "dns_update_times f 0 c param = (0, c)"
| "dns_update_times f (Suc n) c param =
     (let (ret, c) = f c param in if ret < 0 then (-1, c) else dns_update_times f n c param)"

text \<open>The counts are those of the header that was decoded into a local packet.\<close>

definition dns_update_body :: "dns_context \<Rightarrow> dns_head \<Rightarrow> dns_update_param \<Rightarrow> int \<times> dns_context" where
  "dns_update_body c head param =
     (let (ret, c) = dns_update_times dns_update_qd (unat (h_qdcount head)) c param in
      if ret < 0 then (-1, c)
      else
        let (ret, c) = dns_update_times dns_update_an (unat (h_ancount head)) c param in
        if ret < 0 then (-1, c)
        else
          let (ret, c) = dns_update_times dns_update_an (unat (h_nscount head)) c param in
          if ret < 0 then (-1, c)
          else
            let (ret, c) = dns_update_times dns_update_an (unat (h_nrcount head)) c param in
            if ret < 0 then (-1, c) else (0, c))"

definition dns_update_id :: "dns_context \<Rightarrow> dns_update_param \<Rightarrow> int \<times> dns_context" where
  "dns_update_id c param = (0, write_bytes c 0 (be16 (of_int (u_id param))))"

text \<open>The local packet has no data area; only its header is used.\<close>

definition local_packet :: dns_packet where
  "local_packet = \<lparr>p_head = zero_head, p_questions = 0, p_answers = 0, p_nameservers = 0, p_additional = 0,
     p_optcount = 0, p_optional = 0, p_payloadsize = 0, p_opt_option = 0, p_namedict = [], p_size = 0, p_len = 0,
     p_data = [], p_base = 0, p_fault = False\<rparr>"

text \<open>The result is the return value, the packet after the call, and whether a fault occurred.\<close>

definition dns_packet_update :: "bytes \<Rightarrow> int \<Rightarrow> dns_update_param \<Rightarrow> int \<times> bytes \<times> bool" where
  "dns_packet_update data sz param =
     (let (ret, p) = dns_packet_init local_packet SIZEOF_DNS_PACKET zero_head in
      if ret \<noteq> 0 then (-1, data, p_fault p)
      else
        let (ret, c, p) = dns_decode_head (dns_wire_context data sz) p in
        if ret < 0 then (-1, c_data c, c_fault c)
        else
          let (ret, c) = dns_update_id c param in
          if ret < 0 then (-1, c_data c, c_fault c)
          else
            let (ret, c) = dns_update_body c (p_head p) param in
            if ret < 0 then (-1, c_data c, c_fault c) else (0, c_data c, c_fault c))"

end
