(* ===== verification/Dns_Encode.thy ===== *)
theory Dns_Encode
  imports Dns_Svcb
begin

text \<open>
  The encoder of \<^verbatim>\<open>src/src/dns.c\<close>: it walks the five lists of the packet \<open>p\<close>, reads each record
  through a data context, and writes the wire packet through the context \<open>c\<close>. A fault of the data
  context is kept in the fault flag of \<open>c\<close>.
\<close>

definition join_fault :: "dns_context \<Rightarrow> bool \<Rightarrow> dns_context" where
  "join_fault c bad = c\<lparr>c_fault := c_fault c \<or> bad\<rparr>"

text \<open>The C string at the pointer of a context.\<close>

definition data_cstr :: "dns_context \<Rightarrow> cstring \<times> dns_context" where
  "data_cstr d = (cstr (drop (c_ptr d) (c_data d)), join_fault d (0 \<notin> set (drop (c_ptr d) (c_data d))))"

section \<open>Heads\<close>

definition dns_encode_head :: "dns_context \<Rightarrow> dns_packet \<Rightarrow> int \<times> dns_context" where
  "dns_encode_head c p =
     (if dns_left_len c < 12 then (-1, c)
      else
        let head = p_head p;
            c = dns_write_short c (h_id head);
            fields = (push_bit 15 (ucast (h_qr head)) AND 0x8000) OR (push_bit 11 (ucast (h_opcode head)) AND 0x7800) OR
              (push_bit 10 (ucast (h_aa head)) AND 0x0400) OR (push_bit 9 (ucast (h_tc head)) AND 0x0200) OR
              (push_bit 8 (ucast (h_rd head)) AND 0x0100) OR (push_bit 7 (ucast (h_ra head)) AND 0x0080) OR
              (push_bit 6 (ucast (h_z head)) AND 0x0040) OR (push_bit 5 (ucast (h_ad head)) AND 0x0020) OR
              (push_bit 4 (ucast (h_cd head)) AND 0x0010) OR (ucast (h_rcode head) AND 0x000F) :: u32;
            c = dns_write_short c (ucast fields);
            c = dns_write_short c (h_qdcount head);
            c = dns_write_short c (h_ancount head);
            c = dns_write_short c (h_nscount head);
            c = dns_write_short c (h_nrcount head)
        in (12, c))"

definition dns_encode_head_count :: "dns_context \<Rightarrow> dns_packet \<Rightarrow> int \<times> dns_context" where
  "dns_encode_head_count c p =
     (let head = p_head p
      in (12, write_bytes c 4
            (be16 (h_qdcount head) @ be16 (h_ancount head) @ be16 (h_nscount head) @ be16 (h_nrcount head))))"

definition dns_encode_qr_head :: "dns_context \<Rightarrow> cstring \<Rightarrow> int \<Rightarrow> int \<Rightarrow> int \<times> dns_context" where
  "dns_encode_qr_head c domain qtype qclass =
     (let (ret, c) = dns_encode_domain c domain in
      if ret < 0 then (-1, c)
      else if dns_left_len c < 4 then (-1, c)
      else (0, dns_write_short (dns_write_short c (of_int qtype)) (of_int qclass)))"

text \<open>The second component of the result is \<^verbatim>\<open>*rr_len_ptr\<close>.\<close>

definition dns_encode_rr_head ::
  "dns_context \<Rightarrow> cstring \<Rightarrow> int \<Rightarrow> int \<Rightarrow> u32 \<Rightarrow> int \<Rightarrow> int \<times> nat \<times> dns_context" where
  "dns_encode_rr_head c domain qtype qclass ttl rr_len =
     (let (ret, c) = dns_encode_qr_head c domain qtype qclass in
      if ret < 0 then (-1, 0, c)
      else if dns_left_len c < 6 then (-1, 0, c)
      else
        let c = dns_write_int c ttl; rr_len_ptr = c_ptr c
        in (0, rr_len_ptr, dns_write_short c (of_int rr_len)))"

text \<open>The record head that every encoder of a record first reads from the packet.\<close>

definition rrs_head ::
  "dns_packet \<Rightarrow> nat \<Rightarrow> int \<times> cstring \<times> int \<times> int \<times> u32 \<times> int \<times> dns_context" where
  "rrs_head p rrs = dns_get_rr_head (dns_init_context_by_rrs p rrs) DNS_MAX_CNAME_LEN"

section \<open>Record data\<close>

definition dns_encode_raw :: "dns_context \<Rightarrow> dns_packet \<Rightarrow> nat \<Rightarrow> int \<times> dns_context" where
  "dns_encode_raw c p rrs =
     (let (ret, domain, qtype, qclass, ttl, rr_len, d) = rrs_head p rrs; c = join_fault c (c_fault d) in
      if ret < 0 then (-1, c)
      else
        let (ret, rr_len_ptr, c) = dns_encode_rr_head c domain qtype qclass ttl rr_len in
        if ret < 0 then (-1, c)
        else if dns_left_len c < rr_len then (-1, c)
        else
          let (raw, d) = dns_read_raw d (nat rr_len)
          in (0, join_fault (dns_write_raw c raw) (c_fault d)))"

definition dns_encode_CNAME :: "dns_context \<Rightarrow> dns_packet \<Rightarrow> nat \<Rightarrow> int \<times> dns_context" where
  "dns_encode_CNAME c p rrs =
     (let (ret, domain, qtype, qclass, ttl, rr_len, d) = rrs_head p rrs; c = join_fault c (c_fault d) in
      if ret < 0 then (-1, c)
      else
        let rr_len = 1;
            (ret, rr_len_ptr, c) = dns_encode_rr_head c domain qtype qclass ttl rr_len
        in if ret < 0 then (-1, c)
           else
             let (cname, d) = data_cstr d;
                 (ret, c) = dns_encode_domain (join_fault c (c_fault d)) cname
             in if ret < 0 then (-1, c)
                else
                  let rr_len = rr_len + ret; (len, bad) = rrs_len p rrs
                  in if rr_len > uint len then (-1, c)
                     else (0, write_bytes c rr_len_ptr (be16 (of_int ret))))"

text \<open>\<open>skip_cstr\<close> moves the data pointer behind a string of at most 256 bytes.\<close>

definition skip_cstr :: "dns_context \<Rightarrow> cstring \<Rightarrow> dns_context" where
  "skip_cstr d s = d\<lparr>c_ptr := c_ptr d + strnlen s 256 + 1\<rparr>"

text \<open>\<^verbatim>\<open>_dns_write_intptr\<close> and \<^verbatim>\<open>_dns_write_shortptr\<close>: a host integer of the packet in network order.\<close>

definition dns_write_intptr :: "dns_context \<Rightarrow> dns_context \<Rightarrow> dns_context \<times> dns_context" where
  "dns_write_intptr c d =
     (let (b, d) = dns_read_raw d 4 in (join_fault (dns_write_int c (le32_at b 0)) (c_fault d), d))"

definition dns_write_shortptr :: "dns_context \<Rightarrow> dns_context \<Rightarrow> dns_context \<times> dns_context" where
  "dns_write_shortptr c d =
     (let (b, d) = dns_read_raw d 2 in (join_fault (dns_write_short c (le16_at b 0)) (c_fault d), d))"

definition dns_encode_SOA :: "dns_context \<Rightarrow> dns_packet \<Rightarrow> nat \<Rightarrow> int \<times> dns_context" where
  "dns_encode_SOA c p rrs =
     (let (ret, domain, qtype, qclass, ttl, rr_len, d) = rrs_head p rrs; c = join_fault c (c_fault d) in
      if ret < 0 then (-1, c)
      else
        let (ret, rr_len_ptr, c) = dns_encode_rr_head c domain qtype qclass ttl rr_len in
        if ret < 0 then (-1, c)
        else
          let (mname, d) = data_cstr d;
              (ret1, c) = dns_encode_domain (join_fault c (c_fault d)) mname
          in if ret1 < 0 then (-1, c)
             else
               let (rname, d) = data_cstr (skip_cstr d mname);
                   (ret2, c) = dns_encode_domain (join_fault c (c_fault d)) rname
               in if ret2 < 0 then (-1, c)
                  else
                    let rr_len = ret1 + ret2; d = skip_cstr d rname; (len, bad) = rrs_len p rrs
                    in if rr_len > uint len then (-1, c)
                       else
                         let c = write_bytes c rr_len_ptr (be16 (of_int (rr_len + 20))) in
                         if dns_left_len c < 20 then (-1, c)
                         else
                           let (c, d) = dns_write_intptr c d;
                               (c, d) = dns_write_intptr c d;
                               (c, d) = dns_write_intptr c d;
                               (c, d) = dns_write_intptr c d;
                               (c, d) = dns_write_intptr c d
                           in (0, c))"

definition dns_encode_SRV :: "dns_context \<Rightarrow> dns_packet \<Rightarrow> nat \<Rightarrow> int \<times> dns_context" where
  "dns_encode_SRV c p rrs =
     (let (ret, domain, qtype, qclass, ttl, rr_len, d) = rrs_head p rrs; c = join_fault c (c_fault d) in
      if ret < 0 then (-1, c)
      else
        let (ret, rr_len_ptr, c) = dns_encode_rr_head c domain qtype qclass ttl rr_len in
        if ret < 0 then (-1, c)
        else if dns_left_len c < 6 then (-1, c)
        else
          let (c, d) = dns_write_shortptr c d;
              (c, d) = dns_write_shortptr c d;
              (c, d) = dns_write_shortptr c d;
              (target, d) = data_cstr d;
              (ret, c) = dns_encode_domain (join_fault c (c_fault d)) target
          in if ret < 0 then (-1, c)
             else (0, write_bytes c rr_len_ptr (be16 (of_int (6 + ret)))))"

section \<open>EDNS options\<close>

definition dns_encode_OPT :: "dns_context \<Rightarrow> dns_packet \<Rightarrow> nat \<Rightarrow> int \<times> dns_context" where
  "dns_encode_OPT c p rrs =
     (let (ret, domain, opt_code, qclass, ttl, rr_len, d) = rrs_head p rrs; c = join_fault c (c_fault d) in
      if ret < 0 then (-1, c)
      else if rr_len < 4 then (-1, c)
      else if dns_left_len c < rr_len then (-1, c)
      else
        let (opt, d) = dns_read_raw d 4;
            code = le16_at opt 0;
            len = le16_at opt 2;
            c = dns_write_short (dns_write_short (join_fault c (c_fault d)) code) len
        in if dns_left_len c < uint len then (-1, c)
           else if uint code = DNS_OPT_T_ECS then
             let (ecs, d) = dns_read_raw d 4;
                 c = dns_write_short (join_fault c (c_fault d)) (le16_at ecs 0);
                 c = dns_write_char c (ecs ! 2);
                 c = dns_write_char c (ecs ! 3)
             in if unat len < 4 then (0, join_fault c True)
                else let (addr, d) = dns_read_raw d (unat len - 4) in (0, join_fault (dns_write_raw c addr) (c_fault d))
           else
             let (raw, d) = dns_read_raw d (unat len) in (0, join_fault (dns_write_raw c raw) (c_fault d)))"

text \<open>The loops over a list run at most \<open>count\<close> times and stop at \<^verbatim>\<open>NULL\<close>.\<close>

fun dns_get_opts_data_len :: "dns_packet \<Rightarrow> nat option \<Rightarrow> nat \<Rightarrow> int \<times> bool" where
  "dns_get_opts_data_len p rrs 0 = (0, False)"
| "dns_get_opts_data_len p None (Suc n) = (0, False)"
| "dns_get_opts_data_len p (Some rrs) (Suc n) =
     (let (ret, domain, opt_code, qclass, ttl, rr_len, d) = rrs_head p rrs in
      if ret < 0 then (-1, c_fault d)
      else
        let (nxt, bad) = dns_get_rrs_next p rrs;
            (len, bad') = dns_get_opts_data_len p nxt n
        in (if len < 0 then -1 else rr_len + len, c_fault d \<or> bad \<or> bad'))"

fun dns_encode_rrs ::
  "(dns_context \<Rightarrow> dns_packet \<Rightarrow> nat \<Rightarrow> int \<times> dns_context) \<Rightarrow> dns_context \<Rightarrow> dns_packet \<Rightarrow> nat option \<Rightarrow> nat \<Rightarrow>
     int \<times> dns_context" where
  "dns_encode_rrs f c p rrs 0 = (0, c)"
| "dns_encode_rrs f c p None (Suc n) = (0, c)"
| "dns_encode_rrs f c p (Some rrs) (Suc n) =
     (let (len, c) = f c p rrs in
      if len < 0 then (-1, c)
      else
        let (nxt, bad) = dns_get_rrs_next p rrs
        in dns_encode_rrs f (join_fault c bad) p nxt n)"

definition dns_encode_opts :: "dns_packet \<Rightarrow> dns_context \<Rightarrow> nat option \<Rightarrow> int \<Rightarrow> int \<times> dns_context" where
  "dns_encode_opts p c rrs count =
     (let rcode = p_opt_option p;
          payloadsize = uint (p_payloadsize p);
          (rr_len, bad) = dns_get_opts_data_len p rrs (nat count);
          c = join_fault c bad
      in if rr_len < 0 then (-1, c)
         else
           let payloadsize = (if payloadsize < 512 then 512 else payloadsize);
               (ret, rr_len_ptr, c) = dns_encode_rr_head c [] DNS_T_OPT payloadsize rcode rr_len
           in if ret < 0 then (-1, c)
              else if dns_left_len c < rr_len then (-1, c)
              else dns_encode_rrs dns_encode_OPT c p rrs (nat count))"

section \<open>SVCB and HTTPS records\<close>

text \<open>
  The loop over the parameters. Every parameter lies at least four bytes behind the one before it
  and before the end of the record, so the loop ends.
\<close>

function dns_encode_svc_loop ::
  "dns_context \<Rightarrow> dns_packet \<Rightarrow> nat \<Rightarrow> nat \<Rightarrow> nat option \<Rightarrow> int \<times> dns_context" where
  "dns_encode_svc_loop c p rrs start None = (0, c)"
| "dns_encode_svc_loop c p rrs start (Some param) =
     (let (rlen, bad0) = rrs_len p rrs; c = join_fault c bad0 in
      if int (c_ptr c) - int start > uint rlen \<or> dns_left_len c \<le> 0 then (-1, c)
      else
        let (len, bad2) = packet_read16 p (param + 2); c = join_fault c bad2 in
        if uint len + 4 > dns_left_len c then (-1, c)
        else
          let (key, bad1) = packet_read16 p param;
              c1 = dns_write_short (dns_write_short (join_fault c bad1) key) len;
              c2 = (if key \<in> {0, 1, 2, 3, 4, 5, 6} then dns_copy c1 (drop (param + 4) (p_data p)) (unat len)
                    else c1\<lparr>c_ptr := c_ptr c1 - 4\<rparr>);
              (nxt, bad) = dns_svcparm_next p rrs param
          in dns_encode_svc_loop (join_fault c2 bad) p rrs start nxt)"
  by pat_completeness auto
termination
  by (relation "measure (\<lambda>(c, p, rrs, start, param).
        case param of None \<Rightarrow> 0 | Some q \<Rightarrow> 1 + (rrs + SIZEOF_DNS_RRS + unat (fst (rrs_len p rrs)) - q))")
     (auto simp: dns_svcparm_next_def dns_get_rr_nested_next_def Let_def split: prod.splits if_splits option.splits)

definition dns_encode_svcparam :: "dns_context \<Rightarrow> dns_packet \<Rightarrow> nat \<Rightarrow> int \<times> dns_context" where
  "dns_encode_svcparam c p rrs =
     (let (ret, param, domain, ttl, priority, target, d) = dns_svcparm_start p rrs 256;
          c = join_fault c (c_fault d)
      in if ret < 0 then (0, c)
         else
           let (qtype, bad) = rrs_type p rrs;
               (ret, rr_len_ptr, c) = dns_encode_rr_head (join_fault c bad) domain qtype DNS_C_IN ttl 0
           in if ret < 0 then (-1, c)
              else if dns_left_len c < 2 then (-1, c)
              else
                let rr_start = c_ptr c;
                    c = dns_write_short c (of_int priority);
                    (ret, c) = dns_encode_domain c target
                in if ret < 0 then (-1, c)
                   else
                     let start = c_ptr c;
                         (ret, c) = dns_encode_svc_loop c p rrs start param
                     in if ret < 0 then (-1, c)
                        else if dns_left_len c < 2 then (-1, c)
                        else (0, write_bytes c rr_len_ptr (be16 (of_int (int (c_ptr c) - int rr_start)))))"

section \<open>Sections\<close>

text \<open>A name that begins with \<^verbatim>\<open>-\<close> has its end replaced by the pointer C0 12.\<close>

definition dns_encode_qd :: "dns_context \<Rightarrow> dns_packet \<Rightarrow> nat \<Rightarrow> int \<times> dns_context" where
  "dns_encode_qd c p rrs =
     (let (ret, domain, qtype, qclass, d) = dns_get_qr_head (dns_init_context_by_rrs p rrs) DNS_MAX_CNAME_LEN;
          c = join_fault c (c_fault d)
      in if ret < 0 then (-1, c)
         else
           let (ret, c) = dns_encode_qr_head c domain qtype qclass in
           if ret < 0 then (-1, c)
           else if domain \<noteq> [] \<and> hd domain = 45 then
             let ptr = c_ptr c - 7;
                 c = write_bytes (join_fault c (c_ptr c < 7)) ptr
                       ([0xC0, 0x12] @ be16 (of_int qtype) @ be16 (of_int qclass))
             in (0, c\<lparr>c_ptr := ptr + 6\<rparr>)
           else (0, c))"

definition dns_encode_an :: "dns_context \<Rightarrow> dns_packet \<Rightarrow> nat \<Rightarrow> int \<times> dns_context" where
  "dns_encode_an c p rrs =
     (let (rtype, bad) = rrs_type p rrs;
          c = join_fault c bad;
          (ret, c) =
            (if rtype = DNS_T_A \<or> rtype = DNS_T_AAAA then dns_encode_raw c p rrs
             else if rtype = DNS_T_CNAME \<or> rtype = DNS_T_PTR then dns_encode_CNAME c p rrs
             else if rtype = DNS_T_SOA then dns_encode_SOA c p rrs
             else if rtype = DNS_T_SRV then dns_encode_SRV c p rrs
             else if rtype = DNS_T_HTTPS \<or> rtype = DNS_T_SVCB then dns_encode_svcparam c p rrs
             else dns_encode_raw c p rrs)
      in if ret < 0 then (-1, c) else (0, c))"

definition dns_encode_body :: "dns_context \<Rightarrow> dns_packet \<Rightarrow> int \<times> dns_context \<times> dns_packet" where
  "dns_encode_body c p =
     (let (rrs, count) = dns_get_rrs_start p DNS_RRS_QD;
          p = set_count DNS_RRS_QD (of_int count) p;
          (len, c) = dns_encode_rrs dns_encode_qd c p rrs (nat count)
      in if len < 0 then (-1, c, p)
         else
           let (rrs, count) = dns_get_rrs_start p DNS_RRS_AN;
               p = set_count DNS_RRS_AN (of_int count) p;
               (len, c) = dns_encode_rrs dns_encode_an c p rrs (nat count)
           in if len < 0 then (-1, c, p)
              else
                let (rrs, count) = dns_get_rrs_start p DNS_RRS_NS;
                    p = set_count DNS_RRS_NS (of_int count) p;
                    (len, c) = dns_encode_rrs dns_encode_an c p rrs (nat count)
                in if len < 0 then (-1, c, p)
                   else
                     let (rrs, count) = dns_get_rrs_start p DNS_RRS_NR;
                         p = set_count DNS_RRS_NR (of_int count) p;
                         (len, c) = dns_encode_rrs dns_encode_an c p rrs (nat count)
                     in if len < 0 then (-1, c, p)
                        else
                          let (rrs, count) = dns_get_rrs_start p DNS_RRS_OPT in
                          if count > 0 \<or> p_payloadsize p > 0 then
                            let (len, c) = dns_encode_opts p c rrs count in
                            if len < 0 then (-1, c, p)
                            else (0, c, set_count DNS_RRS_NR (rrs_count p DNS_RRS_NR + 1) p)
                          else (0, c, p))"

text \<open>The result is the return value, the bytes of \<^verbatim>\<open>data\<close>, whether a fault occurred, and the packet.\<close>

definition dns_encode :: "bytes \<Rightarrow> int \<Rightarrow> dns_packet \<Rightarrow> int \<times> bytes \<times> bool \<times> dns_packet" where
  "dns_encode data sz p =
     (let c = \<lparr>c_data = data, c_maxsize = sz, c_ptr = 0, c_namedict = [], c_fault = False\<rparr>;
          (ret, c) = dns_encode_head c p
      in if ret < 0 then (-1, c_data c, c_fault c, p)
         else
           let (ret, c, p) = dns_encode_body c p in
           if ret < 0 then (-1, c_data c, c_fault c, p)
           else
             let (ret, c) = dns_encode_head_count c p in
             if ret < 0 then (-1, c_data c, c_fault c, p) else (int (c_ptr c), c_data c, c_fault c, p))"

end
