(* ===== verification/Dns_Name_Decode.thy ===== *)
theory Dns_Name_Decode
  imports Dns_Name "HOL-Library.Sublist"
begin

text \<open>
  The decoder of names. First its safety for arbitrary packets: the loop ends, stays inside
  the packet and never overruns the output buffer. Then what it computes: \<open>wname\<close> relates
  an offset of a packet to the labels encoded there, and on such an offset the decoder
  returns the dotted text of the labels and leaves the cursor after the name.
\<close>

section \<open>One round of the loop\<close>

definition loop_live :: "int \<Rightarrow> int \<Rightarrow> nat \<Rightarrow> nat \<Rightarrow> nat \<Rightarrow> bool" where
  "loop_live psize bufsize ptr jump output_len \<longleftrightarrow>
     int ptr < psize \<and> int output_len < bufsize - 1 \<and> jump \<le> 32"

lemma loop_stop:
  "\<not> loop_live psize bufsize ptr jump output_len \<Longrightarrow>
   dns_get_domain_loop packet psize bufsize ptr dptr cmp jump out output_len = (-1, out, dptr, False)"
  by (subst dns_get_domain_loop.simps) (auto simp: loop_live_def)

lemma loop_root:
  assumes "loop_live psize bufsize ptr jump output_len" "psize \<le> int (length packet)" "packet ! ptr = 0"
  shows "dns_get_domain_loop packet psize bufsize ptr dptr cmp jump out output_len =
    (0, out @ [0], if cmp then dptr else Suc ptr, False)"
  using assms by (subst dns_get_domain_loop.simps) (auto simp: loop_live_def)

lemma loop_pointer:
  assumes "loop_live psize bufsize ptr jump output_len" "psize \<le> int (length packet)"
    "192 \<le> unat (packet ! ptr)"
    and "off = unat (get16 (packet ! ptr) (packet ! Suc ptr) AND 0x3FFF)"
    and "dptr' = (if cmp then dptr else ptr + 2)"
  shows "dns_get_domain_loop packet psize bufsize ptr dptr cmp jump out output_len =
    (if psize < int (ptr + 2) then (-1, out, dptr, False)
     else if psize < int off then (-1, out, dptr', False)
     else dns_get_domain_loop packet psize bufsize off dptr' True (Suc jump) out output_len)"
  using assms by (subst dns_get_domain_loop.simps) (auto simp: loop_live_def Let_def)

lemma loop_label:
  assumes live: "loop_live psize bufsize ptr jump output_len" and obj: "psize \<le> int (length packet)"
    and len: "unat (packet ! ptr) = len" "0 < len" "len < 192"
    and o1: "out1 = (if output_len > 0 then out @ [46] else out)"
       "output_len1 = (if output_len > 0 then Suc output_len else output_len)"
  shows "dns_get_domain_loop packet psize bufsize ptr dptr cmp jump out output_len =
    (if int output_len1 < bufsize - 1 then
      (let copy_len = (if int len < bufsize - int output_len1 then len else nat (bufsize - 1 - int output_len1)) in
       if psize < int (Suc ptr + copy_len) then (-1, out1, dptr, False)
       else dns_get_domain_loop packet psize bufsize (Suc ptr + len) dptr cmp 0
             (out1 @ sub_bytes packet (Suc ptr) copy_len) (output_len1 + len))
    else dns_get_domain_loop packet psize bufsize (Suc ptr + len) dptr cmp 0
             out1 (output_len1 + len))"
proof -
  define cl where
    "cl = (if int len < bufsize - int output_len1 then len else nat (bufsize - 1 - int output_len1))"
  have g: "\<not> (int ptr \<ge> psize \<or> int output_len \<ge> bufsize - 1 \<or> jump > 32)" "ptr < length packet"
     "\<not> psize < int ptr" "\<not> 192 \<le> len" "len \<noteq> 0"
    using live obj len by (auto simp: loop_live_def)
  have r: "\<not> length packet < Suc ptr + cl" if "\<not> psize < int (Suc ptr + cl)"
    using obj that by linarith
  have "dns_get_domain_loop packet psize bufsize ptr dptr cmp jump out output_len =
    (if int output_len1 < bufsize - 1 then
      (if psize < int (Suc ptr + cl) then (-1, out1, dptr, False)
       else if \<not> Suc ptr + cl \<le> length packet then (-1, out1, dptr, True)
       else dns_get_domain_loop packet psize bufsize (Suc ptr + len) dptr cmp 0
             (out1 @ sub_bytes packet (Suc ptr) cl) (output_len1 + len))
    else dns_get_domain_loop packet psize bufsize (Suc ptr + len) dptr cmp 0 out1 (output_len1 + len))"
    by (subst dns_get_domain_loop.simps)
       (simp only: Let_def g len(1) not_False_eq_True simp_thms if_False if_True
         Suc_eq_plus1 [symmetric] o1 [symmetric] cl_def [symmetric])
  with r show ?thesis
    unfolding Let_def cl_def [symmetric] by (simp split: if_splits)
qed

lemma loop_measure:
  "loop_live psize bufsize ptr jump olen \<Longrightarrow> olen < olen' \<Longrightarrow>
   nat (bufsize - int olen') * 34 + 33 < nat (bufsize - int olen) * 34 + (33 - jump)"
proof -
  assume "loop_live psize bufsize ptr jump olen" "olen < olen'"
  hence "nat (bufsize - int olen') + 1 \<le> nat (bufsize - int olen)"
    by (auto simp: loop_live_def)
  hence "34 * (nat (bufsize - int olen') + 1) \<le> 34 * nat (bufsize - int olen)"
    by (rule mult_le_mono2)
  thus ?thesis by simp
qed

section \<open>Safety\<close>

text \<open>
  The contract of one call of the loop, for any bytes: it never reads outside the packet, the
  bytes written never exceed the output buffer, and after success the cursor is inside the
  packet and the output is terminated.
\<close>

definition loop_post :: "int \<Rightarrow> int \<Rightarrow> int \<times> bytes \<times> nat \<times> bool \<Rightarrow> bool" where
  "loop_post psize bufsize r \<longleftrightarrow>
     (case r of (ret, out, p, bad) \<Rightarrow>
        \<not> bad \<and> int (length out) \<le> max 0 bufsize \<and> (ret = 0 \<or> ret = -1) \<and>
        (ret = 0 \<longrightarrow> int p \<le> psize \<and> out \<noteq> [] \<and> last out = 0))"

text \<open>The bytes written are counted, until the count passes the end of the output buffer.\<close>

definition out_inv :: "int \<Rightarrow> bytes \<Rightarrow> nat \<Rightarrow> bool" where
  "out_inv bufsize out output_len \<longleftrightarrow>
     (output_len = length out \<or> bufsize - 1 \<le> int output_len) \<and> int (length out) \<le> max 0 (bufsize - 1)"

lemma loop_post_pointer:
  assumes live: "loop_live psize bufsize ptr jump output_len" and obj: "psize \<le> int (length packet)"
    and b: "192 \<le> unat (packet ! ptr)" and inv: "out_inv bufsize out output_len"
    and dptr: "cmp \<longrightarrow> int dptr \<le> psize"
    and IH: "\<And>off d. int d \<le> psize \<Longrightarrow>
      loop_post psize bufsize (dns_get_domain_loop packet psize bufsize off d True (Suc jump) out output_len)"
  shows "loop_post psize bufsize (dns_get_domain_loop packet psize bufsize ptr dptr cmp jump out output_len)"
  using IH inv dptr unfolding loop_pointer[OF live obj b refl refl]
  by (auto simp: loop_post_def out_inv_def)

lemma out_inv_label:
  assumes live: "loop_live psize bufsize ptr jump output_len" and inv: "out_inv bufsize out output_len"
    and o1: "out1 = (if output_len > 0 then out @ [46] else out)"
       "output_len1 = (if output_len > 0 then Suc output_len else output_len)"
    and cl: "copy_len = (if int len < bufsize - int output_len1 then len else nat (bufsize - 1 - int output_len1))"
    and l: "length bs = copy_len" and lt: "int output_len1 < bufsize - 1"
  shows "out_inv bufsize (out1 @ bs) (output_len1 + len)"
  using live inv lt by (auto simp: out_inv_def loop_live_def o1 cl l)

lemma loop_post_label:
  assumes live: "loop_live psize bufsize ptr jump output_len" and obj: "psize \<le> int (length packet)"
    and b: "0 < unat (packet ! ptr)" "unat (packet ! ptr) < 192" and inv: "out_inv bufsize out output_len"
    and IH: "\<And>p o1 l1. output_len < l1 \<Longrightarrow> out_inv bufsize o1 l1 \<Longrightarrow>
      loop_post psize bufsize (dns_get_domain_loop packet psize bufsize p dptr cmp 0 o1 l1)"
  shows "loop_post psize bufsize (dns_get_domain_loop packet psize bufsize ptr dptr cmp jump out output_len)"
proof -
  define len where "len = unat (packet ! ptr)"
  define o1 where "o1 = (if output_len > 0 then out @ [46] else out)"
  define l1 where "l1 = (if output_len > 0 then Suc output_len else output_len)"
  define cl where "cl = (if int len < bufsize - int l1 then len else nat (bufsize - 1 - int l1))"
  note step = loop_label[OF live obj len_def[symmetric] b[folded len_def] o1_def l1_def]
  have l1: "int (length o1) \<le> bufsize - 1" "output_len < l1 + len"
    using live inv b by (auto simp: loop_live_def out_inv_def o1_def l1_def len_def)
  hence fail: "loop_post psize bufsize (-1, o1, dptr, False)" by (auto simp: loop_post_def)
  show ?thesis
  proof (cases "int l1 < bufsize - 1")
    case True
    show ?thesis
    proof (cases "psize < int (Suc ptr + cl)")
      case True
      with \<open>int l1 < bufsize - 1\<close> fail show ?thesis unfolding step Let_def cl_def[symmetric] by simp
    next
      case False
      have "length (sub_bytes packet (Suc ptr) cl) = cl"
        using False obj by (intro length_sub_bytes) linarith
      from out_inv_label[OF live inv o1_def l1_def cl_def this True] IH[OF l1(2)]
      show ?thesis using True False unfolding step Let_def cl_def[symmetric] by simp
    qed
  next
    case False
    hence "\<not> loop_live psize bufsize (Suc ptr + len) 0 (l1 + len)" by (auto simp: loop_live_def)
    with False fail show ?thesis unfolding step by (simp add: loop_stop)
  qed
qed

lemma get_domain_loop_safe:
  assumes "psize \<le> int (length packet)" "out_inv bufsize out output_len" "cmp \<longrightarrow> int dptr \<le> psize"
  shows "loop_post psize bufsize (dns_get_domain_loop packet psize bufsize ptr dptr cmp jump out output_len)"
  using assms
proof (induction "nat (bufsize - int output_len) * 34 + (33 - jump)"
    arbitrary: ptr dptr cmp jump out output_len rule: less_induct)
  case less
  note prems = less.prems
  show ?case
  proof (cases "loop_live psize bufsize ptr jump output_len")
    case False
    with prems show ?thesis by (auto simp: loop_stop loop_post_def out_inv_def)
  next
    case live: True
    consider "packet ! ptr = 0" | "192 \<le> unat (packet ! ptr)"
      | "0 < unat (packet ! ptr)" "unat (packet ! ptr) < 192"
      by (metis linorder_not_less unat_gt_0)
    then show ?thesis
    proof cases
      case 1
      then show ?thesis
        using prems live by (auto simp: loop_root loop_post_def out_inv_def loop_live_def)
    next
      case 2
      have "33 - Suc jump < 33 - jump" using live by (auto simp: loop_live_def)
      then show ?thesis
        using less.hyps[OF _ prems(1,2), of "Suc jump" True] loop_post_pointer[OF live prems(1) 2 prems(2,3)] by simp
    next
      case 3
      show ?thesis
        by (rule loop_post_label[OF live prems(1) 3 prems(2)])
           (use less.hyps loop_measure[OF live] prems in auto)
    qed
  qed
qed

section \<open>Names on the wire\<close>

text \<open>The text of a list of labels.\<close>

fun dotted :: "bytes list \<Rightarrow> bytes" where
  "dotted [] = []"
| "dotted [l] = l"
| "dotted (l # ls) = l @ 46 # dotted ls"

text \<open>A label the decoder reads back as it is.\<close>

definition valid_label :: "bytes \<Rightarrow> bool" where
  "valid_label l \<longleftrightarrow> l \<noteq> [] \<and> length l < 192 \<and> 0 \<notin> set l \<and> 46 \<notin> set l"

text \<open>
  \<open>wname d A pos ls e\<close>: the bytes of \<open>d\<close> at the positions \<open>A\<close> encode the name \<open>ls\<close> at
  \<open>pos\<close>, and the name ends before \<open>e\<close>. A pointer leads to a label, not to the root or to
  another pointer.
\<close>

inductive wname :: "bytes \<Rightarrow> nat set \<Rightarrow> nat \<Rightarrow> bytes list \<Rightarrow> nat \<Rightarrow> bool" for d A where
  root: "pos \<in> A \<Longrightarrow> d ! pos = 0 \<Longrightarrow> wname d A pos [] (Suc pos)"
| label: "{pos..<Suc pos + length l} \<subseteq> A \<Longrightarrow> unat (d ! pos) = length l \<Longrightarrow> l \<noteq> [] \<Longrightarrow> length l < 192 \<Longrightarrow>
    sub_bytes d (Suc pos) (length l) = l \<Longrightarrow>
    wname d A (Suc pos + length l) ls e \<Longrightarrow> wname d A pos (l # ls) e"
| pointer: "{pos, Suc pos} \<subseteq> A \<Longrightarrow> 192 \<le> unat (d ! pos) \<Longrightarrow>
    off = unat (get16 (d ! pos) (d ! Suc pos) AND 0x3FFF) \<Longrightarrow>
    0 < unat (d ! off) \<Longrightarrow> unat (d ! off) < 192 \<Longrightarrow>
    wname d A off ls e \<Longrightarrow> wname d A pos ls (pos + 2)"

text \<open>The text after the name \<open>ls\<close> is appended to the output \<open>out\<close>.\<close>

definition out_of :: "bytes \<Rightarrow> bytes list \<Rightarrow> bytes" where
  "out_of out ls = (if out = [] \<or> ls = [] then out @ dotted ls else out @ 46 # dotted ls)"

lemma out_of_Cons: "l \<noteq> [] \<Longrightarrow>
   out_of ((if out = [] then out else out @ [46]) @ l) ls = out_of out (l # ls)"
  by (cases ls) (auto simp: out_of_def)

lemma length_out_of: "length out \<le> length (out_of out ls)"
  by (simp add: out_of_def)

lemma wname_pos: "wname d A pos ls e \<Longrightarrow> pos \<in> A"
  by (induction rule: wname.induct) auto

lemma wname_end: "wname d A pos ls e \<Longrightarrow> A \<subseteq> {..<n} \<Longrightarrow> e \<le> n \<and> pos < e"
  by (induction rule: wname.induct) auto

lemma decode_wname:
  assumes "wname d A pos ls e" "A \<subseteq> {..<nat psize}" "psize \<le> int (length d)"
    and "int (length (out_of out ls)) < bufsize - 1"
    and "jump = 0 \<or> jump \<le> 32 \<and> unat (d ! pos) < 192"
  shows "dns_get_domain_loop d psize bufsize pos dptr cmp jump out (length out) =
    (0, out_of out ls @ [0], if cmp then dptr else e, False)"
  using assms(1,4,5)
proof (induction arbitrary: out jump dptr cmp rule: wname.induct)
  case (root pos)
  hence "loop_live psize bufsize pos jump (length out)"
    using assms(2,3) by (auto simp: loop_live_def out_of_def)
  then show ?case
    using root assms by (simp add: loop_root out_of_def)
next
  case (label pos l ls e)
  have "pos \<in> A" "pos + length l \<in> A" using label.hyps(1) by auto
  hence room: "int pos < psize" "int (Suc pos + length l) \<le> psize" using assms(2) by auto
  have live: "loop_live psize bufsize pos jump (length out)"
    using label room length_out_of[of out "l # ls"] by (auto simp: loop_live_def)
  define o1 where "o1 = (if length out > 0 then out @ [46] else out)"
  have o1: "out_of (o1 @ l) ls = out_of out (l # ls)"
    using out_of_Cons[OF label.hyps(3), of out ls] by (cases out) (auto simp: o1_def)
  hence fits: "int (length (o1 @ l)) < bufsize - 1"
    using label.prems(1) length_out_of[of "o1 @ l" ls] by simp
  have "dns_get_domain_loop d psize bufsize pos dptr cmp jump out (length out) =
    dns_get_domain_loop d psize bufsize (Suc pos + length l) dptr cmp 0 (o1 @ l) (length (o1 @ l))"
    using loop_label[OF live assms(3) label.hyps(2) _ label.hyps(4) o1_def refl, of dptr cmp] label.hyps fits room
    by (auto simp: o1_def Let_def split: if_splits)
  then show ?case using label.IH[of "o1 @ l" 0] label.prems(1) by (simp add: o1)
next
  case (pointer pos off ls e)
  have "pos \<in> A" "Suc pos \<in> A" "off \<in> A" using pointer.hyps(1) wname_pos[OF pointer.hyps(6)] by auto
  hence room: "int (pos + 2) \<le> psize" "int off < psize" using assms(2) by auto
  have live: "loop_live psize bufsize pos jump (length out)" and j: "jump = 0"
    using pointer room length_out_of[of out ls] by (auto simp: loop_live_def)
  show ?case
    using loop_pointer[OF live assms(3) pointer.hyps(2,3) refl] pointer room pointer.IH[of out "Suc jump"] j
    by auto
qed

lemma wname_frame:
  assumes "wname d A pos ls e" "\<And>i. i \<in> A \<Longrightarrow> d' ! i = d ! i" "A \<subseteq> A'" "A \<subseteq> {..<length d}" "A \<subseteq> {..<length d'}"
  shows "wname d' A' pos ls e"
  using assms(1)
proof (induction rule: wname.induct)
  case (root pos)
  then show ?case using assms by (intro wname.root) auto
next
  case (label pos l ls e)
  have A: "pos \<in> A" "pos + length l \<in> A" and sub: "\<And>j. Suc pos \<le> j \<Longrightarrow> j < Suc pos + length l \<Longrightarrow> j \<in> A"
    using label.hyps(1) by auto
  have "Suc pos + length l \<le> length d" "Suc pos + length l \<le> length d'" using A(2) assms(4,5) by auto
  hence "sub_bytes d' (Suc pos) (length l) = sub_bytes d (Suc pos) (length l)"
    using sub assms(2) by (intro sub_bytes_cong) auto
  then show ?case using label A assms by (intro wname.label) auto
next
  case (pointer pos off ls e)
  have "off \<in> A" by (rule wname_pos[OF pointer.hyps(6)])
  then show ?case using pointer assms by (intro wname.pointer[where off = off]) auto
qed

section \<open>Valid names\<close>

text \<open>
  The text of a valid name is shorter than the buffers of \<^verbatim>\<open>DNS_MAX_CNAME_LEN\<close> bytes,
  counting the terminator and the byte the decoder keeps free.
\<close>

definition valid_name :: "bytes list \<Rightarrow> bool" where
  "valid_name ls \<longleftrightarrow> (\<forall>l\<in>set ls. valid_label l) \<and> length (dotted ls) < 255"

lemma dotted_Cons: "ls \<noteq> [] \<Longrightarrow> dotted (l # ls) = l @ 46 # dotted ls"
  by (cases ls) auto

lemma valid_name_Cons: "valid_name (l # ls) \<Longrightarrow> valid_label l \<and> valid_name ls"
  by (cases ls) (auto simp: valid_name_def)

lemma zero_notin_dotted: "valid_name ls \<Longrightarrow> 0 \<notin> set (dotted ls)"
  by (induction ls rule: dotted.induct) (auto simp: valid_name_def valid_label_def)

lemma dotted_nonempty: "valid_name ls \<Longrightarrow> ls \<noteq> [] \<Longrightarrow> dotted ls \<noteq> []"
  by (cases ls rule: dotted.cases) (auto simp: valid_name_def valid_label_def)

lemma length_dotted_suffix:
  "suffix t ls \<Longrightarrow> length (dotted t) \<le> length (dotted ls)"
proof (induction ls)
  case (Cons l ls)
  then show ?case by (cases "t = l # ls"; cases ls) (auto simp: suffix_Cons)
qed simp

lemma length_dotted_strict_suffix:
  assumes "suffix t ls" "valid_name (l # ls)"
  shows "length (dotted t) < length (dotted (l # ls))"
proof -
  have "l \<noteq> []" using assms(2) by (auto simp: valid_name_def valid_label_def)
  moreover have "length (dotted ls) < length (dotted (l # ls))"
    using \<open>l \<noteq> []\<close> by (cases ls) auto
  ultimately show ?thesis using length_dotted_suffix[OF assms(1)] by simp
qed

lemma dotted_inj: "valid_name ls \<Longrightarrow> valid_name ks \<Longrightarrow> dotted ls = dotted ks \<Longrightarrow> ls = ks"
proof (induction ls arbitrary: ks)
  case Nil
  then show ?case by (metis dotted.simps(1) dotted_nonempty)
next
  case (Cons l ls)
  note v = valid_name_Cons[OF Cons.prems(1)]
  obtain k ks' where ks: "ks = k # ks'"
    using Cons.prems dotted_nonempty by (cases ks) (metis dotted.simps(1) list.discI, blast)
  note w = valid_name_Cons[OF Cons.prems(2)[unfolded ks]]
  have tw: "takeWhile (\<lambda>b. b \<noteq> 46) (dotted (x # xs)) = x" if "valid_label x" for x xs
    using that by (cases xs) (auto simp: valid_label_def takeWhile_append takeWhile_eq_all_conv)
  have "l = k" using tw[of l ls] tw[of k ks'] v w Cons.prems(3) ks by simp
  moreover have "ls = ks'"
  proof (cases "ls = [] \<or> ks' = []")
    case True
    then show ?thesis using Cons.prems(3) ks \<open>l = k\<close> by (cases ls; cases ks') auto
  next
    case False
    then show ?thesis using Cons.prems(3) ks \<open>l = k\<close> v w Cons.IH[of ks'] by (auto simp: dotted_Cons)
  qed
  ultimately show ?case using ks by simp
qed

end
