(* ===== verification/Dns_Name_Encode.thy ===== *)
theory Dns_Name_Encode
  imports Dns_Name_Decode
begin

text \<open>
  The encoder of names: for any text and any dictionary it stays inside the buffer and
  returns the number of bytes it wrote, and for a valid name whose suffixes do not collide
  in the dictionary's hash it writes a name that \<open>wname\<close> relates to the labels, also when
  it ends in a compression pointer.
\<close>

section \<open>Safety\<close>

text \<open>What an encoder may change: the bytes from \<open>lo\<close> on and the pointer.\<close>

definition enc_frame :: "nat \<Rightarrow> dns_context \<Rightarrow> dns_context \<Rightarrow> bool" where
  "enc_frame lo c c' \<longleftrightarrow>
     c_maxsize c' = c_maxsize c \<and> length (c_data c') = length (c_data c) \<and> c_fault c' = c_fault c \<and>
     c_ptr c \<le> c_ptr c' \<and> (\<forall>i<lo. c_data c' ! i = c_data c ! i)"

lemma enc_frame_refl [simp, intro]: "enc_frame lo c c"
  by (simp add: enc_frame_def)

lemma enc_frame_trans [trans]: "enc_frame lo a b \<Longrightarrow> enc_frame lo b c \<Longrightarrow> enc_frame lo a c"
  by (auto simp: enc_frame_def)

lemma enc_frame_mono: "enc_frame hi a b \<Longrightarrow> lo \<le> hi \<Longrightarrow> enc_frame lo a b"
  by (auto simp: enc_frame_def)

lemma enc_frame_ctx_ok: "enc_frame lo a b \<Longrightarrow> ctx_ok a \<Longrightarrow> ctx_ok b"
  by (auto simp: enc_frame_def ctx_ok_def)

lemma enc_frame_write:
  "i + length bs \<le> length (c_data c) \<Longrightarrow> lo \<le> i \<Longrightarrow> enc_frame lo c (write_bytes c i bs)"
  by (auto simp: enc_frame_def write_bytes_def length_put_bytes nth_put_bytes)

lemma enc_frame_ptr: "c_ptr c \<le> p \<Longrightarrow> enc_frame lo b c \<Longrightarrow> enc_frame lo b (c\<lparr>c_ptr := p\<rparr>)"
  by (auto simp: enc_frame_def)

lemma get_domain_from_packet_safe:
  "psize \<le> int (length packet) \<Longrightarrow>
   loop_post psize bufsize (dns_get_domain_from_packet packet psize p bufsize)"
  unfolding dns_get_domain_from_packet_def by (rule get_domain_loop_safe) (auto simp: out_inv_def)

lemma get_domain_from_packet_no_fault:
  "dns_get_domain_from_packet packet psize p bufsize = (ret, out, q, bad) \<Longrightarrow>
   psize \<le> int (length packet) \<Longrightarrow> \<not> bad"
  using get_domain_from_packet_safe[of psize packet bufsize p] by (simp add: loop_post_def)

lemma get_domain_offset_frame:
  assumes "ctx_ok c"
  shows "enc_frame lo c (snd (dns_get_domain_offset c s))" and "c_ptr (snd (dns_get_domain_offset c s)) = c_ptr c"
  using assms
  by (auto simp: dns_get_domain_offset_def dns_add_domain_dict_def Let_def enc_frame_def ctx_ok_def
      dest: get_domain_from_packet_no_fault split: option.splits prod.splits)

text \<open>The result of an encoder: an error, or the number of bytes written.\<close>

definition enc_post :: "nat \<Rightarrow> dns_context \<Rightarrow> int \<Rightarrow> int \<times> dns_context \<Rightarrow> bool" where
  "enc_post lo c base r \<longleftrightarrow> enc_frame lo c (snd r) \<and>
     (fst r = -1 \<or> fst r = base + int (c_ptr (snd r)) - int (c_ptr c) \<and> int (c_ptr (snd r)) \<le> c_maxsize c)"

lemma encode_end_post:
  assumes "ctx_ok c" "pn < c_ptr c" "1 \<le> tot"
  shows "enc_post pn c tot (dns_encode_domain_end c pn num tot)"
  using assms
  by (auto simp: dns_encode_domain_end_def enc_post_def enc_frame_def ctx_ok_def dns_left_len_def write_bytes_def
      length_put_bytes nth_put_bytes Let_def)


lemma enc_post_trans:
  "enc_frame lo a b \<Longrightarrow> enc_post lo b t r \<Longrightarrow> t - int (c_ptr b) = s - int (c_ptr a) \<Longrightarrow> enc_post lo a s r"
  by (auto simp: enc_post_def enc_frame_def)

lemma encode_loop_post:
  assumes "ctx_ok c" "pn < c_ptr c" "1 \<le> tot"
  shows "enc_post pn c tot (dns_encode_domain_loop c pn num tot off s)"
  using assms
proof (induction s arbitrary: c pn num tot off)
  case Nil
  then show ?case by (simp add: encode_end_post)
next
  case (Cons ch s)
  note IH = Cons.IH and prems = Cons.prems
  show ?case
  proof (cases "dns_left_len c > 1")
    case False
    then show ?thesis using prems by (simp add: encode_end_post)
  next
    case left: True
    hence room: "c_ptr c + 2 \<le> length (c_data c)" "int (c_ptr c + 2) \<le> c_maxsize c"
      using prems by (auto simp: dns_left_len_def ctx_ok_def)
    consider "off \<ge> 0" | "off < 0" "ch = 46" | "off < 0" "ch \<noteq> 46" by linarith
    then show ?thesis
    proof cases
      case 1
      then show ?thesis
        using left room prems enc_frame_write[of pn "be16 (0xC000 OR of_int off)" c pn]
        by (auto simp: enc_post_def write_bytes_def intro: enc_frame_ptr)
    next
      case 2
      define c1 where "c1 = (write_bytes c pn [of_nat num])\<lparr>c_ptr := c_ptr c + 1\<rparr>"
      define c2 where "c2 = snd (dns_get_domain_offset c1 s)"
      have p1: "c_ptr c1 = c_ptr c + 1" by (simp add: c1_def)
      have f1: "enc_frame pn c c1"
        using enc_frame_write[of pn "[of_nat num]" c pn] room prems(2)
        by (auto simp: c1_def intro!: enc_frame_ptr simp: write_bytes_def)
      have ok1: "ctx_ok c1" by (rule enc_frame_ctx_ok[OF f1 prems(1)])
      note f2 = get_domain_offset_frame(1)[OF ok1, of pn s] get_domain_offset_frame(2)[OF ok1, of s]
      have ok2: "ctx_ok c2" unfolding c2_def by (rule enc_frame_ctx_ok[OF f2(1) ok1])
      have eq: "dns_encode_domain_loop c pn num tot off (ch # s) =
        dns_encode_domain_loop c2 (c_ptr c) 0 (tot + 1) (fst (dns_get_domain_offset c1 s)) s"
        using left 2 by (simp add: Let_def c1_def c2_def split_def write_bytes_def)
      have "enc_post (c_ptr c) c2 (tot + 1)
          (dns_encode_domain_loop c2 (c_ptr c) 0 (tot + 1) (fst (dns_get_domain_offset c1 s)) s)"
        using prems ok2 f2 p1 by (intro IH) (auto simp: c2_def)
      then have "enc_post pn c2 (tot + 1) (dns_encode_domain_loop c pn num tot off (ch # s))"
        unfolding eq using prems(2) by (auto simp: enc_post_def intro: enc_frame_mono)
      then show ?thesis
        using enc_post_trans[OF enc_frame_trans[OF f1 f2(1)], of "tot + 1" _ tot] f2(2) p1 by (simp add: c2_def)
    next
      case 3
      define c1 where "c1 = (write_bytes c (c_ptr c) [ch])\<lparr>c_ptr := c_ptr c + 1\<rparr>"
      have f1: "enc_frame pn c c1"
        using enc_frame_write[of "c_ptr c" "[ch]" c pn] room prems(2)
        by (auto simp: c1_def intro!: enc_frame_ptr simp: write_bytes_def)
      have "enc_post pn c1 (tot + 1) (dns_encode_domain_loop c1 pn (num + 1) (tot + 1) off s)"
        using prems enc_frame_ctx_ok[OF f1] by (intro IH) (auto simp: c1_def)
      then show ?thesis
        using left 3 enc_post_trans[OF f1, of "tot + 1" _ tot] by (simp add: c1_def)
    qed
  qed
qed

lemma encode_domain_post:
  assumes "ctx_ok c"
  shows "enc_post (c_ptr c) c 0 (dns_encode_domain c s)"
proof -
  define c1 where "c1 = c\<lparr>c_ptr := c_ptr c + 1\<rparr>"
  define c2 where "c2 = snd (dns_get_domain_offset c1 s)"
  have f1: "enc_frame (c_ptr c) c c1" by (simp add: c1_def enc_frame_def)
  have ok1: "ctx_ok c1" by (rule enc_frame_ctx_ok[OF f1 assms])
  note f2 = get_domain_offset_frame(1)[OF ok1, of "c_ptr c" s] get_domain_offset_frame(2)[OF ok1, of s]
  have "enc_post (c_ptr c) c2 1 (dns_encode_domain_loop c2 (c_ptr c) 0 1 (fst (dns_get_domain_offset c1 s)) s)"
    using f2 enc_frame_ctx_ok[OF f2(1) ok1] by (intro encode_loop_post) (auto simp: c2_def c1_def)
  then show ?thesis
    using enc_post_trans[OF enc_frame_trans[OF f1 f2(1)], of 1 _ 0] f2(2)
    by (simp add: dns_encode_domain_def c2_def c1_def split_def Let_def)
qed
section \<open>What the encoder writes\<close>

lemma encode_label:
  assumes "46 \<notin> set l" "fits c (length l + 1)" "off < 0"
  shows "dns_encode_domain_loop c pn num tot off (l @ rest) =
    dns_encode_domain_loop (dns_write_raw c l) pn (num + length l) (tot + int (length l)) off rest"
  using assms
proof (induction l arbitrary: c num tot)
  case Nil
  then show ?case by (simp add: write_raw_eq fits_mono)
next
  case (Cons ch l)
  have left: "dns_left_len c > 1" using Cons.prems(2) by (auto simp: fits_def dns_left_len_def)
  have f: "fits (dns_write_raw c [ch]) (length l + 1)"
    using Cons.prems(2) fits_write_raw[of c "[ch]" "length l + 1"] by simp
  have w: "dns_write_raw (dns_write_raw c [ch]) l = dns_write_raw c (ch # l)"
    using write_raw_append[of c "[ch]" l] fits_mono[OF Cons.prems(2)] by simp
  have "dns_encode_domain_loop c pn num tot off ((ch # l) @ rest) =
     dns_encode_domain_loop (dns_write_raw c [ch]) pn (num + 1) (tot + 1) off (l @ rest)"
    using Cons.prems left by (simp add: dns_write_raw_def)
  also have "\<dots> = dns_encode_domain_loop (dns_write_raw c (ch # l)) pn (num + 1 + length l) (tot + 1 + int (length l)) off rest"
    using Cons.IH[OF _ f Cons.prems(3)] Cons.prems(1) by (simp add: w)
  finally show ?case by (simp add: algebra_simps)
qed

lemma pointer_bytes:
  fixes x :: u16
  assumes "unat x < 16384"
  shows "192 \<le> unat (be16 (0xC000 OR x) ! 0)" "(0xC000 OR x) AND 0x3FFF = x"
proof -
  have m: "(0x3FFF :: u16) = mask 14" by (simp add: mask_eq_exp_minus_1)
  have x: "take_bit 14 x = x"
    using assms by (simp add: word_unat_eq_iff unsigned_take_bit_eq take_bit_nat_eq_self)
  show "(0xC000 OR x) AND 0x3FFF = x"
    by (simp add: m take_bit_eq_mask[symmetric] take_bit_or x)
  have "(be16 (0xC000 OR x) ! 0) = 0xC0 OR ucast (drop_bit 8 x)"
    by (simp add: be16_def drop_bit_or unsigned_or_eq)
  moreover have "(0xC0 :: u8) \<le> 0xC0 OR ucast (drop_bit 8 x)"
    by (rule le_word_or2)
  ultimately show "192 \<le> unat (be16 (0xC000 OR x) ! 0)"
    by (simp add: word_le_nat_alt)
qed

text \<open>An item of the dictionary that names a suffix already in the buffer.\<close>

definition dict_complete :: "bytes set \<Rightarrow> bytes \<Rightarrow> nat set \<Rightarrow> dns_packet_dict_item \<Rightarrow> bool" where
  "dict_complete S d A it \<longleftrightarrow>
     (\<exists>ls e. wname d A (unat (d_pos it)) ls e \<and> ls \<noteq> [] \<and> valid_name ls \<and> dotted ls \<in> S \<and>
        d_hash it = dict_hash (dotted ls) \<and> unat (d ! unat (d_pos it)) < 192 \<and> 0 < unat (d ! unat (d_pos it))
        \<and> unat (d_pos it) < 16384)"

lemma dict_complete_frame:
  assumes "dict_complete S d A it" "\<And>i. i \<in> A \<Longrightarrow> d' ! i = d ! i" "A \<subseteq> A'" "A \<subseteq> {..<length d}" "A \<subseteq> {..<length d'}"
  shows "dict_complete S d' A' it"
proof -
  from assms(1) obtain ls e where w: "wname d A (unat (d_pos it)) ls e" "ls \<noteq> []" "valid_name ls" "dotted ls \<in> S"
        "d_hash it = dict_hash (dotted ls)" "unat (d ! unat (d_pos it)) < 192" "0 < unat (d ! unat (d_pos it))"
        "unat (d_pos it) < 16384"
    by (auto simp: dict_complete_def)
  have "unat (d_pos it) \<in> A" by (rule wname_pos[OF w(1)])
  then show ?thesis
    unfolding dict_complete_def using wname_frame[OF w(1) assms(2-5)] w assms(2) by (intro exI[of _ ls] exI[of _ e]) auto
qed

text \<open>The encoder entered at a label, with the byte count so far.\<close>

definition encode_from :: "dns_context \<Rightarrow> int \<Rightarrow> cstring \<Rightarrow> int \<times> dns_context" where
  "encode_from c total_len domain =
     (let (off, c') = dns_get_domain_offset (c\<lparr>c_ptr := c_ptr c + 1\<rparr>) domain
      in dns_encode_domain_loop c' (c_ptr c) 0 total_len off domain)"

lemma encode_domain_from: "dns_encode_domain c domain = encode_from c 1 domain"
  by (simp add: dns_encode_domain_def encode_from_def)

lemma encode_dot:
  "dns_left_len c > 1 \<Longrightarrow> off < 0 \<Longrightarrow>
   dns_encode_domain_loop c pn num tot off (46 # rest) = encode_from (write_bytes c pn [of_nat num]) (tot + 1) rest"
  by (simp add: encode_from_def Let_def)

text \<open>The lookup of a name: found (the item is complete), or not found and perhaps added.\<close>

lemma get_offset_cases:
  assumes ok: "ctx_ok c" "A \<subseteq> {..<nat (c_maxsize c)}" and s: "s \<noteq> []"
    and comp: "\<And>it. it \<in> set (c_namedict c) \<Longrightarrow> d_hash it = dict_hash s \<Longrightarrow> dict_complete S (c_data c) A it"
  shows "(\<exists>it\<in>set (c_namedict c). d_hash it = dict_hash s \<and> dns_get_domain_offset c s = (int (unat (d_pos it)), c))
     \<or> dns_get_domain_offset c s = (-1, c)
     \<or> dns_get_domain_offset c s =
         (-1, c\<lparr>c_namedict := c_namedict c @ [\<lparr>d_pos = of_nat (c_ptr c - 1), d_hash = dict_hash s\<rparr>]\<rparr>)"
proof (cases "find (\<lambda>it. d_hash it = dict_hash s) (c_namedict c)")
  case None
  then show ?thesis using s by (simp add: dns_get_domain_offset_def dns_add_domain_dict_def Let_def)
next
  case (Some it)
  hence it: "it \<in> set (c_namedict c)" "d_hash it = dict_hash s"
    by (auto simp: find_Some_iff)
  from comp[OF this] obtain ls e where w: "wname (c_data c) A (unat (d_pos it)) ls e" "valid_name ls"
    by (auto simp: dict_complete_def)
  have "dns_get_domain_from_packet (c_data c) (c_maxsize c) (unat (d_pos it)) DNS_MAX_CNAME_LEN
     = (0, dotted ls @ [0], e, False)"
    unfolding dns_get_domain_from_packet_def
    using decode_wname[OF w(1) ok(2), of "[]" 256 0 "unat (d_pos it)" False] ok w(2)
    by (simp add: out_of_def valid_name_def ctx_ok_def)
  then show ?thesis using Some s it ok by (auto simp: dns_get_domain_offset_def ctx_ok_def)
qed

lemma encode_hit:
  assumes f: "fits c 3" and pos: "unat (d_pos it) < 16384" and s: "s \<noteq> []"
    and c2: "c2 = c\<lparr>c_ptr := c_ptr c + 1\<rparr>"
  shows "dns_encode_domain_loop c2 (c_ptr c) 0 tot (int (unat (d_pos it))) s =
     (tot + 1, dns_write_raw c (be16 (0xC000 OR d_pos it)))"
proof -
  obtain ch s' where "s = ch # s'" using s by (cases s) auto
  moreover have "word_of_int (int (unat (d_pos it))) = d_pos it" by simp
  moreover have "dns_left_len c2 > 1" using f by (auto simp: c2 fits_def dns_left_len_def)
  ultimately show ?thesis
    using f by (auto simp: c2 dns_write_raw_def write_bytes_def fits_def ctx_ok_def)
qed

lemma encode_last:
  assumes f: "fits c (length l + 3)" and l: "46 \<notin> set l" "l \<noteq> []"  and tot: "1 \<le> tot" and off: "off < 0"
    and c2: "c2 = c\<lparr>c_ptr := c_ptr c + 1, c_namedict := dict\<rparr>"
  shows "dns_encode_domain_loop c2 (c_ptr c) 0 tot off l =
    (tot + int (length l) + 1, (dns_write_raw c (of_nat (length l) # l @ [0]))\<lparr>c_namedict := dict\<rparr>)"
proof -
  define c3 where "c3 = dns_write_raw c2 l"
  have f2: "fits c2 (length l + 2)" using f by (auto simp: c2 fits_def ctx_ok_def)
  have c3: "c3 = c2\<lparr>c_data := put_bytes (c_ptr c + 1) l (c_data c), c_ptr := c_ptr c + 1 + length l\<rparr>"
    unfolding c3_def using write_raw_eq[OF fits_mono[OF f2]] by (simp add: c2)
  have "dns_encode_domain_loop c2 (c_ptr c) 0 tot off l = dns_encode_domain_end c3 (c_ptr c) (length l) (tot + int (length l))"
    using encode_label[OF l(1) _ off, of c2 "c_ptr c" 0 tot "[]"] fits_mono[OF f2] by (simp add: c3_def)
  also have "\<dots> = (tot + int (length l) + 1, (dns_write_raw c (of_nat (length l) # l @ [0]))\<lparr>c_namedict := dict\<rparr>)"
  proof -
    have len: "c_ptr c + 2 + length l \<le> length (c_data c)" using fits_length[OF f] by simp
    have 1: "put_bytes (c_ptr c) [of_nat (length l)] (put_bytes (Suc (c_ptr c)) l (c_data c)) =
       put_bytes (c_ptr c) (of_nat (length l) # l) (c_data c)"
      using put_bytes_before[of "c_ptr c" "[of_nat (length l)]" l] len by simp
    have 2: "put_bytes (Suc (c_ptr c + length l)) [0] (put_bytes (c_ptr c) (of_nat (length l) # l) (c_data c)) =
       put_bytes (c_ptr c) (of_nat (length l) # l @ [0]) (c_data c)"
      using put_bytes_adjacent[of "c_ptr c" "of_nat (length l) # l" "[0]"] len by simp
    have "1 \<le> length l" using l(2) by (cases l) auto
    moreover have "dns_left_len c3 \<ge> 2" using f by (auto simp: c3 c2 fits_def dns_left_len_def)
    ultimately show ?thesis
      using f l(2) tot len 1 2 write_raw_eq[of c "of_nat (length l) # l @ [0]"] fits_mono[OF f]
      by (auto simp: dns_encode_domain_end_def c3 c2 write_bytes_def length_put_bytes dns_left_len_def Let_def)
  qed
  finally show ?thesis .
qed

lemma encode_inner:
  assumes f: "fits c (length l + 3)" and l: "46 \<notin> set l" and off: "off < 0"
    and c2: "c2 = c\<lparr>c_ptr := c_ptr c + 1, c_namedict := dict\<rparr>"
  shows "dns_encode_domain_loop c2 (c_ptr c) 0 tot off (l @ 46 # rest) =
    encode_from ((dns_write_raw c (of_nat (length l) # l))\<lparr>c_namedict := dict\<rparr>) (tot + int (length l) + 1) rest"
proof -
  define c3 where "c3 = dns_write_raw c2 l"
  have f2: "fits c2 (length l + 2)" using f by (auto simp: c2 fits_def ctx_ok_def)
  have c3: "c3 = c2\<lparr>c_data := put_bytes (c_ptr c + 1) l (c_data c), c_ptr := c_ptr c + 1 + length l\<rparr>"
    unfolding c3_def using write_raw_eq[OF fits_mono[OF f2]] by (simp add: c2)
  have len: "c_ptr c + 2 + length l \<le> length (c_data c)" using fits_length[OF f] by simp
  have left: "dns_left_len c3 > 1" using f by (auto simp: c3 c2 fits_def dns_left_len_def)
  have "put_bytes (c_ptr c) [of_nat (length l)] (put_bytes (Suc (c_ptr c)) l (c_data c)) =
       put_bytes (c_ptr c) (of_nat (length l) # l) (c_data c)"
    using put_bytes_before[of "c_ptr c" "[of_nat (length l)]" l] len by simp
  hence w: "write_bytes c3 (c_ptr c) [of_nat (length l)] = (dns_write_raw c (of_nat (length l) # l))\<lparr>c_namedict := dict\<rparr>"
    using write_raw_eq[of c "of_nat (length l) # l"] fits_mono[OF f] len
    by (simp add: c3 c2 write_bytes_def length_put_bytes)
  have "dns_encode_domain_loop c2 (c_ptr c) 0 tot off (l @ 46 # rest) =
     dns_encode_domain_loop c3 (c_ptr c) (length l) (tot + int (length l)) off (46 # rest)"
    using encode_label[OF l(1) _ off, of c2 "c_ptr c" 0 tot "46 # rest"] fits_mono[OF f2] by (simp add: c3_def)
  also have "\<dots> = encode_from (write_bytes c3 (c_ptr c) [of_nat (length l)]) (tot + int (length l) + 1) rest"
    by (rule encode_dot[OF left off])
  finally show ?thesis by (simp add: w)
qed

lemma wname_label_written:
  assumes A: "{p..<p + 1 + length l} \<subseteq> A" and len: "p + 1 + length l \<le> length d" and l: "l \<noteq> []" "length l < 192"
    and d: "\<And>j. j < Suc (length l) \<Longrightarrow> d ! (p + j) = (of_nat (length l) # l) ! j"
    and w: "wname d A (Suc p + length l) ls e"
  shows "wname d A p (l # ls) e" and "0 < unat (d ! p)" and "unat (d ! p) < 192"
proof -
  have 0: "d ! p = of_nat (length l)" using d[of 0] by simp
  have u: "unat (d ! p) = length l"
    using l(2) by (simp add: 0 unat_of_nat)
  thus "0 < unat (d ! p)" and "unat (d ! p) < 192" using l by auto
  have "sub_bytes d (Suc p) (length l) = l"
  proof (rule nth_equalityI)
    show "length (sub_bytes d (Suc p) (length l)) = length l" using len by (simp add: length_sub_bytes)
  next
    fix i assume "i < length (sub_bytes d (Suc p) (length l))"
    hence "i < length l" using len by (simp add: length_sub_bytes)
    thus "sub_bytes d (Suc p) (length l) ! i = l ! i"
      using len d[of "Suc i"] by (simp add: nth_sub_bytes)
  qed
  thus "wname d A p (l # ls) e" using A l u w by (intro wname.label) auto
qed

text \<open>
  What the encoder has done when it returns \<open>r\<close>: it wrote bytes that are the name \<open>ls\<close>, and
  every item it added to the dictionary is complete. \<open>A\<close> is where the earlier names are.
\<close>

definition name_written ::
  "bytes set \<Rightarrow> nat set \<Rightarrow> dns_context \<Rightarrow> int \<Rightarrow> bytes list \<Rightarrow> int \<times> dns_context \<Rightarrow> bool" where
  "name_written S A c tot ls r \<longleftrightarrow>
     (\<exists>bs dict. r = (tot - 1 + int (length bs), (dns_write_raw c bs)\<lparr>c_namedict := dict\<rparr>) \<and>
        2 \<le> length bs \<and> length bs \<le> length (dotted ls) + 2 \<and>
        wname (c_data (snd r)) (A \<union> {c_ptr c..<c_ptr c + length bs}) (c_ptr c) ls (c_ptr c + length bs) \<and>
        (\<forall>it\<in>set dict. it \<in> set (c_namedict c) \<or>
           dict_complete S (c_data (snd r)) (A \<union> {c_ptr c..<c_ptr c + length bs}) it))"

text \<open>What the encoder may rely on before it writes the name \<open>ls\<close>.\<close>

definition dict_ready :: "bytes set \<Rightarrow> nat set \<Rightarrow> dns_context \<Rightarrow> bytes list \<Rightarrow> bool" where
  "dict_ready S A c ls \<longleftrightarrow>
     (\<forall>it\<in>set (c_namedict c). dict_complete S (c_data c) A it \<or>
        (\<forall>t. suffix t ls \<longrightarrow> t \<noteq> [] \<longrightarrow> d_hash it \<noteq> dict_hash (dotted t)))"

lemma dict_complete_self:
  assumes "wname d A pos (l # ls) e" "valid_name (l # ls)" "dotted (l # ls) \<in> S"
    "0 < unat (d ! pos)" "unat (d ! pos) < 192" "pos < 16384"
  shows "dict_complete S d A \<lparr>d_pos = of_nat pos, d_hash = dict_hash (dotted (l # ls))\<rparr>"
proof -
  have "unat (of_nat pos :: u16) = pos" using assms(6) by (simp add: unat_of_nat)
  with assms show ?thesis unfolding dict_complete_def by (intro exI[of _ "l # ls"] exI[of _ e]) simp
qed

text \<open>Positions before the pointer keep their bytes when the encoder writes.\<close>

lemma write_raw_below:
  assumes "fits c (length bs)" "A \<subseteq> {..<c_ptr c}"
  shows "\<And>i. i \<in> A \<Longrightarrow> c_data (dns_write_raw c bs) ! i = c_data c ! i"
    "A \<subseteq> {..<length (c_data c)}" "A \<subseteq> {..<length (c_data (dns_write_raw c bs))}"
    "c_ptr c + length bs \<le> length (c_data (dns_write_raw c bs))"
  using assms data_write_raw_old[OF assms(1)] length_data_write_raw[OF assms(1)] fits_length[OF assms(1)] by auto

lemma name_written_hit:
  assumes f: "fits c 3" and A: "A \<subseteq> {..<c_ptr c}" and comp: "dict_complete S (c_data c) A it"
    and inj: "inj_on dict_hash S" and mem: "dotted ls \<in> S" and v: "valid_name ls" and ne: "ls \<noteq> []"
    and h: "d_hash it = dict_hash (dotted ls)"
  shows "name_written S A c tot ls (tot + 1, dns_write_raw c (be16 (0xC000 OR d_pos it)))"
proof -
  from comp obtain ks e where w: "wname (c_data c) A (unat (d_pos it)) ks e" "valid_name ks"
      "dotted ks \<in> S" "d_hash it = dict_hash (dotted ks)" "unat (c_data c ! unat (d_pos it)) < 192"
      "0 < unat (c_data c ! unat (d_pos it))" "unat (d_pos it) < 16384"
    by (auto simp: dict_complete_def)
  have ks: "ks = ls" using inj_onD[OF inj, of "dotted ks" "dotted ls"] w h mem v dotted_inj by auto
  let ?bs = "be16 (0xC000 OR d_pos it)" and ?A = "A \<union> {c_ptr c..<c_ptr c + 2}"
  let ?d = "c_data (dns_write_raw c ?bs)"
  note f2 = fits_mono[OF f, of "length ?bs", simplified]
  note below = write_raw_below[of c ?bs A, simplified, OF f2 A]
  have new: "?d ! c_ptr c = ?bs ! 0" "?d ! Suc (c_ptr c) = ?bs ! Suc 0"
    using data_write_raw_new[of c ?bs 0] data_write_raw_new[of c ?bs 1] f2 by auto
  have pl: "unat (d_pos it) \<in> A" using wname_pos[OF w(1)] .
  have "wname ?d ?A (unat (d_pos it)) ls e"
    using wname_frame[OF w(1) below(1) _ below(2,3), of ?A] by (auto simp: ks)
  hence "wname ?d ?A (c_ptr c) ls (c_ptr c + 2)"
    using pointer_bytes[OF w(7)] below(1)[OF pl] w(5,6) new
    by (intro wname.pointer[where off = "unat (d_pos it)"]) auto
  then show ?thesis
    unfolding name_written_def
    by (intro exI[of _ ?bs] exI[of _ "c_namedict c"])
       (use f2 in \<open>auto simp: write_raw_eq\<close>)
qed

lemma name_written_last:
  assumes f: "fits c (length l + 3)" and v: "valid_name [l]" and mem: "l \<in> S" and mx: "c_maxsize c \<le> 16384"
    and dict: "set dict \<subseteq> insert \<lparr>d_pos = of_nat (c_ptr c), d_hash = dict_hash l\<rparr> (set (c_namedict c))"
  shows "name_written S A c tot [l] (tot + int (length l) + 1,
     (dns_write_raw c (of_nat (length l) # l @ [0]))\<lparr>c_namedict := dict\<rparr>)"
proof -
  let ?bs = "of_nat (length l) # l @ [0 :: u8]"
  let ?d = "c_data (dns_write_raw c ?bs)" and ?A = "A \<union> {c_ptr c..<c_ptr c + length ?bs}"
  have f2: "fits c (length ?bs)" using fits_mono[OF f] by simp
  have l: "l \<noteq> []" "length l < 192" using v by (auto simp: valid_name_def valid_label_def)
  have ld: "c_ptr c + 1 + length l \<le> length ?d" using fits_length[OF f2] length_data_write_raw[OF f2] by simp
  have new: "?d ! (c_ptr c + j) = ?bs ! j" if "j < length ?bs" for j
    using data_write_raw_new[OF f2 that] .
  have "wname ?d ?A (Suc (c_ptr c) + length l) [] (Suc (Suc (c_ptr c) + length l))"
    using new[of "Suc (length l)"] by (intro wname.root) (auto simp: nth_append)
  hence "wname ?d ?A (Suc (c_ptr c) + length l) [] (c_ptr c + length ?bs)" by simp
  have "{c_ptr c..<c_ptr c + 1 + length l} \<subseteq> ?A" by auto
  note W = wname_label_written[OF this ld l _ \<open>wname ?d ?A (Suc (c_ptr c) + length l) [] (c_ptr c + length ?bs)\<close>]
  have "?d ! (c_ptr c + j) = (of_nat (length l) # l) ! j" if "j < Suc (length l)" for j
    using new[of j] that nth_append[of "of_nat (length l) # l" "[0]" j] by simp
  with W have nw: "wname ?d ?A (c_ptr c) [l] (c_ptr c + length ?bs)"
    "0 < unat (?d ! c_ptr c)" "unat (?d ! c_ptr c) < 192"
    by auto
  have "c_ptr c < 16384" using f mx by (auto simp: fits_def)
  hence "dict_complete S ?d ?A \<lparr>d_pos = of_nat (c_ptr c), d_hash = dict_hash l\<rparr>"
    using dict_complete_self[OF nw(1) v _ nw(2,3)] mem by simp
  then show ?thesis
    unfolding name_written_def using dict nw(1)
    by (intro exI[of _ ?bs] exI[of _ dict]) auto
qed

lemma name_written_inner:
  assumes f: "fits c (length (dotted (l # ls)) + 3)" and v: "valid_name (l # ls)" and ne: "ls \<noteq> []"
    and mem: "dotted (l # ls) \<in> S" and mx: "c_maxsize c \<le> 16384"
    and dict: "set dict \<subseteq> insert \<lparr>d_pos = of_nat (c_ptr c), d_hash = dict_hash (dotted (l # ls))\<rparr> (set (c_namedict c))"
    and c3: "c3 = (dns_write_raw c (of_nat (length l) # l))\<lparr>c_namedict := dict\<rparr>"
    and A3: "A3 = A \<union> {c_ptr c..<c_ptr c + Suc (length l)}"
    and rest: "name_written S A3 c3 (tot + int (length l) + 1) ls r"
  shows "name_written S A c tot (l # ls) r"
proof -
  let ?lb = "of_nat (length l) # l"
  have l: "l \<noteq> []" "length l < 192" using v by (auto simp: valid_name_def valid_label_def)
  have f2: "fits c (length ?lb)" using fits_mono[OF f] ne by (simp add: dotted_Cons)
  have ptr: "c_ptr c3 = Suc (c_ptr c) + length l" using write_raw_eq[OF f2] by (simp add: c3)
  from rest obtain bs dict' where r: "r = (tot + int (length l) + int (length bs), (dns_write_raw c3 bs)\<lparr>c_namedict := dict'\<rparr>)"
    and len: "2 \<le> length bs" "length bs \<le> length (dotted ls) + 2"
    and w: "wname (c_data (snd r)) (A3 \<union> {c_ptr c3..<c_ptr c3 + length bs}) (c_ptr c3) ls (c_ptr c3 + length bs)"
    and d': "\<And>it. it \<in> set dict' \<Longrightarrow> it \<in> set dict \<or>
       dict_complete S (c_data (snd r)) (A3 \<union> {c_ptr c3..<c_ptr c3 + length bs}) it"
    by (auto simp: name_written_def c3)
  let ?A = "A \<union> {c_ptr c..<c_ptr c + length (?lb @ bs)}"
  have Aeq: "A3 \<union> {c_ptr c3..<c_ptr c3 + length bs} = ?A" by (auto simp: A3 ptr)
  have f3: "fits c (length ?lb + length bs)" using fits_mono[OF f] ne len by (simp add: dotted_Cons)
  have r2: "r = (tot - 1 + int (length (?lb @ bs)), (dns_write_raw c (?lb @ bs))\<lparr>c_namedict := dict'\<rparr>)"
    using write_raw_append[OF f3] by (simp add: r c3)
  have f4: "fits c (length (?lb @ bs))" using f3 by simp
  let ?d = "c_data (snd r)"
  have ld: "c_ptr c + 1 + length l \<le> length ?d"
    using fits_length[OF f4] length_data_write_raw[OF f4] by (simp add: r2)
  have new: "?d ! (c_ptr c + j) = ?lb ! j" if "j < length ?lb" for j
    using data_write_raw_new[OF f4, of j] that nth_append[of ?lb bs j] by (simp add: r2)
  have lim: "c_ptr c3 + length bs = c_ptr c + length (?lb @ bs)" by (simp add: ptr)
  have "{c_ptr c..<c_ptr c + 1 + length l} \<subseteq> ?A" by auto
  from wname_label_written[OF this ld l _ w[unfolded Aeq, unfolded lim, unfolded ptr]] new
  have nw: "wname ?d ?A (c_ptr c) (l # ls) (c_ptr c + length (?lb @ bs))"
    "0 < unat (?d ! c_ptr c)" "unat (?d ! c_ptr c) < 192"
    by auto
  have "c_ptr c < 16384" using f mx by (auto simp: fits_def)
  hence "dict_complete S ?d ?A \<lparr>d_pos = of_nat (c_ptr c), d_hash = dict_hash (dotted (l # ls))\<rparr>"
    using dict_complete_self[OF nw(1) v mem nw(2,3)] by simp
  hence "\<forall>it\<in>set dict'. it \<in> set (c_namedict c) \<or> dict_complete S ?d ?A it"
    using d' dict unfolding Aeq by blast
  then show ?thesis
    unfolding name_written_def using nw(1) r2 len ne
    by (intro exI[of _ "?lb @ bs"] exI[of _ dict']) (auto simp: dotted_Cons)
qed

lemma dict_ready_inner:
  assumes r: "dict_ready S A c (l # ls)" and A: "A \<subseteq> {..<c_ptr c}"
    and f: "fits c (length l + 3)" and v: "valid_name (l # ls)" and ne: "ls \<noteq> []"
    and inj: "inj_on dict_hash S" and mem: "\<And>t. suffix t (l # ls) \<Longrightarrow> t \<noteq> [] \<Longrightarrow> dotted t \<in> S"
    and dict: "set dict \<subseteq> insert \<lparr>d_pos = p, d_hash = dict_hash (dotted (l # ls))\<rparr> (set (c_namedict c))"
    and c3: "c3 = (dns_write_raw c (of_nat (length l) # l))\<lparr>c_namedict := dict\<rparr>"
    and A3: "A3 = A \<union> {c_ptr c..<c_ptr c + Suc (length l)}"
  shows "dict_ready S A3 c3 ls"
  unfolding dict_ready_def
proof
  fix it assume "it \<in> set (c_namedict c3)"
  hence it: "it \<in> set dict" by (simp add: c3)
  have f2: "fits c (length (of_nat (length l) # l))" using fits_mono[OF f] by simp
  note below = write_raw_below[OF f2 A]
  show "dict_complete S (c_data c3) A3 it \<or>
     (\<forall>t. suffix t ls \<longrightarrow> t \<noteq> [] \<longrightarrow> d_hash it \<noteq> dict_hash (dotted t))"
  proof (cases "it \<in> set (c_namedict c)")
    case True
    then consider "dict_complete S (c_data c) A it"
      | "\<forall>t. suffix t (l # ls) \<longrightarrow> t \<noteq> [] \<longrightarrow> d_hash it \<noteq> dict_hash (dotted t)"
      using r by (auto simp: dict_ready_def)
    then show ?thesis
    proof cases
      case 1
      hence "dict_complete S (c_data c3) A3 it"
        by (rule dict_complete_frame) (use below in \<open>auto simp: c3 A3\<close>)
      then show ?thesis ..
    next
      case 2
      then show ?thesis by (auto simp: suffix_Cons)
    qed
  next
    case False
    hence h: "d_hash it = dict_hash (dotted (l # ls))" using it dict by auto
    have "d_hash it \<noteq> dict_hash (dotted t)" if t: "suffix t ls" "t \<noteq> []" for t
    proof
      assume "d_hash it = dict_hash (dotted t)"
      hence "dotted (l # ls) = dotted t"
        using inj_onD[OF inj] h mem[of "l # ls"] mem[of t] t by (simp add: suffix_Cons)
      thus False using length_dotted_strict_suffix[OF t(1) v] by simp
    qed
    then show ?thesis by blast
  qed
qed

lemma encode_from_cases:
  assumes f: "fits c 3" and A: "A \<subseteq> {..<c_ptr c}" and s: "s \<noteq> []"
    and comp: "\<And>it. it \<in> set (c_namedict c) \<Longrightarrow> d_hash it = dict_hash s \<Longrightarrow> dict_complete S (c_data c) A it"
  shows "(\<exists>it\<in>set (c_namedict c). d_hash it = dict_hash s \<and>
      encode_from c tot s = (tot + 1, dns_write_raw c (be16 (0xC000 OR d_pos it))))
    \<or> (\<exists>dict. set dict \<subseteq> insert \<lparr>d_pos = of_nat (c_ptr c), d_hash = dict_hash s\<rparr> (set (c_namedict c)) \<and>
         encode_from c tot s =
           dns_encode_domain_loop (c\<lparr>c_ptr := c_ptr c + 1, c_namedict := dict\<rparr>) (c_ptr c) 0 tot (-1) s)"
proof -
  let ?c1 = "c\<lparr>c_ptr := c_ptr c + 1\<rparr>"
  have ok: "ctx_ok ?c1" "A \<subseteq> {..<nat (c_maxsize ?c1)}" using f A by (auto simp: fits_def ctx_ok_def)
  have comp1: "\<And>it. it \<in> set (c_namedict ?c1) \<Longrightarrow> d_hash it = dict_hash s \<Longrightarrow> dict_complete S (c_data ?c1) A it"
    using comp by simp
  from get_offset_cases[where S = S and c = ?c1, OF ok s comp1]
  consider it where "it \<in> set (c_namedict c)" "d_hash it = dict_hash s"
      "dns_get_domain_offset ?c1 s = (int (unat (d_pos it)), ?c1)"
    | "dns_get_domain_offset ?c1 s = (-1, ?c1)"
    | "dns_get_domain_offset ?c1 s =
         (-1, ?c1\<lparr>c_namedict := c_namedict c @ [\<lparr>d_pos = of_nat (c_ptr c), d_hash = dict_hash s\<rparr>]\<rparr>)"
    by auto
  then show ?thesis
  proof cases
    case 1
    moreover from this have "unat (d_pos it) < 16384" using comp[of it] by (auto simp: dict_complete_def)
    ultimately show ?thesis
      using encode_hit[OF f _ s refl, of it tot] by (intro disjI1 bexI[of _ it]) (auto simp: encode_from_def)
  next
    case 2
    then show ?thesis by (intro disjI2 exI[of _ "c_namedict c"]) (auto simp: encode_from_def)
  next
    case 3
    then show ?thesis
      by (intro disjI2 exI[of _ "c_namedict c @ [\<lparr>d_pos = of_nat (c_ptr c), d_hash = dict_hash s\<rparr>]"])
         (auto simp: encode_from_def)
  qed
qed

lemma encode_from_written:
  assumes "valid_name ls" "ls \<noteq> []" "fits c (length (dotted ls) + 3)" "c_maxsize c \<le> 16384" "1 \<le> tot"
    and "inj_on dict_hash S" "\<And>t. suffix t ls \<Longrightarrow> t \<noteq> [] \<Longrightarrow> dotted t \<in> S" "dict_ready S A c ls"
    and "A \<subseteq> {..<c_ptr c}"
  shows "name_written S A c tot ls (encode_from c tot (dotted ls))"
  using assms
proof (induction ls arbitrary: A c tot)
  case Nil
  then show ?case by simp
next
  case (Cons l ls)
  note v = Cons.prems(1) and f = Cons.prems(3) and mx = Cons.prems(4) and inj = Cons.prems(6) and mem = Cons.prems(7)
    and ready = Cons.prems(8) and A = Cons.prems(9)
  let ?s = "dotted (l # ls)"
  let ?it = "\<lparr>d_pos = of_nat (c_ptr c), d_hash = dict_hash ?s\<rparr>"
  have s: "?s \<noteq> []" using dotted_nonempty[OF v] by simp
  have l: "46 \<notin> set l" "l \<noteq> []" using v by (auto simp: valid_name_def valid_label_def)
  have memS: "?s \<in> S" using mem[of "l # ls"] by simp
  have fl: "fits c (length l + 3)" using f by (cases ls) (auto intro: fits_mono)
  have f1: "fits c 3" using fits_mono[OF f] by simp
  have comp: "dict_complete S (c_data c) A it" if "it \<in> set (c_namedict c)" "d_hash it = dict_hash ?s" for it
    using ready that by (auto simp: dict_ready_def)
  from encode_from_cases[where S = S and c = c and s = ?s and tot = tot, OF f1 A s comp]
  consider it where "it \<in> set (c_namedict c)" "d_hash it = dict_hash ?s"
      "encode_from c tot ?s = (tot + 1, dns_write_raw c (be16 (0xC000 OR d_pos it)))"
    | dict where "set dict \<subseteq> insert ?it (set (c_namedict c))"
      "encode_from c tot ?s =
        dns_encode_domain_loop (c\<lparr>c_ptr := c_ptr c + 1, c_namedict := dict\<rparr>) (c_ptr c) 0 tot (-1) ?s"
    by blast
  then show ?case
  proof cases
    case 1
    then show ?thesis using name_written_hit[OF f1 A _ inj memS v] comp[of it] by simp
  next
    case 2
    note dict = 2(1) and enc = 2(2)
    show ?thesis
    proof (cases "ls = []")
      case True
      then show ?thesis
        using enc encode_last[OF fl l Cons.prems(5) _ refl, of "-1" dict]
          name_written_last[OF fl, of S dict A tot] v memS mx dict by simp
    next
      case ne: False
      define c3 where "c3 = (dns_write_raw c (of_nat (length l) # l))\<lparr>c_namedict := dict\<rparr>"
      define A3 where "A3 = A \<union> {c_ptr c..<c_ptr c + Suc (length l)}"
      have f3: "fits c3 (length (dotted ls) + 3)"
        using fits_write_raw[of c "of_nat (length l) # l" "length (dotted ls) + 3"] f ne
        by (auto simp: c3_def dotted_Cons fits_def ctx_ok_def)
      have "encode_from c tot ?s = encode_from c3 (tot + int (length l) + 1) (dotted ls)"
        using encode_inner[OF fl l(1) _ refl, of "-1" dict tot "dotted ls"] ne enc
        by (simp add: dotted_Cons c3_def)
      moreover have "name_written S A3 c3 (tot + int (length l) + 1) ls
          (encode_from c3 (tot + int (length l) + 1) (dotted ls))"
      proof (rule Cons.IH[OF _ ne f3 _ _ inj])
        show "c_maxsize c3 \<le> 16384" using mx by (simp add: c3_def dns_write_raw_def write_bytes_def)
        show "dict_ready S A3 c3 ls" by (rule dict_ready_inner[OF ready A fl v ne inj mem dict c3_def A3_def])
        show "A3 \<subseteq> {..<c_ptr c3}" using A by (auto simp: A3_def c3_def dns_write_raw_def write_bytes_def)
      qed (use valid_name_Cons[OF v] Cons.prems(5) mem in \<open>auto simp: suffix_Cons\<close>)
      ultimately show ?thesis
        using name_written_inner[OF f v ne memS mx dict c3_def A3_def] by simp
    qed
  qed
qed

section \<open>A name, and a sequence of names, through a packet\<close>

text \<open>Every item of the dictionary names a suffix that is in the buffer, at the positions \<open>A\<close>.\<close>

definition dict_ok :: "bytes set \<Rightarrow> nat set \<Rightarrow> dns_context \<Rightarrow> bool" where
  "dict_ok S A c \<longleftrightarrow> A \<subseteq> {..<c_ptr c} \<and> (\<forall>it\<in>set (c_namedict c). dict_complete S (c_data c) A it)"

text \<open>The texts of the suffixes of a name, which the dictionary tells apart by their hash.\<close>

definition suffix_texts :: "bytes list \<Rightarrow> bytes set" where
  "suffix_texts ls = dotted ` {t \<in> set (suffixes ls). t \<noteq> []}"

lemma suffix_texts_mem: "suffix t ls \<Longrightarrow> t \<noteq> [] \<Longrightarrow> dotted t \<in> suffix_texts ls"
  by (auto simp: suffix_texts_def)

lemma encode_domain_root:
  assumes "fits c 2"
  shows "dns_encode_domain c [] = (1, dns_write_raw c [0])"
  using assms
  by (auto simp: dns_encode_domain_def dns_get_domain_offset_def dns_encode_domain_end_def dns_write_raw_def
      write_bytes_def fits_def ctx_ok_def dns_left_len_def Let_def)

lemma write_raw_sel [simp]:
  "c_ptr (dns_write_raw c bs) = c_ptr c + length bs" "c_maxsize (dns_write_raw c bs) = c_maxsize c"
  by (simp_all add: dns_write_raw_def write_bytes_def)

lemma encode_domain_name_written:
  assumes v: "valid_name ls" and ne: "ls \<noteq> []" and f: "fits c (length (dotted ls) + 3)" and mx: "c_maxsize c \<le> 16384"
    and inj: "inj_on dict_hash S" and mem: "suffix_texts ls \<subseteq> S" and ok: "dict_ok S A c"
  shows "name_written S A c 1 ls (dns_encode_domain c (dotted ls))"
proof -
  have "dict_ready S A c ls" "A \<subseteq> {..<c_ptr c}" using ok by (auto simp: dict_ok_def dict_ready_def)
  from encode_from_written[OF v ne f mx _ inj _ this, of 1] mem suffix_texts_mem
  show ?thesis by (auto simp: encode_domain_from)
qed

text \<open>Old items of the dictionary stay complete when bytes are written behind the names.\<close>

lemma dict_ok_write:
  assumes "dict_ok S A c" "fits c (length bs)" "A' = A \<union> {c_ptr c..<c_ptr c + n}" "n \<le> length bs"
    "\<forall>it\<in>set dict. it \<in> set (c_namedict c) \<or> dict_complete S (c_data (dns_write_raw c bs)) A' it"
  shows "dict_ok S A' ((dns_write_raw c bs)\<lparr>c_namedict := dict\<rparr>)"
proof -
  have A: "A \<subseteq> {..<c_ptr c}" using assms(1) by (simp add: dict_ok_def)
  note below = write_raw_below[OF assms(2) A]
  have "dict_complete S (c_data (dns_write_raw c bs)) A' it" if "it \<in> set (c_namedict c)" for it
    using assms(1) that below by (auto simp: dict_ok_def assms(3) intro: dict_complete_frame)
  then show ?thesis using assms(3-5) A by (auto simp: dict_ok_def)
qed

lemma encode_domain_written:
  assumes v: "valid_name ls" and f: "fits c (length (dotted ls) + 3)" and mx: "c_maxsize c \<le> 16384"
    and inj: "inj_on dict_hash S" and mem: "suffix_texts ls \<subseteq> S" and ok: "dict_ok S A c"
  shows "\<exists>bs dict. dns_encode_domain c (dotted ls) =
       (int (length bs), (dns_write_raw c bs)\<lparr>c_namedict := dict\<rparr>) \<and>
     0 < length bs \<and> length bs \<le> length (dotted ls) + 2 \<and>
     wname (c_data (dns_write_raw c bs)) (A \<union> {c_ptr c..<c_ptr c + length bs}) (c_ptr c) ls (c_ptr c + length bs) \<and>
     dict_ok S (A \<union> {c_ptr c..<c_ptr c + length bs}) ((dns_write_raw c bs)\<lparr>c_namedict := dict\<rparr>)"
proof (cases "ls = []")
  case True
  have f1: "fits c (length [0 :: u8])" using fits_mono[OF f] by simp
  have "wname (c_data (dns_write_raw c [0])) (A \<union> {c_ptr c..<c_ptr c + length [0 :: u8]}) (c_ptr c) [] (Suc (c_ptr c))"
    using data_write_raw_new[OF f1, of 0] by (intro wname.root) auto
  moreover have "dict_ok S (A \<union> {c_ptr c..<c_ptr c + length [0 :: u8]}) ((dns_write_raw c [0])\<lparr>c_namedict := c_namedict c\<rparr>)"
    by (rule dict_ok_write[OF ok f1 refl]) auto
  ultimately show ?thesis
    using True encode_domain_root[OF fits_mono[OF f]]
    by (intro exI[of _ "[0]"] exI[of _ "c_namedict c"]) (auto simp: write_raw_eq[OF f1])
next
  case False
  from encode_domain_name_written[OF v False f mx inj mem ok] obtain bs dict where
    r: "dns_encode_domain c (dotted ls) = (int (length bs), (dns_write_raw c bs)\<lparr>c_namedict := dict\<rparr>)"
    and l: "2 \<le> length bs" "length bs \<le> length (dotted ls) + 2"
    and w: "wname (c_data (dns_write_raw c bs)) (A \<union> {c_ptr c..<c_ptr c + length bs}) (c_ptr c) ls (c_ptr c + length bs)"
    and d: "\<forall>it\<in>set dict. it \<in> set (c_namedict c) \<or>
       dict_complete S (c_data (dns_write_raw c bs)) (A \<union> {c_ptr c..<c_ptr c + length bs}) it"
    by (auto simp: name_written_def)
  have fb: "fits c (length bs)" using l fits_mono[OF f] by simp
  show ?thesis
    using r l w dict_ok_write[OF ok fb refl _ d] by (intro exI[of _ bs] exI[of _ dict]) auto
qed

lemma decode_domain_wname:
  assumes w: "wname (c_data c) A (c_ptr c) ls e" and A: "A \<subseteq> {..<nat (c_maxsize c)}"
    and ok: "ctx_ok c" and v: "valid_name ls" and sz: "256 \<le> bufsize"
  shows "dns_decode_domain c bufsize = (0, dotted ls, c\<lparr>c_ptr := e\<rparr>)"
  using decode_wname[OF w A, of "[]" bufsize 0 "c_ptr c" False] ok v sz zero_notin_dotted[OF v]
  by (auto simp: dns_decode_domain_def dns_get_domain_from_packet_def ctx_ok_def out_of_def valid_name_def)

text \<open>Names written one after the other, and read back the same way.\<close>

fun encode_names :: "dns_context \<Rightarrow> cstring list \<Rightarrow> int \<times> dns_context" where
  "encode_names c [] = (0, c)"
| "encode_names c (s # ss) =
     (let (ret, c) = dns_encode_domain c s in if ret < 0 then (-1, c) else encode_names c ss)"

fun decode_names :: "dns_context \<Rightarrow> nat \<Rightarrow> int \<times> cstring list \<times> dns_context" where
  "decode_names c 0 = (0, [], c)"
| "decode_names c (Suc n) =
     (let (ret, s, c) = dns_decode_domain c DNS_MAX_CNAME_LEN in
      if ret < 0 then (-1, [], c)
      else let (ret, ss, c) = decode_names c n in (ret, s # ss, c))"

definition names_len :: "bytes list list \<Rightarrow> nat" where
  "names_len nss = sum_list (map (\<lambda>ls. length (dotted ls) + 2) nss)"

text \<open>The names \<open>nss\<close> lie one after the other from \<open>pos\<close> to \<open>e\<close>.\<close>

fun wnames :: "bytes \<Rightarrow> nat set \<Rightarrow> nat \<Rightarrow> bytes list list \<Rightarrow> nat \<Rightarrow> bool" where
  "wnames d A pos [] e \<longleftrightarrow> pos = e"
| "wnames d A pos (ls # nss) e \<longleftrightarrow> (\<exists>q. wname d A pos ls q \<and> wnames d A q nss e)"

lemma decode_names_wnames:
  assumes "wnames (c_data c) A (c_ptr c) nss e" "A \<subseteq> {..<nat (c_maxsize c)}" "ctx_ok c" "\<forall>ls\<in>set nss. valid_name ls"
  shows "decode_names c (length nss) = (0, map dotted nss, c\<lparr>c_ptr := e\<rparr>)"
  using assms
proof (induction nss arbitrary: c)
  case (Cons ls nss)
  then obtain q where q: "wname (c_data c) A (c_ptr c) ls q" "wnames (c_data c) A q nss e" by auto
  have "dns_decode_domain c DNS_MAX_CNAME_LEN = (0, dotted ls, c\<lparr>c_ptr := q\<rparr>)"
    using decode_domain_wname[OF q(1) Cons.prems(2,3), of 256] Cons.prems(4) by simp
  moreover have "ctx_ok (c\<lparr>c_ptr := q\<rparr>)" using Cons.prems(3) by (simp add: ctx_ok_def)
  ultimately show ?case using Cons.IH[of "c\<lparr>c_ptr := q\<rparr>"] q Cons.prems by simp
qed simp

lemma wname_enc_frame:
  assumes w: "wname (c_data c1) {..<c_ptr c1} pos ls e" and f: "enc_frame (c_ptr c1) c1 c'"
    and l: "c_ptr c1 \<le> length (c_data c1)"
  shows "wname (c_data c') {..<c_ptr c'} pos ls e"
  using f l by (intro wname_frame[OF w]) (auto simp: enc_frame_def)

lemma encode_names_written:
  assumes "\<forall>ls\<in>set nss. valid_name ls \<and> suffix_texts ls \<subseteq> S" "fits c (names_len nss + 1)" "c_maxsize c \<le> 16384"
    "inj_on dict_hash S" "dict_ok S {..<c_ptr c} c"
  shows "\<exists>c'. encode_names c (map dotted nss) = (0, c') \<and> enc_frame (c_ptr c) c c' \<and> int (c_ptr c') \<le> c_maxsize c \<and>
     wnames (c_data c') {..<c_ptr c'} (c_ptr c) nss (c_ptr c')"
  using assms
proof (induction nss arbitrary: c)
  case Nil
  then show ?case by (auto simp: fits_def)
next
  case (Cons ls nss)
  have v: "valid_name ls" and mem: "suffix_texts ls \<subseteq> S" using Cons.prems(1) by auto
  have fl: "fits c (length (dotted ls) + 3)" using fits_mono[OF Cons.prems(2)] by (simp add: names_len_def)
  have A: "{..<p} \<union> {p..<p + n} = {..<p + n}" for p n :: nat by auto
  from encode_domain_written[OF v fl Cons.prems(3,4) mem Cons.prems(5)]
  obtain bs dict where r: "dns_encode_domain c (dotted ls) = (int (length bs), (dns_write_raw c bs)\<lparr>c_namedict := dict\<rparr>)"
    and l: "0 < length bs" "length bs \<le> length (dotted ls) + 2"
    and w: "wname (c_data (dns_write_raw c bs)) {..<c_ptr c + length bs} (c_ptr c) ls (c_ptr c + length bs)"
    and d: "dict_ok S {..<c_ptr c + length bs} ((dns_write_raw c bs)\<lparr>c_namedict := dict\<rparr>)"
    unfolding A by blast
  define c1 where "c1 = (dns_write_raw c bs)\<lparr>c_namedict := dict\<rparr>"
  have fb: "fits c (length bs + (names_len nss + 1))"
    using l(2) fits_mono[OF Cons.prems(2)] by (simp add: names_len_def)
  note fb' = fits_mono[OF fb, of "length bs", simplified]
  have f1: "fits c1 (names_len nss + 1)"
    using fits_write_raw[OF fb] by (auto simp: c1_def fits_def ctx_ok_def)
  have m1: "c_maxsize c1 = c_maxsize c" "c_ptr c1 = c_ptr c + length bs" "length (c_data c1) = length (c_data c)"
    and f0: "enc_frame (c_ptr c) c c1"
    using length_data_write_raw[OF fb'] data_write_raw_old[OF fb'] write_raw_eq[OF fb']
    by (auto simp: c1_def enc_frame_def)
  have "c_maxsize c1 \<le> 16384" "dict_ok S {..<c_ptr c1} c1" using m1 d Cons.prems(3) by (simp_all add: c1_def)
  from Cons.IH[OF _ f1 this(1) Cons.prems(4) this(2)] Cons.prems(1) obtain c' where
    c': "encode_names c1 (map dotted nss) = (0, c')" "enc_frame (c_ptr c1) c1 c'" "int (c_ptr c') \<le> c_maxsize c1"
    "wnames (c_data c') {..<c_ptr c'} (c_ptr c1) nss (c_ptr c')"
    by auto
  have "wname (c_data c1) {..<c_ptr c1} (c_ptr c) ls (c_ptr c1)" using w m1 by (simp add: c1_def)
  from wname_enc_frame[OF this c'(2)] have "wname (c_data c') {..<c_ptr c'} (c_ptr c) ls (c_ptr c1)"
    using fits_length[OF fb'] m1 by simp
  moreover have "enc_frame (c_ptr c) c c'" using enc_frame_trans[OF f0] enc_frame_mono[OF c'(2)] m1(2) by simp
  ultimately show ?case using c' m1 r by (auto simp: c1_def)
qed

lemma encode_decode_names:
  assumes v: "\<forall>ls\<in>set nss. valid_name ls" and f: "fits c (names_len nss + 1)" and mx: "c_maxsize c \<le> 16384"
    and inj: "inj_on dict_hash (\<Union>ls\<in>set nss. suffix_texts ls)" and dict: "c_namedict c = []"
  shows "\<exists>c'. encode_names c (map dotted nss) = (0, c') \<and>
     decode_names (c'\<lparr>c_ptr := c_ptr c\<rparr>) (length nss) = (0, map dotted nss, c')"
proof -
  have "\<forall>ls\<in>set nss. valid_name ls \<and> suffix_texts ls \<subseteq> (\<Union>ls\<in>set nss. suffix_texts ls)" using v by auto
  moreover have "dict_ok (\<Union>ls\<in>set nss. suffix_texts ls) {..<c_ptr c} c" using dict by (simp add: dict_ok_def)
  ultimately obtain c' where c': "encode_names c (map dotted nss) = (0, c')" "enc_frame (c_ptr c) c c'"
    "int (c_ptr c') \<le> c_maxsize c" "wnames (c_data c') {..<c_ptr c'} (c_ptr c) nss (c_ptr c')"
    using encode_names_written[OF _ f mx inj] by blast
  have "ctx_ok (c'\<lparr>c_ptr := c_ptr c\<rparr>)" using f c'(2) by (auto simp: fits_def ctx_ok_def enc_frame_def)
  moreover have "{..<c_ptr c'} \<subseteq> {..<nat (c_maxsize c')}" using c'(2,3) by (auto simp: enc_frame_def)
  ultimately show ?thesis
    using c'(1,4) decode_names_wnames[of "c'\<lparr>c_ptr := c_ptr c\<rparr>" "{..<c_ptr c'}" nss "c_ptr c'"] v by auto
qed

section \<open>Properties\<close>

text \<open>
  C2: names survive the wire. A list of names written one after the other with \<^verbatim>\<open>_dns_encode_domain\<close>,
  which compresses each name against all the earlier ones, is read back by \<^verbatim>\<open>_dns_decode_domain\<close> as
  the same list, and the reader stops where the writer stopped. Hypotheses: every label is not empty, shorter than 192 bytes
  and without a dot or a NUL, and every name has less than 255 characters; the buffer has room for all names uncompressed; it has at most 16384 bytes,
  the reach of a compression pointer; the dictionary is empty at the start; and, since the code tells suffixes
  apart by a 32-bit hash only, all suffixes of all the names have distinct hashes.
\<close>

theorem names_roundtrip:
  assumes "\<forall>ls\<in>set nss. valid_name ls" "fits c (names_len nss + 1)" "c_maxsize c \<le> 16384"
    and "inj_on dict_hash (\<Union>ls\<in>set nss. suffix_texts ls)" "c_namedict c = []"
  shows "\<exists>c'. encode_names c (map dotted nss) = (0, c') \<and>
     decode_names (c'\<lparr>c_ptr := c_ptr c\<rparr>) (length nss) = (0, map dotted nss, c')"
  using assms by (rule encode_decode_names)

text \<open>Two names that share a suffix.\<close>

definition sample_names :: "bytes list list" where
  "sample_names = [[[119], [97], [99]], [[98], [97], [99]]]"

definition sample_context :: dns_context where
  "sample_context = \<lparr>c_data = replicate 64 0, c_maxsize = 64, c_ptr = 12, c_namedict = [], c_fault = False\<rparr>"

lemma suffix_texts_simps:
  "suffix_texts [] = {}" "suffix_texts (l # ls) = insert (dotted (l # ls)) (suffix_texts ls)"
  by (auto simp: suffix_texts_def suffix_Cons)

lemma sample_names_hash: "inj_on dict_hash (\<Union>ls\<in>set sample_names. suffix_texts ls)"
proof -
  define ts :: "bytes list" where "ts = [[119, 46, 97, 46, 99], [98, 46, 97, 46, 99], [97, 46, 99], [99]]"
  have "distinct (map dict_hash ts)" unfolding ts_def by code_simp
  then have "inj_on dict_hash (set ts)" by (simp add: distinct_map)
  then show ?thesis by (rule inj_on_subset) (simp add: sample_names_def suffix_texts_simps ts_def)
qed

theorem names_roundtrip_witness:
  "\<exists>c'. encode_names sample_context [[119, 46, 97, 46, 99], [98, 46, 97, 46, 99]] = (0, c') \<and>
     decode_names (c'\<lparr>c_ptr := 12\<rparr>) (Suc (Suc 0)) = (0, [[119, 46, 97, 46, 99], [98, 46, 97, 46, 99]], c')"
  using names_roundtrip[OF _ _ _ sample_names_hash, of sample_context]
  by (simp add: sample_names_def sample_context_def valid_name_def valid_label_def fits_def ctx_ok_def names_len_def
      del: encode_names.simps decode_names.simps)

text \<open>
  C12: \<^verbatim>\<open>_dns_get_domain_from_packet\<close> ends on every packet, also on one whose compression pointers form
  a loop, reads only the packet's first \<open>psize\<close> bytes, writes at most \<open>bufsize\<close> bytes to the output,
  and on success leaves a NUL-terminated string there and the pointer inside the packet.
\<close>

theorem get_domain_safe:
  assumes "psize \<le> int (length packet)"
  shows "case dns_get_domain_from_packet packet psize p bufsize of (ret, out, q, bad) \<Rightarrow>
     \<not> bad \<and> int (length out) \<le> max 0 bufsize \<and> (ret = 0 \<or> ret = -1) \<and>
     (ret = 0 \<longrightarrow> int q \<le> psize \<and> out \<noteq> [] \<and> last out = 0)"
  using get_domain_from_packet_safe[OF assms] by (simp add: loop_post_def)

text \<open>A pointer to itself.\<close>

theorem get_domain_safe_witness:
  "fst (dns_get_domain_from_packet [0xC0, 0] 2 0 256) = -1 \<and>
   \<not> snd (snd (snd (dns_get_domain_from_packet [0xC0, 0] 2 0 256)))"
proof -
  have "fst (dns_get_domain_from_packet [0xC0, 0] 2 0 256) = -1" by code_simp
  then show ?thesis using get_domain_safe[of 2 "[0xC0, 0]" 256 0] by (auto split: prod.splits)
qed

text \<open>
  C13: \<^verbatim>\<open>_dns_encode_domain\<close> writes only behind the context's pointer and inside its buffer, whatever
  the string and the dictionary are. It returns -1 or the number of bytes by which the pointer moved,
  and in the second case the pointer is still inside the buffer.
\<close>

theorem encode_domain_safe:
  assumes "ctx_ok c" "dns_encode_domain c s = (ret, c')"
  shows "c_fault c' = c_fault c \<and> length (c_data c') = length (c_data c) \<and> (\<forall>i<c_ptr c. c_data c' ! i = c_data c ! i) \<and>
     (ret = -1 \<or> ret = int (c_ptr c') - int (c_ptr c) \<and> c_ptr c \<le> c_ptr c' \<and> int (c_ptr c') \<le> c_maxsize c)"
  using encode_domain_post[OF assms(1), of s] assms(2) by (auto simp: enc_post_def enc_frame_def)

theorem encode_domain_safe_witness:
  "\<exists>c'. dns_encode_domain sample_context [97, 46, 98] = (5, c') \<and> c_ptr c' = 17 \<and> \<not> c_fault c'"
proof -
  obtain ret c' where e: "dns_encode_domain sample_context [97, 46, 98] = (ret, c')" by fastforce
  have "fst (dns_encode_domain sample_context [97, 46, 98]) = 5" by code_simp
  then show ?thesis using encode_domain_safe[OF _ e] e by (auto simp: sample_context_def ctx_ok_def)
qed

end
