(* ===== verification/Dns_Adders.thy ===== *)
theory Dns_Adders
  imports Dns_Record Dns_Name_Encode
begin

text \<open>
  What the functions that add a complete record to a packet promise: they keep the packet's lists, stay inside
  the packet, and either fail or append exactly one record. \<open>packet_adder\<close> states the contract
  for one adder and is interpreted for eight of them; A and AAAA records and the client subnet option keep it
  under a condition on the length of the address they are given, and have lemmas of the same form.
\<close>

section \<open>Packets and contexts on them\<close>

text \<open>A packet that holds the records \<open>rs\<close>, with room for what its size says.\<close>

definition packet_wf :: "dns_packet \<Rightarrow> rr_item list \<Rightarrow> bool" where
  "packet_wf p rs \<longleftrightarrow> rep p rs \<and> \<not> p_fault p \<and> p_size p - SIZEOF_DNS_PACKET \<le> int (length (p_data p))"

text \<open>What an operation on a packet that adds at most one record may do.\<close>

definition grows :: "dns_packet \<Rightarrow> rr_item list \<Rightarrow> rr_item list \<Rightarrow> dns_packet \<Rightarrow> bool" where
  "grows p rs rs' q \<longleftrightarrow> packet_wf q rs' \<and> p_size q = p_size p \<and> length (p_data q) = length (p_data p) \<and>
     p_base q = p_base p \<and> (\<forall>S. counts p rs S \<longrightarrow> counts q rs' S)"

lemma packet_context_ok: "packet_wf p rs \<Longrightarrow> ctx_ok (packet_context p)"
  by (auto simp: packet_wf_def ctx_ok_def packet_context_def)

lemma packet_context_sel [simp]:
  "c_ptr (packet_context p) = p_len p + 16" "c_data (packet_context p) = p_data p"
  "c_fault (packet_context p) = p_fault p" "c_maxsize (packet_context p) = p_size p - SIZEOF_DNS_PACKET"
  "c_namedict (packet_context p) = p_namedict p"
  by (simp_all add: packet_context_def)

lemma counts_cong: "(\<And>s. rrs_count q s = rrs_count p s) \<Longrightarrow> counts q rs S = counts p rs S"
  by (simp add: counts_def)

lemma packet_of_context_sel [simp]:
  "rrs_count (packet_of_context p c) s = rrs_count p s" "rrs_first (packet_of_context p c) s = rrs_first p s"
  "p_len (packet_of_context p c) = p_len p" "p_size (packet_of_context p c) = p_size p"
  "p_base (packet_of_context p c) = p_base p" "p_data (packet_of_context p c) = c_data c"
  "p_fault (packet_of_context p c) = c_fault c" "p_namedict (packet_of_context p c) = c_namedict c"
  by (simp_all add: packet_of_context_def)

lemma enc_frame_packet:
  assumes wf: "packet_wf p rs" and f: "enc_frame (p_len p + 16) c0 c"
    and c0: "c_data c0 = p_data p" "c_fault c0 = p_fault p"
  shows "grows p rs rs (packet_of_context p c)"
proof -
  have l: "length (c_data c) = length (p_data p)" and d: "\<And>i. i < p_len p \<Longrightarrow> c_data c ! i = p_data p ! i"
    and b: "c_fault c = p_fault p"
    using f c0 by (simp_all add: enc_frame_def)
  have r: "laid (p_data p) 0 rs" "p_len p = total_size rs" using wf by (simp_all add: packet_wf_def rep_def)
  have "laid (c_data c) 0 rs" by (rule laid_frame[OF r(1) l]) (simp add: d r(2))
  then show ?thesis
    using wf l b counts_cong[of "packet_of_context p c" p rs] by (simp add: grows_def packet_wf_def rep_def)
qed

lemma write_char_raw: "dns_write_char c v = dns_write_raw c [v]"
  by (simp add: dns_write_char_def dns_write_raw_def)

lemma write_short_raw: "dns_write_short c v = dns_write_raw c (be16 v)"
  by (simp add: dns_write_short_def dns_write_raw_def)

lemma write_int_raw: "dns_write_int c v = dns_write_raw c (be32 v)"
  by (simp add: dns_write_int_def dns_write_raw_def)

lemmas write_raws = write_char_raw write_short_raw write_int_raw

lemma write_raw_frame:
  "fits c (length bs) \<Longrightarrow> lo \<le> c_ptr c \<Longrightarrow> enc_frame lo c (dns_write_raw c bs)"
  by (simp add: enc_frame_def data_write_raw_old length_data_write_raw) (simp add: write_raw_eq)

lemma fits_left: "ctx_ok c \<Longrightarrow> int n \<le> dns_left_len c \<Longrightarrow> fits c n"
  by (simp add: fits_def dns_left_len_def)

lemma enc_post_write:
  assumes post: "enc_post lo c base (ret, c1)" and ok: "ctx_ok c" and lo: "lo \<le> c_ptr c"
    and ret: "ret \<noteq> -1" and left: "int (length bs) \<le> dns_left_len c1"
  shows "enc_post lo c base (ret + int (length bs), dns_write_raw c1 bs)"
proof -
  have f: "enc_frame lo c c1" using post by (simp add: enc_post_def)
  have "fits c1 (length bs)" using enc_frame_ctx_ok[OF f ok] left by (rule fits_left)
  then have "enc_frame lo c1 (dns_write_raw c1 bs)"
    using f lo by (intro write_raw_frame) (auto simp: enc_frame_def)
  with f have "enc_frame lo c (dns_write_raw c1 bs)" by (rule enc_frame_trans)
  then show ?thesis using post ret left f by (auto simp: enc_post_def dns_left_len_def enc_frame_def)
qed

lemma enc_post_fail: "enc_post lo c base (r, c1) \<Longrightarrow> enc_post lo c base (-1, c1)"
  by (simp add: enc_post_def)

lemma add_qr_head_post:
  assumes ok: "ctx_ok c"
  shows "enc_post (c_ptr c) c 0 (dns_add_qr_head c domain qtype qclass)"
proof -
  obtain ret c1 where e: "dns_encode_domain c domain = (ret, c1)" by fastforce
  have post: "enc_post (c_ptr c) c 0 (ret, c1)" using encode_domain_post[OF ok, of domain] by (simp add: e)
  show ?thesis
  proof (cases "ret < 0 \<or> dns_left_len c1 < 4")
    case True
    then show ?thesis using enc_post_fail[OF post] by (auto simp: dns_add_qr_head_def e)
  next
    case False
    have f: "fits c1 4" using enc_frame_ctx_ok[of "c_ptr c" c c1] post ok False by (intro fits_left) (auto simp: enc_post_def)
    have "dns_write_short (dns_write_short c1 (of_int qtype)) (of_int qclass) =
        dns_write_raw c1 (be16 (of_int qtype) @ be16 (of_int qclass))"
      using f by (simp add: write_raws write_raw_append)
    then show ?thesis
      using enc_post_write[OF post ok _ _ , of "be16 (of_int qtype) @ be16 (of_int qclass)"] False
      by (auto simp: dns_add_qr_head_def e)
  qed
qed

lemma add_rr_head_post:
  assumes ok: "ctx_ok c"
  shows "enc_post (c_ptr c) c 0 (dns_add_rr_head c domain qtype qclass ttl rr_len)"
proof -
  obtain ret c1 where e: "dns_add_qr_head c domain qtype qclass = (ret, c1)" by fastforce
  have post: "enc_post (c_ptr c) c 0 (ret, c1)" using add_qr_head_post[OF ok, of domain qtype qclass] by (simp add: e)
  show ?thesis
  proof (cases "ret < 0 \<or> dns_left_len c1 < 6")
    case True
    then show ?thesis using enc_post_fail[OF post] by (auto simp: dns_add_rr_head_def e)
  next
    case False
    have f: "fits c1 6" using enc_frame_ctx_ok[of "c_ptr c" c c1] post ok False by (intro fits_left) (auto simp: enc_post_def)
    have "dns_write_short (dns_write_int c1 ttl) (of_int rr_len) = dns_write_raw c1 (be32 ttl @ be16 (of_int rr_len))"
      using f by (simp add: write_raws write_raw_append)
    then show ?thesis
      using enc_post_write[OF post ok _ _ , of "be32 ttl @ be16 (of_int rr_len)"] False
      by (auto simp: dns_add_rr_head_def e)
  qed
qed

section \<open>The contract of an adder\<close>

definition adds :: "dns_rr_type \<Rightarrow> dns_packet \<Rightarrow> rr_item list \<Rightarrow> int \<times> dns_packet \<Rightarrow> bool" where
  "adds s p rs res \<longleftrightarrow>
     (fst res = -1 \<and> grows p rs rs (snd res)) \<or>
     (fst res = 0 \<and> (\<exists>r. i_sec r = s \<and> grows p rs (rs @ [r]) (snd res)))"

lemma grows_refl: "packet_wf p rs \<Longrightarrow> grows p rs rs p"
  by (simp add: grows_def)

lemma grows_trans: "grows p rs rs' q \<Longrightarrow> grows q rs' rs'' u \<Longrightarrow> grows p rs rs'' u"
  by (simp add: grows_def)

lemma grows_wf: "grows p rs rs' q \<Longrightarrow> packet_wf q rs'"
  by (simp add: grows_def)

lemma adds_fail: "grows p rs rs q \<Longrightarrow> adds s p rs (-1, q)"
  by (simp add: adds_def)

lemma adds_trans: "grows p rs rs q \<Longrightarrow> adds s q rs res \<Longrightarrow> adds s p rs res"
  by (auto simp: adds_def intro: grows_trans)

lemma rr_add_end_adds:
  assumes wf: "packet_wf p rs"
  shows "adds s p rs (dns_rr_add_end p s t (int n))"
proof (cases "p_size p - SIZEOF_DNS_PACKET - 16 < int (p_len p) + int n \<or> s = DNS_RRS_END")
  case True
  then show ?thesis using wf by (auto simp: dns_rr_add_end_link intro: adds_fail grows_refl)
next
  case False
  have w: "rep p rs" "p_size p - SIZEOF_DNS_PACKET \<le> int (length (p_data p))" "\<not> p_fault p"
    using wf by (auto simp: packet_wf_def)
  have fit: "int (p_len p + 16 + n) \<le> p_size p - SIZEOF_DNS_PACKET" and s: "s \<noteq> DNS_RRS_END" using False by auto
  define r where "r = \<lparr>i_sec = s, i_type = t, i_data = sub_bytes (p_data p) (p_len p + 16) n\<rparr>"
  obtain q where q: "dns_rr_add_end p s t (int n) = (0, q)" "rep q (rs @ [r])" "p_fault q = p_fault p"
    "p_size q = p_size p" "length (p_data q) = length (p_data p)" "p_base q = p_base p"
    "\<forall>S. counts p rs S \<longrightarrow> counts q (rs @ [r]) S"
    using dns_rr_add_end_rep[OF w(1) s fit w(2) r_def] by blast
  then have "grows p rs (rs @ [r]) q" using w by (simp add: grows_def packet_wf_def)
  moreover have "i_sec r = s" by (simp add: r_def)
  ultimately show ?thesis using q(1) by (auto simp: adds_def)
qed

lemma commit_adds:
  assumes wf: "packet_wf p rs" and post: "enc_post (p_len p + 16) (packet_context p) 0 (len, c)" and len: "0 \<le> len"
  shows "adds s p rs (dns_rr_add_end (packet_of_context p c) s t len)"
proof -
  have g: "grows p rs rs (packet_of_context p c)"
    using post by (intro enc_frame_packet[OF wf]) (auto simp: enc_post_def)
  have "adds s (packet_of_context p c) rs (dns_rr_add_end (packet_of_context p c) s t (int (nat len)))"
    by (rule rr_add_end_adds[OF grows_wf[OF g]])
  then show ?thesis using adds_trans[OF g] len by simp
qed

lemma post_adds_fail:
  assumes wf: "packet_wf p rs" and post: "enc_post (p_len p + 16) (packet_context p) b (len, c)"
  shows "adds s p rs (-1, packet_of_context p c)"
  using post by (intro adds_fail enc_frame_packet[OF wf]) (auto simp: enc_post_def)

lemma dns_add_RAW_adds:
  assumes wf: "packet_wf p rs" and raw: "nat raw_len \<le> length raw"
  shows "adds s p rs (dns_add_RAW p s t domain ttl raw raw_len)"
proof (cases "raw_len < 0 \<or> p_size p \<le> int (p_len p + 16)")
  case True
  then show ?thesis
    using wf by (auto simp: dns_add_RAW_def dns_add_rrs_start_def intro: adds_fail grows_refl)
next
  case False
  note ok = packet_context_ok[OF wf]
  obtain len c where h: "dns_add_rr_head (packet_context p) domain t DNS_C_IN ttl raw_len = (len, c)" by fastforce
  have post: "enc_post (p_len p + 16) (packet_context p) 0 (len, c)"
    using add_rr_head_post[OF ok, of domain t DNS_C_IN ttl raw_len] by (simp add: h)
  show ?thesis
  proof (cases "len < 0 \<or> dns_left_len c < raw_len")
    case True
    then show ?thesis
      using False post_adds_fail[OF wf post] by (auto simp: dns_add_RAW_def dns_add_rrs_start_def h)
  next
    case ok2: False
    let ?bs = "take (nat raw_len) raw"
    have lb: "int (length ?bs) = raw_len" using raw False by simp
    have "enc_post (p_len p + 16) (packet_context p) 0 (len + raw_len, dns_write_raw c ?bs)"
      using enc_post_write[OF post ok, of ?bs, unfolded lb] ok2 by simp
    from commit_adds[OF wf this, of s t] show ?thesis
      using False ok2 raw by (simp add: dns_add_RAW_def dns_add_rrs_start_def h dns_copy_def)
  qed
qed

lemma dns_add_domain_adds:
  assumes wf: "packet_wf p rs"
  shows "adds DNS_RRS_QD p rs (dns_add_domain p domain qtype qclass)"
proof (cases "p_size p \<le> int (p_len p + 16)")
  case True
  then show ?thesis
    using wf by (auto simp: dns_add_domain_def dns_add_rrs_start_def intro: adds_fail grows_refl)
next
  case False
  obtain len c where h: "dns_add_qr_head (packet_context p) domain qtype qclass = (len, c)" by fastforce
  have post: "enc_post (p_len p + 16) (packet_context p) 0 (len, c)"
    using add_qr_head_post[OF packet_context_ok[OF wf], of domain qtype qclass] by (simp add: h)
  show ?thesis
    using False post_adds_fail[OF wf post] commit_adds[OF wf post, of DNS_RRS_QD DNS_T_CNAME]
    by (auto simp: dns_add_domain_def dns_add_rrs_start_def h)
qed

locale packet_adder =
  fixes sec :: dns_rr_type and add :: "dns_packet \<Rightarrow> int \<times> dns_packet"
  assumes add_adds: "packet_wf p rs \<Longrightarrow> adds sec p rs (add p)"
begin

lemma add_wf: "packet_wf p rs \<Longrightarrow> \<exists>rs'. grows p rs rs' (snd (add p))"
  using add_adds[of p rs] by (auto simp: adds_def)

lemma add_no_fault: "packet_wf p rs \<Longrightarrow> \<not> p_fault (snd (add p))"
  using add_wf[of p rs] by (auto simp: grows_def packet_wf_def)

lemma add_result: "packet_wf p rs \<Longrightarrow> fst (add p) = -1 \<or> fst (add p) = 0"
  using add_adds[of p rs] by (auto simp: adds_def)

end

interpretation add_domain: packet_adder DNS_RRS_QD "\<lambda>p. dns_add_domain p domain qtype qclass" for domain qtype qclass
  by unfold_locales (rule dns_add_domain_adds)

interpretation add_CNAME: packet_adder type "\<lambda>p. dns_add_CNAME p type domain ttl cname" for type domain ttl cname
  by unfold_locales (auto simp: dns_add_CNAME_def strnlen_def intro!: dns_add_RAW_adds)

interpretation add_PTR: packet_adder type "\<lambda>p. dns_add_PTR p type domain ttl cname" for type domain ttl cname
  by unfold_locales (auto simp: dns_add_PTR_def strnlen_def intro!: dns_add_RAW_adds)

interpretation add_NS: packet_adder type "\<lambda>p. dns_add_NS p type domain ttl cname" for type domain ttl cname
  by unfold_locales (auto simp: dns_add_NS_def strnlen_def intro!: dns_add_RAW_adds)

interpretation add_TXT: packet_adder type "\<lambda>p. dns_add_TXT p type domain ttl str" for type domain ttl str
  by unfold_locales
     (auto simp: dns_add_TXT_def strnlen_def Let_def intro!: dns_add_RAW_adds intro: adds_fail grows_refl)

interpretation add_SOA: packet_adder type "\<lambda>p. dns_add_SOA p type domain ttl soa" for type domain ttl soa
  by unfold_locales (simp add: dns_add_SOA_def Let_def dns_add_RAW_adds)

interpretation add_SRV: packet_adder type "\<lambda>p. dns_add_SRV p type domain ttl priority weight port target"
  for type domain ttl priority weight port target
  by unfold_locales (simp add: dns_add_SRV_def Let_def dns_add_RAW_adds adds_fail grows_refl)

interpretation add_keepalive: packet_adder DNS_RRS_OPT "\<lambda>p. dns_add_OPT_TCP_KEEPALIVE p timeout" for timeout
  by unfold_locales (simp add: dns_add_OPT_TCP_KEEPALIVE_def dns_add_opt_RAW_def Let_def dns_add_RAW_adds)

lemma dns_add_A_adds:
  "packet_wf p rs \<Longrightarrow> 4 \<le> length addr \<Longrightarrow> adds s p rs (dns_add_A p s domain ttl addr)"
  by (simp add: dns_add_A_def dns_add_RAW_adds)

lemma dns_add_AAAA_adds:
  "packet_wf p rs \<Longrightarrow> 16 \<le> length addr \<Longrightarrow> adds s p rs (dns_add_AAAA p s domain ttl addr)"
  by (simp add: dns_add_AAAA_def dns_add_RAW_adds)

lemma dns_add_OPT_ECS_adds:
  "packet_wf p rs \<Longrightarrow> ecs_prefix_len (e_source_prefix ecs) \<le> length (e_addr ecs) \<Longrightarrow>
   adds DNS_RRS_OPT p rs (dns_add_OPT_ECS p ecs)"
  by (simp add: dns_add_OPT_ECS_def ecs_bytes_def dns_add_RAW_adds Let_def)

section \<open>An empty packet\<close>

definition all_sections :: "dns_rr_type set" where
  "all_sections = {DNS_RRS_QD, DNS_RRS_AN, DNS_RRS_NS, DNS_RRS_NR, DNS_RRS_OPT}"

lemma packet_init_wf:
  assumes "\<not> p_fault p" "SIZEOF_DNS_PACKET \<le> sz" "sz - SIZEOF_DNS_PACKET \<le> int (length (p_data p))" "length (p_data p) \<le> 65535"
  shows "fst (dns_packet_init p sz h) = 0" "packet_wf (snd (dns_packet_init p sz h)) []"
    "counts (snd (dns_packet_init p sz h)) [] all_sections"
  using assms
  by (auto simp: dns_packet_init_def packet_write_def packet_wf_def rep_def length_put_bytes counts_def in_sec_def
      rrs_first_def rrs_count_def link_def all_sections_def Let_def split: dns_rr_type.splits)

section \<open>Property\<close>

text \<open>
  C16: the eleven functions that add a complete question, record or option keep the packet well formed and inside
  its object: \<^verbatim>\<open>dns_add_domain\<close>, the adders of CNAME, PTR, NS, TXT, SOA, SRV, A and AAAA records and of
  the keepalive and client subnet options. On a well-formed packet each of them returns 0 and has appended one record to
  the right section, or returns -1 and has changed no record, whatever the names, strings and numbers it is given.
  Hypotheses: the addresses given to A and AAAA have 4 and 16 bytes, and the prefix of the client subnet does not
  exceed the address it is given with. SVCB and HTTPS records are built by several calls and are not among them.
\<close>

theorem adders_keep_packet:
  assumes wf: "packet_wf p rs" and addr: "length addr4 = 4" "length addr6 = 16"
    and ecs: "ecs_prefix_len (e_source_prefix ecs) \<le> length (e_addr ecs)"
  shows "list_all (\<lambda>(s, res). adds s p rs res)
    [(DNS_RRS_QD, dns_add_domain p domain qtype qclass), (s, dns_add_CNAME p s domain ttl cname),
     (s, dns_add_PTR p s domain ttl cname), (s, dns_add_NS p s domain ttl cname), (s, dns_add_TXT p s domain ttl str),
     (s, dns_add_SOA p s domain ttl soa), (s, dns_add_SRV p s domain ttl priority weight port cname),
     (s, dns_add_A p s domain ttl addr4), (s, dns_add_AAAA p s domain ttl addr6),
     (DNS_RRS_OPT, dns_add_OPT_TCP_KEEPALIVE p timeout), (DNS_RRS_OPT, dns_add_OPT_ECS p ecs)]"
  using add_domain.add_adds[OF wf] add_CNAME.add_adds[OF wf] add_PTR.add_adds[OF wf] add_NS.add_adds[OF wf]
    add_TXT.add_adds[OF wf] add_SOA.add_adds[OF wf] add_SRV.add_adds[OF wf] add_keepalive.add_adds[OF wf]
    dns_add_A_adds[OF wf] dns_add_AAAA_adds[OF wf] dns_add_OPT_ECS_adds[OF wf ecs] addr
  by simp

definition sample_ecs :: dns_opt_ecs where
  "sample_ecs = \<lparr>e_family = 1, e_source_prefix = 24, e_scope_prefix = 0, e_addr = replicate 16 0\<rparr>"

theorem adders_keep_packet_witness:
  "adds DNS_RRS_AN (snd (dns_packet_init (packet_object 64) 216 zero_head)) []
     (dns_add_A (snd (dns_packet_init (packet_object 64) 216 zero_head)) DNS_RRS_AN [97] 60 [1, 2, 3, 4])"
proof -
  have wf: "packet_wf (snd (dns_packet_init (packet_object 64) 216 zero_head)) []"
    using packet_init_wf[of "packet_object 64" 216 zero_head] by (simp add: packet_object_def)
  show ?thesis
    using adders_keep_packet[OF wf, of "[1, 2, 3, 4]" "replicate 16 0" sample_ecs]
    by (simp add: sample_ecs_def ecs_prefix_len_def)
qed

end
