(* ===== verification/Dns_Head.thy ===== *)
theory Dns_Head
  imports Dns_Encode Dns_Decode Dns_Adders
begin

text \<open>
  The packet header on the wire: the encoder writes twelve bytes from which the decoder recovers
  every field that has the width it has on the wire.
\<close>

section \<open>Ranges that hold given bytes\<close>

text \<open>The bytes of a range, given as a list.\<close>

definition at :: "bytes \<Rightarrow> nat \<Rightarrow> bytes \<Rightarrow> bool" where
  "at d i bs \<longleftrightarrow> i + length bs \<le> length d \<and> sub_bytes d i (length bs) = bs"

lemma at_nth: "at d i bs \<Longrightarrow> j < length bs \<Longrightarrow> d ! (i + j) = bs ! j"
  by (metis at_def nth_sub_bytes)

lemma at_append: "at d i (a @ b) \<longleftrightarrow> at d i a \<and> at d (i + length a) b"
  by (auto simp: at_def sub_bytes_append length_sub_bytes)

lemma at_read_short:
  "at (c_data c) (c_ptr c) (be16 w) \<Longrightarrow> dns_read_short c = (w, c\<lparr>c_ptr := c_ptr c + 2\<rparr>)"
  using at_nth[of "c_data c" "c_ptr c" "be16 w" 0] at_nth[of "c_data c" "c_ptr c" "be16 w" 1]
  by (simp add: at_def dns_read_short_ok)

lemma at_read_int:
  "at (c_data c) (c_ptr c) (be32 w) \<Longrightarrow> dns_read_int c = (w, c\<lparr>c_ptr := c_ptr c + 4\<rparr>)"
  using at_nth[of "c_data c" "c_ptr c" "be32 w" 0] at_nth[of "c_data c" "c_ptr c" "be32 w" 1]
    at_nth[of "c_data c" "c_ptr c" "be32 w" 2] at_nth[of "c_data c" "c_ptr c" "be32 w" 3]
  by (simp add: at_def dns_read_int_ok)

lemma at_read_raw:
  "at (c_data c) (c_ptr c) bs \<Longrightarrow> dns_read_raw c (length bs) = (bs, c\<lparr>c_ptr := c_ptr c + length bs\<rparr>)"
  by (simp add: at_def dns_read_raw_ok)

lemma at_write_raw: "fits c (length bs) \<Longrightarrow> at (c_data (dns_write_raw c bs)) (c_ptr c) bs"
  using fits_length[of c "length bs"] length_data_write_raw[of c bs]
  by (simp add: at_def write_raw_eq sub_bytes_put_same length_put_bytes)

lemma at_frame:
  "at d i bs \<Longrightarrow> length d' = length d \<Longrightarrow> (\<And>j. i \<le> j \<Longrightarrow> j < i + length bs \<Longrightarrow> d' ! j = d ! j) \<Longrightarrow> at d' i bs"
  using sub_bytes_cong[of i "length bs" d' d] by (simp add: at_def)

section \<open>The flags\<close>

text \<open>The sixteen flag bits as the encoder packs them.\<close>

definition head_fields :: "dns_head \<Rightarrow> u16" where
  "head_fields head = ucast ((push_bit 15 (ucast (h_qr head)) AND 0x8000) OR (push_bit 11 (ucast (h_opcode head)) AND 0x7800) OR
              (push_bit 10 (ucast (h_aa head)) AND 0x0400) OR (push_bit 9 (ucast (h_tc head)) AND 0x0200) OR
              (push_bit 8 (ucast (h_rd head)) AND 0x0100) OR (push_bit 7 (ucast (h_ra head)) AND 0x0080) OR
              (push_bit 6 (ucast (h_z head)) AND 0x0040) OR (push_bit 5 (ucast (h_ad head)) AND 0x0020) OR
              (push_bit 4 (ucast (h_cd head)) AND 0x0010) OR (ucast (h_rcode head) AND 0x000F) :: u32)"

lemma head_bits:
  "bit (head_fields h) 15 = bit (h_qr h) 0"
  "bit (head_fields h) 11 = bit (h_opcode h) 0"
  "bit (head_fields h) 12 = bit (h_opcode h) 1"
  "bit (head_fields h) 13 = bit (h_opcode h) 2"
  "bit (head_fields h) 14 = bit (h_opcode h) 3"
  "bit (head_fields h) 10 = bit (h_aa h) 0"
  "bit (head_fields h) 9 = bit (h_tc h) 0"
  "bit (head_fields h) 8 = bit (h_rd h) 0"
  "bit (head_fields h) 7 = bit (h_ra h) 0"
  "bit (head_fields h) 6 = bit (h_z h) 0"
  "bit (head_fields h) 5 = bit (h_ad h) 0"
  "bit (head_fields h) 4 = bit (h_cd h) 0"
  "bit (head_fields h) 0 = bit (h_rcode h) 0"
  "bit (head_fields h) 1 = bit (h_rcode h) 1"
  "bit (head_fields h) 2 = bit (h_rcode h) 2"
  "bit (head_fields h) 3 = bit (h_rcode h) 3"
  by (simp_all add: head_fields_def bit_simps)

lemma u16_eqI:
  fixes a b :: u16
  assumes "bit a 0 = bit b 0 \<and> bit a 1 = bit b 1 \<and> bit a 2 = bit b 2 \<and> bit a 3 = bit b 3 \<and>
    bit a 4 = bit b 4 \<and> bit a 5 = bit b 5 \<and> bit a 6 = bit b 6 \<and> bit a 7 = bit b 7 \<and>
    bit a 8 = bit b 8 \<and> bit a 9 = bit b 9 \<and> bit a 10 = bit b 10 \<and> bit a 11 = bit b 11 \<and>
    bit a 12 = bit b 12 \<and> bit a 13 = bit b 13 \<and> bit a 14 = bit b 14 \<and> bit a 15 = bit b 15"
  shows "a = b"
proof (rule bit_word_eqI)
  fix n assume "n < LENGTH(16)"
  then have "n < 16" by simp
  then have "n \<in> {0, 1, 2, 3, 4, 5, 6, 7, 8, 9, 10, 11, 12, 13, 14, 15}" by (simp, presburger)
  then show "bit a n = bit b n" using assms by (elim insertE) auto
qed

lemma u8_eqI:
  fixes a b :: u8
  assumes "bit a 0 = bit b 0 \<and> bit a 1 = bit b 1 \<and> bit a 2 = bit b 2 \<and> bit a 3 = bit b 3 \<and>
    bit a 4 = bit b 4 \<and> bit a 5 = bit b 5 \<and> bit a 6 = bit b 6 \<and> bit a 7 = bit b 7"
  shows "a = b"
proof (rule bit_word_eqI)
  fix n assume "n < LENGTH(8)"
  then have "n < 8" by simp
  then have "n = 0 \<or> n = 1 \<or> n = 2 \<or> n = 3 \<or> n = 4 \<or> n = 5 \<or> n = 6 \<or> n = 7" by presburger
  then show "bit a n = bit b n" using assms by (elim disjE) simp_all
qed

lemma head_fields_decode:
  "drop_bit 15 (head_fields h) AND 1 = take_bit 1 (h_qr h)"
  "drop_bit 11 (head_fields h) AND 15 = take_bit 4 (h_opcode h)"
  "head_fields h AND 15 = take_bit 4 (h_rcode h)"
  by (rule u16_eqI; (simp add: bit_simps head_bits head_bits[unfolded One_nat_def])?; (simp add: bit_0)?)+

lemma head_fields_decode_flags:
  "ucast (drop_bit 10 (head_fields h) AND 1) = take_bit 1 (h_aa h)"
  "ucast (drop_bit 9 (head_fields h) AND 1) = take_bit 1 (h_tc h)"
  "ucast (drop_bit 8 (head_fields h) AND 1) = take_bit 1 (h_rd h)"
  "ucast (drop_bit 7 (head_fields h) AND 1) = take_bit 1 (h_ra h)"
  "ucast (drop_bit 6 (head_fields h) AND 1) = take_bit 1 (h_z h)"
  "ucast (drop_bit 5 (head_fields h) AND 1) = take_bit 1 (h_ad h)"
  "ucast (drop_bit 4 (head_fields h) AND 1) = take_bit 1 (h_cd h)"
  by (rule u8_eqI; (simp add: bit_simps head_bits head_bits[unfolded One_nat_def])?; (simp add: bit_0)?)+

text \<open>A header whose fields have the width they have on the wire.\<close>

definition head_ok :: "dns_head \<Rightarrow> bool" where
  "head_ok h \<longleftrightarrow> h_qr h < 2 \<and> h_opcode h < 16 \<and> h_aa h < 2 \<and> h_tc h < 2 \<and> h_rd h < 2 \<and> h_ra h < 2 \<and>
     h_z h < 2 \<and> h_ad h < 2 \<and> h_cd h < 2 \<and> h_rcode h < 16"

lemma take_bit_small:
  fixes w :: "'a::len word"
  assumes "unat w < 2 ^ n"
  shows "take_bit n w = w"
  using assms by (simp add: word_unat_eq_iff unsigned_take_bit_eq take_bit_nat_eq_self)

lemma head_ok_take_bit:
  assumes "head_ok h"
  shows "take_bit 1 (h_qr h) = h_qr h" "take_bit 4 (h_opcode h) = h_opcode h" "take_bit 1 (h_aa h) = h_aa h"
    "take_bit 1 (h_tc h) = h_tc h" "take_bit 1 (h_rd h) = h_rd h" "take_bit 1 (h_ra h) = h_ra h"
    "take_bit 1 (h_z h) = h_z h" "take_bit 1 (h_ad h) = h_ad h" "take_bit 1 (h_cd h) = h_cd h"
    "take_bit 4 (h_rcode h) = h_rcode h"
  by (rule take_bit_small, use assms in \<open>simp add: head_ok_def word_less_nat_alt\<close>)+

text \<open>The bytes of a header.\<close>

definition head_bytes :: "dns_head \<Rightarrow> bytes" where
  "head_bytes h = be16 (h_id h) @ be16 (head_fields h) @ be16 (h_qdcount h) @ be16 (h_ancount h) @
     be16 (h_nscount h) @ be16 (h_nrcount h)"

lemma length_head_bytes [simp]: "length (head_bytes h) = 12"
  by (simp add: head_bytes_def)

lemma encode_head_bytes:
  assumes "fits c 12"
  shows "dns_encode_head c p = (12, dns_write_raw c (head_bytes (p_head p)))"
proof -
  have left: "\<not> dns_left_len c < 12" using assms by (simp add: fits_def dns_left_len_def)
  have f: "fits c n" if "n \<le> 12" for n using fits_mono[OF assms that] .
  show ?thesis
    using left f
    by (simp add: dns_encode_head_def Let_def write_raws write_raw_append head_bytes_def head_fields_def[symmetric])
qed

lemma read_short_at:
  "at (c_data c) (c_ptr c + k) (be16 w) \<Longrightarrow>
   dns_read_short (c\<lparr>c_ptr := c_ptr c + k\<rparr>) = (w, c\<lparr>c_ptr := c_ptr c + (k + 2)\<rparr>)"
  using at_read_short[of "c\<lparr>c_ptr := c_ptr c + k\<rparr>" w] by (simp add: add.assoc)

lemma decode_head_bytes:
  assumes at: "at (c_data c) (c_ptr c) (head_bytes h)" and left: "dns_left_len c \<ge> 12" and ok: "head_ok h"
  shows "dns_decode_head c q =
    (0, c\<lparr>c_ptr := c_ptr c + 12\<rparr>, q\<lparr>p_head := h\<lparr>h_padding := h_padding (p_head q)\<rparr>\<rparr>)"
proof -
  note r = read_short_at[of c] and t = head_ok_take_bit[OF ok]
  have a: "at (c_data c) (c_ptr c + 0) (be16 (h_id h))" "at (c_data c) (c_ptr c + 2) (be16 (head_fields h))"
    "at (c_data c) (c_ptr c + 4) (be16 (h_qdcount h))" "at (c_data c) (c_ptr c + 6) (be16 (h_ancount h))"
    "at (c_data c) (c_ptr c + 8) (be16 (h_nscount h))" "at (c_data c) (c_ptr c + 10) (be16 (h_nrcount h))"
    using at by (simp_all add: head_bytes_def at_append numeral_eq_Suc)
  have "dns_read_short c = (h_id h, c\<lparr>c_ptr := c_ptr c + 2\<rparr>)"
    "dns_read_short (c\<lparr>c_ptr := c_ptr c + 2\<rparr>) = (head_fields h, c\<lparr>c_ptr := c_ptr c + 4\<rparr>)"
    "dns_read_short (c\<lparr>c_ptr := c_ptr c + 4\<rparr>) = (h_qdcount h, c\<lparr>c_ptr := c_ptr c + 6\<rparr>)"
    "dns_read_short (c\<lparr>c_ptr := c_ptr c + 6\<rparr>) = (h_ancount h, c\<lparr>c_ptr := c_ptr c + 8\<rparr>)"
    "dns_read_short (c\<lparr>c_ptr := c_ptr c + 8\<rparr>) = (h_nscount h, c\<lparr>c_ptr := c_ptr c + 10\<rparr>)"
    "dns_read_short (c\<lparr>c_ptr := c_ptr c + 10\<rparr>) = (h_nrcount h, c\<lparr>c_ptr := c_ptr c + 12\<rparr>)"
    using r[of 0, OF a(1)] r[OF a(2)] r[OF a(3)] r[OF a(4)] r[OF a(5)] r[OF a(6)] by simp_all
  then show ?thesis
    using left t
    by (simp add: dns_decode_head_def head_fields_decode head_fields_decode_flags t)
qed

section \<open>Property\<close>

text \<open>
  C4: the header survives the wire. What \<^verbatim>\<open>_dns_encode_head\<close> writes, \<^verbatim>\<open>_dns_decode_head\<close> reads back
  field by field, for every header whose bit fields are in range; the reader stops where the writer
  stopped.
\<close>

theorem head_roundtrip:
  assumes "fits c 12" "head_ok (p_head p)" "dns_encode_head c p = (ret, c')"
  shows "ret = 12 \<and> c_ptr c' = c_ptr c + 12 \<and>
     dns_decode_head (c'\<lparr>c_ptr := c_ptr c\<rparr>) q = (0, c', q\<lparr>p_head := (p_head p)\<lparr>h_padding := h_padding (p_head q)\<rparr>\<rparr>)"
proof -
  let ?b = "head_bytes (p_head p)"
  have l: "length ?b = 12" by (simp add: head_bytes_def)
  have c': "ret = 12" "c' = dns_write_raw c ?b" using assms(3) encode_head_bytes[OF assms(1), of p] by auto
  have ptr: "c_ptr c' = c_ptr c + 12" "c_maxsize c' = c_maxsize c" using l assms(1) by (simp_all add: c' write_raw_eq)
  have "at (c_data c') (c_ptr c) ?b" using at_write_raw[of c ?b] assms(1) l by (simp add: c')
  then show ?thesis
    using decode_head_bytes[of "c'\<lparr>c_ptr := c_ptr c\<rparr>" "p_head p" q] assms(1,2) ptr c'(1)
    by (simp add: dns_left_len_def fits_def)
qed

definition sample_head :: dns_head where
  "sample_head = zero_head\<lparr>h_id := 0x1234, h_qr := 1, h_opcode := 2, h_rd := 1, h_ra := 1, h_rcode := 3, h_qdcount := 1\<rparr>"

theorem head_roundtrip_witness:
  "\<exists>c'. dns_encode_head sample_context ((packet_object 0)\<lparr>p_head := sample_head\<rparr>) = (12, c') \<and>
     p_head (snd (snd (dns_decode_head (c'\<lparr>c_ptr := 12\<rparr>) (packet_object 0)))) = sample_head"
proof -
  let ?p = "(packet_object 0)\<lparr>p_head := sample_head\<rparr>"
  obtain ret c' where e: "dns_encode_head sample_context ?p = (ret, c')" by fastforce
  show ?thesis using head_roundtrip[OF _ _ e, of "packet_object 0"] e
    by (auto simp: sample_context_def fits_def ctx_ok_def head_ok_def sample_head_def zero_head_def packet_object_def)
qed

end
