(* ===== verification/Dns_Roundtrip.thy ===== *)
theory Dns_Roundtrip
  imports Dns_Head
begin

text \<open>
  What is added to a packet is read back. \<open>rr_holds\<close> relates the bytes of a record to the name, type,
  class, TTL and data that were passed to \<^verbatim>\<open>_dns_add_RAW\<close>; it is kept by every later addition, and
  on a record with it \<^verbatim>\<open>_dns_get_RAW\<close> returns what was added.
\<close>

section \<open>Record heads\<close>

definition rr_head_bytes :: "int \<Rightarrow> int \<Rightarrow> u32 \<Rightarrow> int \<Rightarrow> bytes" where
  "rr_head_bytes qtype qclass ttl rr_len =
     be16 (of_int qtype) @ be16 (of_int qclass) @ be32 ttl @ be16 (of_int rr_len)"

lemma length_rr_head_bytes [simp]: "length (rr_head_bytes qtype qclass ttl rr_len) = 10"
  by (simp add: rr_head_bytes_def)

lemma add_qr_head_bytes:
  assumes e: "dns_encode_domain c s = (int (length bs), (dns_write_raw c bs)\<lparr>c_namedict := dict\<rparr>)"
    and f: "fits c (length bs + 4)"
  shows "dns_add_qr_head c s qtype qclass =
    (int (length bs) + 4, (dns_write_raw c (bs @ be16 (of_int qtype) @ be16 (of_int qclass)))\<lparr>c_namedict := dict\<rparr>)"
proof -
  have "\<not> dns_left_len (dns_write_raw c bs) < 4" using f by (simp add: dns_left_len_def fits_def)
  then show ?thesis
    using f fits_mono[OF f]
    by (simp add: dns_add_qr_head_def e write_raws write_raw_append fits_mono dns_left_len_def)
qed

lemma add_rr_head_bytes:
  assumes e: "dns_encode_domain c s = (int (length bs), (dns_write_raw c bs)\<lparr>c_namedict := dict\<rparr>)"
    and f: "fits c (length bs + 10)"
  shows "dns_add_rr_head c s qtype qclass ttl rl =
    (int (length bs) + 10, (dns_write_raw c (bs @ rr_head_bytes qtype qclass ttl rl))\<lparr>c_namedict := dict\<rparr>)"
proof -
  have f4: "fits c (length bs + 4)" using fits_mono[OF f] by simp
  show ?thesis
    using f fits_mono[OF f]
    by (simp add: dns_add_rr_head_def add_qr_head_bytes[OF e f4] write_raws write_raw_append fits_mono dns_left_len_def
        rr_head_bytes_def fits_def)
qed

lemma get_qr_head_bytes:
  assumes ok: "ctx_ok c" and w: "wname (c_data c) A (c_ptr c) ls e" and A: "A \<subseteq> {..<nat (c_maxsize c)}" and v: "valid_name ls"
    and at: "at (c_data c) e (be16 qt @ be16 qc)" and room: "int (e + 4) \<le> c_maxsize c"
  shows "dns_get_qr_head c 256 = (0, dotted ls, uint qt, uint qc, c\<lparr>c_ptr := e + 4\<rparr>)"
proof -
  have d: "dns_decode_domain c 256 = (0, dotted ls, c\<lparr>c_ptr := e\<rparr>)" by (rule decode_domain_wname[OF w A ok v]) simp
  have "dns_read_short (c\<lparr>c_ptr := e\<rparr>) = (qt, c\<lparr>c_ptr := e + 2\<rparr>)"
    "dns_read_short (c\<lparr>c_ptr := e + 2\<rparr>) = (qc, c\<lparr>c_ptr := e + 4\<rparr>)"
    using at at_read_short[of "c\<lparr>c_ptr := e\<rparr>" qt] at_read_short[of "c\<lparr>c_ptr := e + 2\<rparr>" qc] by (simp_all add: at_append)
  then show ?thesis using room by (simp add: dns_get_qr_head_def d dns_left_len_def)
qed

lemma get_rr_head_bytes:
  assumes ok: "ctx_ok c" and w: "wname (c_data c) A (c_ptr c) ls e" and A: "A \<subseteq> {..<nat (c_maxsize c)}" and v: "valid_name ls"
    and at: "at (c_data c) e (rr_head_bytes qt qc ttl rl)" and room: "int (e + 10) \<le> c_maxsize c"
    and rng: "0 \<le> qt" "qt < 65536" "0 \<le> qc" "qc < 65536" "0 \<le> rl" "rl < 65536"
  shows "dns_get_rr_head c 256 = (0, dotted ls, qt, qc, ttl, rl, c\<lparr>c_ptr := e + 10\<rparr>)"
proof -
  have q: "dns_get_qr_head c 256 = (0, dotted ls, qt, qc, c\<lparr>c_ptr := e + 4\<rparr>)"
    using get_qr_head_bytes[OF ok w A v, of "of_int qt" "of_int qc"] at room rng
    by (simp add: rr_head_bytes_def at_append uint_word_of_int)
  have a: "at (c_data c) (e + 4) (be32 ttl)" "at (c_data c) (e + 8) (be16 (of_int rl))"
    using at by (simp_all add: rr_head_bytes_def at_append numeral_eq_Suc)
  have "dns_read_int (c\<lparr>c_ptr := e + 4\<rparr>) = (ttl, c\<lparr>c_ptr := e + 8\<rparr>)"
    "dns_read_short (c\<lparr>c_ptr := e + 8\<rparr>) = (of_int rl, c\<lparr>c_ptr := e + 10\<rparr>)"
    using a at_read_int[of "c\<lparr>c_ptr := e + 4\<rparr>" ttl] at_read_short[of "c\<lparr>c_ptr := e + 8\<rparr>" "of_int rl"]
    by simp_all
  then show ?thesis using room rng by (simp add: dns_get_rr_head_def q dns_left_len_def uint_word_of_int)
qed

section \<open>The data of the records\<close>

text \<open>The positions of the records' data, between the records' headers.\<close>

fun data_area :: "nat \<Rightarrow> rr_item list \<Rightarrow> nat set" where
  "data_area off [] = {}"
| "data_area off (r # rs) = {off + 16..<off + rr_size r} \<union> data_area (off + rr_size r) rs"

lemma data_area_append: "data_area off (rs @ qs) = data_area off rs \<union> data_area (off + total_size rs) qs"
  by (induction rs arbitrary: off) (auto simp: add.assoc)

lemma data_area_bound: "i \<in> data_area off rs \<Longrightarrow> off + 16 \<le> i \<and> i < off + total_size rs"
proof (induction rs arbitrary: off)
  case (Cons r rs)
  then show ?case by (fastforce simp: rr_size_def)
qed simp

lemma data_area_last:
  "i \<in> data_area off rs \<Longrightarrow> last_off s off rs = Some L \<Longrightarrow> i \<noteq> L + 8 \<and> i \<noteq> L + 9"
proof (induction rs arbitrary: off)
  case (Cons r rs)
  then show ?case
    using data_area_bound[of i "off + rr_size r" rs] last_off_bounds[of s "off + rr_size r" rs L] rr_size_ge[of r]
    by (fastforce split: option.splits if_splits)
qed simp

text \<open>What a record was built from.\<close>

record rr_spec =
  x_sec :: dns_rr_type
  x_type :: int
  x_name :: "bytes list"
  x_ttl :: u32
  x_raw :: bytes

definition rr_holds :: "bytes \<Rightarrow> nat set \<Rightarrow> nat \<Rightarrow> rr_item \<Rightarrow> rr_spec \<Rightarrow> bool" where
  "rr_holds d A off r x \<longleftrightarrow> i_sec r = x_sec x \<and> i_type r = x_type x \<and>
     (\<exists>e. wname d (A \<inter> {..<off + rr_size r}) (off + 16) (x_name x) e \<and>
        at d e (rr_head_bytes (x_type x) DNS_C_IN (x_ttl x) (int (length (x_raw x))) @ x_raw x) \<and>
        e + 10 + length (x_raw x) = off + rr_size r \<and> off + 16 \<le> e)"

fun holds_all :: "bytes \<Rightarrow> nat set \<Rightarrow> nat \<Rightarrow> rr_item list \<Rightarrow> rr_spec list \<Rightarrow> bool" where
  "holds_all d A off [] xs = (xs = [])"
| "holds_all d A off (r # rs) xs =
     (\<exists>x xs'. xs = x # xs' \<and> rr_holds d A off r x \<and> holds_all d A (off + rr_size r) rs xs')"

lemma rr_holds_frame:
  assumes h: "rr_holds d A off r x" and eq: "\<And>i. i \<in> A \<Longrightarrow> d' ! i = d ! i" and A: "A \<subseteq> A'" "A \<subseteq> {..<length d}"
    and len: "length d' = length d" and sub: "{off + 16..<off + rr_size r} \<subseteq> A"
  shows "rr_holds d' A' off r x"
proof -
  let ?R = "{..<off + rr_size r}"
  obtain e where e: "wname d (A \<inter> ?R) (off + 16) (x_name x) e"
    "at d e (rr_head_bytes (x_type x) DNS_C_IN (x_ttl x) (int (length (x_raw x))) @ x_raw x)"
    "e + 10 + length (x_raw x) = off + rr_size r" "off + 16 \<le> e"
    using h by (auto simp: rr_holds_def)
  have "wname d' (A' \<inter> ?R) (off + 16) (x_name x) e" by (rule wname_frame[OF e(1) eq]) (use A len in auto)
  moreover have "at d' e (rr_head_bytes (x_type x) DNS_C_IN (x_ttl x) (int (length (x_raw x))) @ x_raw x)"
    using e sub len by (intro at_frame[OF e(2)] eq) (auto simp: subset_iff)
  ultimately show ?thesis using h e by (auto simp: rr_holds_def)
qed

lemma holds_all_frame:
  assumes "holds_all d A off rs xs" "\<And>i. i \<in> A \<Longrightarrow> d' ! i = d ! i" "A \<subseteq> A'" "A \<subseteq> {..<length d}" "length d' = length d"
    "data_area off rs \<subseteq> A"
  shows "holds_all d' A' off rs xs"
  using assms
proof (induction rs arbitrary: off xs)
  case (Cons r rs)
  then obtain x xs' where x: "xs = x # xs'" "rr_holds d A off r x" "holds_all d A (off + rr_size r) rs xs'" by auto
  then show ?case
    using rr_holds_frame[OF x(2) Cons.prems(2-5)] Cons.IH[OF x(3) Cons.prems(2-5)] Cons.prems(6) by auto
qed simp

lemma holds_all_append:
  "holds_all d A off rs xs \<Longrightarrow> rr_holds d A (off + total_size rs) r x \<Longrightarrow> holds_all d A off (rs @ [r]) (xs @ [x])"
  by (induction rs arbitrary: off xs) (auto simp: add.assoc)

section \<open>Adding a record\<close>

text \<open>A packet whose records hold \<open>xs\<close> and whose dictionary names suffixes in the records' data.\<close>

definition packet_holds :: "bytes set \<Rightarrow> dns_packet \<Rightarrow> rr_item list \<Rightarrow> rr_spec list \<Rightarrow> bool" where
  "packet_holds S p rs xs \<longleftrightarrow> packet_wf p rs \<and> p_size p - SIZEOF_DNS_PACKET \<le> 16384 \<and>
     dict_ok S (data_area 0 rs) (packet_context p) \<and> holds_all (p_data p) (data_area 0 rs) 0 rs xs"

definition spec_ok :: "bytes set \<Rightarrow> rr_spec \<Rightarrow> bool" where
  "spec_ok S x \<longleftrightarrow> valid_name (x_name x) \<and> suffix_texts (x_name x) \<subseteq> S \<and> x_sec x \<noteq> DNS_RRS_END \<and>
     0 \<le> x_type x \<and> x_type x < 65536 \<and> length (x_raw x) < 65536"

text \<open>The room that a record takes at most.\<close>

definition spec_room :: "rr_spec \<Rightarrow> nat" where
  "spec_room x = 16 + length (dotted (x_name x)) + 13 + length (x_raw x)"

lemma write_raw_prefix:
  assumes "fits c (length (a @ b))" "i < c_ptr c + length a"
  shows "c_data (dns_write_raw c (a @ b)) ! i = c_data (dns_write_raw c a) ! i"
proof -
  have f: "fits c (length a)" using fits_mono[OF assms(1)] by simp
  show ?thesis
    using assms fits_length[OF assms(1)] by (auto simp: write_raw_eq f nth_put_bytes nth_append)
qed

text \<open>The record that \<^verbatim>\<open>_dns_add_RAW\<close> has written behind the packet when it commits it.\<close>

definition spec_bytes :: "bytes \<Rightarrow> rr_spec \<Rightarrow> bytes" where
  "spec_bytes nb x = nb @ rr_head_bytes (x_type x) DNS_C_IN (x_ttl x) (int (length (x_raw x))) @ x_raw x"

lemma add_RAW_bytes:
  assumes h: "packet_holds S p rs xs" and x: "spec_ok S x" and inj: "inj_on dict_hash S"
    and room: "int (p_len p + spec_room x) \<le> p_size p - SIZEOF_DNS_PACKET"
  shows "\<exists>nb dict. let bs = spec_bytes nb x; c = (dns_write_raw (packet_context p) bs)\<lparr>c_namedict := dict\<rparr>;
       A = data_area 0 rs \<union> {p_len p + 16..<p_len p + 16 + length nb}
     in fits (packet_context p) (length bs) \<and> length bs \<le> spec_room x - 16 \<and>
        wname (c_data c) A (p_len p + 16) (x_name x) (p_len p + 16 + length nb) \<and>
        (\<forall>it\<in>set dict. dict_complete S (c_data c) A it) \<and>
        dns_add_RAW p (x_sec x) (x_type x) (dotted (x_name x)) (x_ttl x) (x_raw x) (int (length (x_raw x))) =
          dns_rr_add_end (packet_of_context p c) (x_sec x) (x_type x) (int (length bs))"
proof -
  let ?c = "packet_context p" and ?hd = "rr_head_bytes (x_type x) DNS_C_IN (x_ttl x) (int (length (x_raw x)))"
  have wf: "packet_wf p rs" and dk: "dict_ok S (data_area 0 rs) ?c" and mx: "c_maxsize ?c \<le> 16384"
    using h by (simp_all add: packet_holds_def)
  have f: "fits ?c (length (dotted (x_name x)) + 13 + length (x_raw x))"
    using packet_context_ok[OF wf] room by (simp add: fits_def spec_room_def)
  have v: "valid_name (x_name x)" and mem: "suffix_texts (x_name x) \<subseteq> S" using x by (auto simp: spec_ok_def)
  have f0: "fits ?c (length (dotted (x_name x)) + 3)" using fits_mono[OF f] by simp
  obtain nb dict where nb: "dns_encode_domain ?c (dotted (x_name x)) = (int (length nb), (dns_write_raw ?c nb)\<lparr>c_namedict := dict\<rparr>)"
    "length nb \<le> length (dotted (x_name x)) + 2"
    "wname (c_data (dns_write_raw ?c nb)) (data_area 0 rs \<union> {p_len p + 16..<p_len p + 16 + length nb}) (p_len p + 16)
       (x_name x) (p_len p + 16 + length nb)"
    "dict_ok S (data_area 0 rs \<union> {p_len p + 16..<p_len p + 16 + length nb}) ((dns_write_raw ?c nb)\<lparr>c_namedict := dict\<rparr>)"
    using encode_domain_written[OF v f0 mx inj mem dk] by auto
  let ?A = "data_area 0 rs \<union> {p_len p + 16..<p_len p + 16 + length nb}"
  have fb: "fits ?c (length (spec_bytes nb x))" and lb: "length (spec_bytes nb x) \<le> spec_room x - 16"
    using fits_mono[OF f] nb(2) by (simp_all add: spec_bytes_def spec_room_def)
  have fn: "fits ?c (length nb)" and f10: "fits ?c (length nb + 10)" using fits_mono[OF fb] by (simp_all add: spec_bytes_def)
  define d1 where "d1 = c_data (dns_write_raw ?c nb)"
  define d2 where "d2 = c_data (dns_write_raw ?c (spec_bytes nb x))"
  have A: "?A \<subseteq> {..<p_len p + 16 + length nb}" using data_area_bound[of _ 0 rs] wf
    by (fastforce simp: packet_wf_def rep_def)
  have eq: "d2 ! i = d1 ! i" if "i \<in> ?A" for i
    using write_raw_prefix[of ?c nb "?hd @ x_raw x" i] fb A that unfolding d1_def d2_def spec_bytes_def by auto
  have l: "length d1 = length (p_data p)" "length d2 = length (p_data p)"
    using length_data_write_raw[OF fn] length_data_write_raw[OF fb] by (simp_all add: d1_def d2_def)
  have sub: "?A \<subseteq> {..<length d1}" "?A \<subseteq> {..<length d2}" using A fits_length[OF fn] l by auto
  have w: "wname d2 ?A (p_len p + 16) (x_name x) (p_len p + 16 + length nb)"
    using wname_frame[OF nb(3)[folded d1_def] eq _ sub] by simp
  have dc: "\<forall>it\<in>set dict. dict_complete S d2 ?A it"
    using nb(4) dict_complete_frame[OF _ eq _ sub] by (simp add: dict_ok_def d1_def[symmetric])
  have "dns_add_RAW p (x_sec x) (x_type x) (dotted (x_name x)) (x_ttl x) (x_raw x) (int (length (x_raw x))) =
     dns_rr_add_end (packet_of_context p ((dns_write_raw ?c (spec_bytes nb x))\<lparr>c_namedict := dict\<rparr>))
       (x_sec x) (x_type x) (int (length (spec_bytes nb x)))"
    using room fb f10
    by (simp add: dns_add_RAW_def dns_add_rrs_start_def add_rr_head_bytes[OF nb(1) f10] dns_copy_def spec_bytes_def
        spec_room_def write_raw_append dns_left_len_def fits_def add.assoc)
  with fb lb w dc show ?thesis
    unfolding Let_def by (intro exI[of _ nb] exI[of _ dict]) (simp add: d2_def)
qed

text \<open>Committing the record keeps the bytes of all the records' data.\<close>

lemma rr_add_end_data:
  assumes rep: "rep p rs" and s: "s \<noteq> DNS_RRS_END" and a: "dns_rr_add_end p s t (int n) = (0, q)"
    and room: "p_len p + 16 + n \<le> length (p_data p)"
    and i: "i \<in> data_area 0 rs \<or> p_len p + 16 \<le> i" "i < length (p_data p)"
  shows "p_data q ! i = p_data p ! i"
proof -
  have len: "p_len p = total_size rs" using rep by (simp add: rep_def)
  have q: "p_data q = p_data (packet_write (link_last p s) (p_len p) (rrs_bytes p DNS_RR_END (of_nat n) t))"
    using a s by (auto simp: dns_rr_add_end_link Let_def split: if_splits)
  have i1: "\<not> (p_len p \<le> i \<and> i < p_len p + 16)" using i(1) data_area_bound[of i 0 rs] len by auto
  have i2: "i \<noteq> L + 8 \<and> i \<noteq> L + 9" if "last_off s 0 rs = Some L" for L
    using i(1) data_area_last[of i 0 rs s L] last_off_bounds[OF that] that len by auto
  show ?thesis
    using q i1 i2 i(2) room last_off_bounds[of s 0 rs] len link_last_eq[OF rep s]
    by (auto simp: packet_write_def nth_put_bytes length_put_bytes split: option.splits)
qed

lemma rr_holds_new:
  assumes w: "wname d A (N + 16) (x_name x) (N + 16 + length nb)" and at: "at d (N + 16) (spec_bytes nb x)"
    and r: "r = \<lparr>i_sec = x_sec x, i_type = x_type x, i_data = spec_bytes nb x\<rparr>" and A: "A \<subseteq> {..<N + rr_size r}"
  shows "rr_holds d A N r x"
proof -
  let ?h = "rr_head_bytes (x_type x) DNS_C_IN (x_ttl x) (int (length (x_raw x)))"
  have "at d (N + 16 + length nb) (?h @ x_raw x)" using at by (simp add: spec_bytes_def at_append)
  moreover have "A \<inter> {..<N + rr_size r} = A" using A by blast
  ultimately show ?thesis
    unfolding rr_holds_def using w r by (intro conjI exI[of _ "N + 16 + length nb"]) (simp_all add: rr_size_def spec_bytes_def)
qed

lemma commit_holds:
  assumes h: "packet_holds S p rs xs" and x: "spec_ok S x" and bs: "bs = spec_bytes nb x"
    and f: "fits (packet_context p) (length bs)" and c: "c = (dns_write_raw (packet_context p) bs)\<lparr>c_namedict := dict\<rparr>"
    and A: "A = data_area 0 rs \<union> {p_len p + 16..<p_len p + 16 + length nb}"
    and w: "wname (c_data c) A (p_len p + 16) (x_name x) (p_len p + 16 + length nb)"
    and dc: "\<forall>it\<in>set dict. dict_complete S (c_data c) A it"
  shows "\<exists>q r. dns_rr_add_end (packet_of_context p c) (x_sec x) (x_type x) (int (length bs)) = (0, q) \<and>
     packet_holds S q (rs @ [r]) (xs @ [x]) \<and> p_len q = p_len p + 16 + length bs \<and> p_size q = p_size p \<and>
     (\<forall>S. counts p rs S \<longrightarrow> counts q (rs @ [r]) S)"
proof -
  let ?p1 = "packet_of_context p c" and ?N = "p_len p"
  have wf: "packet_wf p rs" and mx: "p_size p - SIZEOF_DNS_PACKET \<le> 16384" and ha: "holds_all (p_data p) (data_area 0 rs) 0 rs xs"
    using h by (simp_all add: packet_holds_def)
  have s: "x_sec x \<noteq> DNS_RRS_END" using x by (simp add: spec_ok_def)
  have ef: "enc_frame (?N + 16) (packet_context p) c" using write_raw_frame[OF f, of "?N + 16"] by (simp add: c enc_frame_def)
  have g: "grows p rs rs ?p1" by (rule enc_frame_packet[OF wf ef]) simp_all
  note wf1 = grows_wf[OF g]
  have ld: "length (c_data c) = length (p_data p)" using ef by (simp add: enc_frame_def)
  have fit: "int (p_len ?p1 + 16 + length bs) \<le> p_size ?p1 - SIZEOF_DNS_PACKET" using f by (simp add: fits_def)
  have at: "at (c_data c) (?N + 16) bs" using at_write_raw[OF f] by (simp add: c)
  define r where "r = \<lparr>i_sec = x_sec x, i_type = x_type x, i_data = bs\<rparr>"
  have r: "r = \<lparr>i_sec = x_sec x, i_type = x_type x, i_data = sub_bytes (p_data ?p1) (p_len ?p1 + 16) (length bs)\<rparr>"
    using at by (simp add: r_def at_def)
  obtain q where q: "dns_rr_add_end ?p1 (x_sec x) (x_type x) (int (length bs)) = (0, q)" "rep q (rs @ [r])"
    "p_fault q = p_fault ?p1" "p_size q = p_size p" "length (p_data q) = length (p_data p)" "p_namedict q = dict"
    "p_len q = ?N + 16 + length bs" "\<And>S. counts ?p1 rs S \<Longrightarrow> counts q (rs @ [r]) S"
    using dns_rr_add_end_rep[OF _ s fit _ r] wf1 ld by (auto simp: packet_wf_def c)
  define A' where "A' = data_area 0 (rs @ [r])"
  have len: "?N = total_size rs" using wf by (simp add: packet_wf_def rep_def)
  have A': "A' = data_area 0 rs \<union> {?N + 16..<?N + 16 + length bs}"
    by (simp add: A'_def data_area_append len r_def rr_size_def add.assoc)
  have room: "?N + 16 + length bs \<le> length (p_data p)" using fits_length[OF f] by simp
  have eq: "p_data q ! i = c_data c ! i" if "i \<in> A'" for i
    using rr_add_end_data[OF _ s q(1), of rs i] that wf1 room ld data_area_bound[of i 0 rs] len by (auto simp: packet_wf_def A')
  have old: "p_data q ! i = p_data p ! i" if "i \<in> data_area 0 rs" for i
    using eq[of i] that ef data_area_bound[of i 0 rs] len by (auto simp: A' enc_frame_def)
  have AA: "A \<subseteq> A'" "A \<subseteq> {..<length (c_data c)}" "A' \<subseteq> {..<length (p_data q)}"
    using room ld q(5) data_area_bound[of _ 0 rs] len by (fastforce simp: A A' bs spec_bytes_def)+
  have "wname (p_data q) A' (?N + 16) (x_name x) (?N + 16 + length nb)"
    using wname_frame[OF w _ AA(1,2)] eq AA by blast
  moreover have "at (p_data q) (?N + 16) bs" using at_frame[OF at] eq ld q(5) by (simp add: A')
  moreover have "A' \<subseteq> {..<?N + rr_size r}" using data_area_bound[of _ 0 rs] len by (fastforce simp: A' r_def rr_size_def)
  ultimately have "rr_holds (p_data q) A' ?N r x" using rr_holds_new[of "p_data q" A' ?N x nb r] by (simp add: bs r_def)
  moreover have "holds_all (p_data q) A' 0 rs xs"
    using holds_all_frame[OF ha old, of A'] q(5) data_area_bound[of _ 0 rs] len room by (fastforce simp: A')
  ultimately have "holds_all (p_data q) A' 0 (rs @ [r]) (xs @ [x])" using holds_all_append[of "p_data q" A' 0 rs xs r x] len by simp
  moreover have "dict_ok S A' (packet_context q)"
  proof -
    have "dict_complete S (p_data q) A' it" if "it \<in> set dict" for it
      by (rule dict_complete_frame[where d = "c_data c" and A = A]) (use dc that AA eq in auto)
    moreover have "A' \<subseteq> {..<p_len q + 16}" using data_area_bound[of _ 0 rs] len q(7) by (fastforce simp: A')
    ultimately show ?thesis by (simp add: dict_ok_def q(6))
  qed
  ultimately have "packet_holds S q (rs @ [r]) (xs @ [x])"
    using q(2-5) mx wf1 ld by (simp add: packet_holds_def packet_wf_def A'_def)
  moreover have "counts p rs S \<Longrightarrow> counts q (rs @ [r]) S" for S using q(8)[of S] counts_cong[of ?p1 p rs S] by simp
  ultimately show ?thesis using q by blast
qed

lemma add_RAW_holds:
  assumes h: "packet_holds S p rs xs" and x: "spec_ok S x" and inj: "inj_on dict_hash S"
    and room: "int (p_len p + spec_room x) \<le> p_size p - SIZEOF_DNS_PACKET"
  shows "\<exists>q r. dns_add_RAW p (x_sec x) (x_type x) (dotted (x_name x)) (x_ttl x) (x_raw x) (int (length (x_raw x))) = (0, q) \<and>
     packet_holds S q (rs @ [r]) (xs @ [x]) \<and> p_len q \<le> p_len p + spec_room x \<and> p_size q = p_size p \<and>
     (\<forall>S. counts p rs S \<longrightarrow> counts q (rs @ [r]) S)"
proof -
  obtain nb dict where b: "fits (packet_context p) (length (spec_bytes nb x))" "length (spec_bytes nb x) \<le> spec_room x - 16"
    "wname (c_data ((dns_write_raw (packet_context p) (spec_bytes nb x))\<lparr>c_namedict := dict\<rparr>))
       (data_area 0 rs \<union> {p_len p + 16..<p_len p + 16 + length nb}) (p_len p + 16) (x_name x) (p_len p + 16 + length nb)"
    "\<forall>it\<in>set dict. dict_complete S (c_data ((dns_write_raw (packet_context p) (spec_bytes nb x))\<lparr>c_namedict := dict\<rparr>))
       (data_area 0 rs \<union> {p_len p + 16..<p_len p + 16 + length nb}) it"
    "dns_add_RAW p (x_sec x) (x_type x) (dotted (x_name x)) (x_ttl x) (x_raw x) (int (length (x_raw x))) =
       dns_rr_add_end (packet_of_context p ((dns_write_raw (packet_context p) (spec_bytes nb x))\<lparr>c_namedict := dict\<rparr>))
         (x_sec x) (x_type x) (int (length (spec_bytes nb x)))"
    using add_RAW_bytes[OF h x inj room] by (auto simp: Let_def)
  from commit_holds[OF h x refl b(1) refl refl b(3,4)] obtain q r where
    "dns_rr_add_end (packet_of_context p ((dns_write_raw (packet_context p) (spec_bytes nb x))\<lparr>c_namedict := dict\<rparr>))
         (x_sec x) (x_type x) (int (length (spec_bytes nb x))) = (0, q)"
    "packet_holds S q (rs @ [r]) (xs @ [x])" "p_len q = p_len p + 16 + length (spec_bytes nb x)" "p_size q = p_size p"
    "\<forall>S. counts p rs S \<longrightarrow> counts q (rs @ [r]) S"
    by blast
  moreover have "16 \<le> spec_room x" by (simp add: spec_room_def)
  ultimately show ?thesis using b(2,5) by (intro exI[of _ q] exI[of _ r]) simp
qed

section \<open>Reading the records back\<close>

lemma get_RAW_holds:
  assumes h: "rr_holds (p_data p) A off r x" and r: "rr_at (p_data p) off r nxt" and nf: "\<not> p_fault p"
    and x: "spec_ok S x" and raw: "int (length (x_raw x)) \<le> raw_len" and l: "length (p_data p) \<le> 65535"
  shows "\<exists>c. dns_get_RAW p off 256 raw_len = (0, dotted (x_name x), x_ttl x, x_raw x, c) \<and> \<not> c_fault c"
proof -
  let ?c = "dns_init_context_by_rrs p off" and ?h = "rr_head_bytes (x_type x) DNS_C_IN (x_ttl x) (int (length (x_raw x)))"
  obtain e where e: "wname (p_data p) (A \<inter> {..<off + rr_size r}) (off + 16) (x_name x) e" "at (p_data p) e (?h @ x_raw x)"
    "e + 10 + length (x_raw x) = off + rr_size r" and t: "i_type r = x_type x"
    using h by (auto simp: rr_holds_def)
  have len: "off + rr_size r \<le> length (p_data p)" using r by (simp add: rr_at_def)
  have c: "?c = \<lparr>c_data = p_data p, c_maxsize = int (off + rr_size r), c_ptr = off + 16, c_namedict = p_namedict p, c_fault = False\<rparr>"
    using r len l nf
    by (simp add: dns_init_context_by_rrs_def rrs_len_def packet_read16_def rr_at_def rr_size_def uint_nat of_nat_inverse)
  have ok: "ctx_ok ?c" using len by (simp add: c ctx_ok_def rr_size_def)
  have at: "at (p_data p) e ?h" "at (p_data p) (e + 10) (x_raw x)"
    using e(2) by (simp_all add: at_append add.commute)
  have "dns_get_rr_head ?c 256 = (0, dotted (x_name x), x_type x, DNS_C_IN, x_ttl x, int (length (x_raw x)), ?c\<lparr>c_ptr := e + 10\<rparr>)"
    by (rule get_rr_head_bytes[OF ok, where A = "A \<inter> {..<off + rr_size r}"]) (use e at x in \<open>auto simp: c spec_ok_def\<close>)
  moreover have "rrs_type p off = (x_type x, False)"
    using r len x t by (simp add: rrs_type_def packet_read32_def rr_at_def rr_size_def spec_ok_def
        signed_take_bit_int_eq_self sint_sbintrunc')
  moreover have "dns_read_raw (?c\<lparr>c_ptr := e + 10\<rparr>) (length (x_raw x)) = (x_raw x, ?c\<lparr>c_ptr := e + 10 + length (x_raw x)\<rparr>)"
    using at_read_raw[of "?c\<lparr>c_ptr := e + 10\<rparr>" "x_raw x"] at(2) by (simp add: c)
  ultimately show ?thesis using raw by (simp add: dns_get_RAW_def c)
qed

text \<open>What the loop over a section's list reads, and what was added to that section.\<close>

definition reads_back :: "dns_packet \<Rightarrow> int \<Rightarrow> nat list \<Rightarrow> rr_spec list \<Rightarrow> bool" where
  "reads_back p raw_len = list_all2 (\<lambda>rrs x.
     \<exists>c. dns_get_RAW p rrs 256 raw_len = (0, dotted (x_name x), x_ttl x, x_raw x, c) \<and> \<not> c_fault c)"

lemma holds_reads_back:
  assumes "holds_all (p_data p) A off rs xs" "laid (p_data p) off rs" "\<not> p_fault p" "length (p_data p) \<le> 65535"
    "\<forall>x\<in>set xs. spec_ok S x \<and> int (length (x_raw x)) \<le> raw_len"
  shows "reads_back p raw_len (offsets s off rs) (filter (\<lambda>x. x_sec x = s) xs)"
  using assms
proof (induction rs arbitrary: off xs)
  case (Cons r rs)
  then obtain x xs' where x: "xs = x # xs'" "rr_holds (p_data p) A off r x" "holds_all (p_data p) A (off + rr_size r) rs xs'"
    by auto
  have "reads_back p raw_len (offsets s (off + rr_size r) rs) (filter (\<lambda>x. x_sec x = s) xs')"
    using Cons.IH[OF x(3)] Cons.prems x(1) by simp
  moreover obtain nxt where nxt: "rr_at (p_data p) off r nxt" using Cons.prems(2) by auto
  moreover have "i_sec r = x_sec x" using x(2) by (simp add: rr_holds_def)
  moreover have "\<exists>c. dns_get_RAW p off 256 raw_len = (0, dotted (x_name x), x_ttl x, x_raw x, c) \<and> \<not> c_fault c"
    using get_RAW_holds[OF x(2) nxt] Cons.prems x(1) by auto
  ultimately show ?case using x(1) by (auto simp: reads_back_def)
qed (simp add: reads_back_def)

lemma holds_count: "holds_all d A off rs xs \<Longrightarrow> length (in_sec s rs) = length (filter (\<lambda>x. x_sec x = s) xs)"
  by (induction rs arbitrary: off xs) (auto simp: in_sec_def rr_holds_def)

lemma holds_length: "holds_all d A off rs xs \<Longrightarrow> length xs * 16 \<le> total_size rs"
proof (induction rs arbitrary: off xs)
  case (Cons r rs)
  then show ?case using rr_size_ge[of r] by fastforce
qed simp

text \<open>Adding the records of a list one after the other.\<close>

fun add_all :: "dns_packet \<Rightarrow> rr_spec list \<Rightarrow> int \<times> dns_packet" where
  "add_all p [] = (0, p)"
| "add_all p (x # xs) =
     (let (ret, p) = dns_add_RAW p (x_sec x) (x_type x) (dotted (x_name x)) (x_ttl x) (x_raw x) (int (length (x_raw x)))
      in if ret < 0 then (-1, p) else add_all p xs)"

definition specs_room :: "rr_spec list \<Rightarrow> nat" where
  "specs_room xs = sum_list (map spec_room xs)"

lemma add_all_holds:
  assumes "packet_holds S p rs ys" "\<forall>x\<in>set xs. spec_ok S x" "inj_on dict_hash S" "counts p rs T"
    "int (p_len p + specs_room xs) \<le> p_size p - SIZEOF_DNS_PACKET"
  shows "\<exists>q rs'. add_all p xs = (0, q) \<and> packet_holds S q rs' (ys @ xs) \<and> counts q rs' T"
  using assms
proof (induction xs arbitrary: p rs ys)
  case (Cons x xs)
  have room: "int (p_len p + spec_room x) \<le> p_size p - SIZEOF_DNS_PACKET" and x: "spec_ok S x"
    using Cons.prems by (auto simp: specs_room_def)
  from add_RAW_holds[OF Cons.prems(1) x Cons.prems(3) room] obtain q r where
    q: "dns_add_RAW p (x_sec x) (x_type x) (dotted (x_name x)) (x_ttl x) (x_raw x) (int (length (x_raw x))) = (0, q)"
      "packet_holds S q (rs @ [r]) (ys @ [x])" "p_len q \<le> p_len p + spec_room x" "p_size q = p_size p"
      "counts q (rs @ [r]) T"
    using Cons.prems(4) by blast
  have "int (p_len q + specs_room xs) \<le> p_size q - SIZEOF_DNS_PACKET"
    using Cons.prems(5) q(3,4) by (simp add: specs_room_def)
  from Cons.IH[OF q(2) _ Cons.prems(3) q(5) this] show ?case using Cons.prems(2) by (simp add: q(1))
qed auto

lemma add_all_reads_back:
  assumes obj: "\<not> p_fault p" "sz - SIZEOF_DNS_PACKET \<le> int (length (p_data p))" "length (p_data p) \<le> 65535"
    and sz: "sz - SIZEOF_DNS_PACKET \<le> 16384"
    and ok: "\<forall>x\<in>set xs. spec_ok S x \<and> int (length (x_raw x)) \<le> raw_len" and inj: "inj_on dict_hash S"
    and room: "int (specs_room xs) \<le> sz - SIZEOF_DNS_PACKET"
  shows "\<exists>q. add_all (snd (dns_packet_init p sz h)) xs = (0, q) \<and> \<not> p_fault q \<and>
     (\<forall>s. s \<noteq> DNS_RRS_END \<longrightarrow> (let ys = filter (\<lambda>x. x_sec x = s) xs in
        \<exists>offs. section_records q s = (offs, False) \<and> snd (dns_get_rrs_start q s) = int (length ys) \<and>
          reads_back q raw_len offs ys))"
proof -
  let ?p = "snd (dns_packet_init p sz h)"
  have sz0: "SIZEOF_DNS_PACKET \<le> sz" using room by linarith
  have i: "packet_wf ?p []" "counts ?p [] all_sections" "p_size ?p = sz" "p_len ?p = 0" "p_namedict ?p = []"
    using packet_init_wf[of p sz h] obj sz0 by (auto simp: dns_packet_init_def Let_def)
  have "packet_holds S ?p [] []" using i sz by (simp add: packet_holds_def dict_ok_def)
  from add_all_holds[OF this _ inj i(2), of xs] obtain q rs where
    q: "add_all ?p xs = (0, q)" "packet_holds S q rs xs" "counts q rs all_sections"
    using ok room i by auto
  have rep: "rep q rs" "\<not> p_fault q" and ha: "holds_all (p_data q) (data_area 0 rs) 0 rs xs"
    using q(2) by (simp_all add: packet_holds_def packet_wf_def)
  have in_all: "s \<in> all_sections" if "s \<noteq> DNS_RRS_END" for s using that by (cases s) (auto simp: all_sections_def)
  have "snd (dns_get_rrs_start q s) = int (length (filter (\<lambda>x. x_sec x = s) xs))" if "s \<noteq> DNS_RRS_END" for s
    using start_count[OF rep(1) q(3) in_all[OF that]] holds_count[OF ha, of s] by simp
  moreover have "reads_back q raw_len (offsets s 0 rs) (filter (\<lambda>x. x_sec x = s) xs)" for s
    using holds_reads_back[OF ha _ rep(2) _ ok] rep(1) by (simp add: rep_def)
  ultimately show ?thesis using q(1) rep section_offsets[OF rep(1) _ q(3) in_all] by (auto simp: Let_def)
qed

section \<open>Property\<close>

text \<open>
  C3: raw records put into a packet with \<^verbatim>\<open>_dns_add_RAW\<close> are what \<^verbatim>\<open>_dns_get_RAW\<close> returns. In a packet prepared by
  \<^verbatim>\<open>dns_packet_init\<close>, any sequence of \<^verbatim>\<open>_dns_add_RAW\<close> calls on any mix of sections that has room
  succeeds; afterwards the counter of every section is the number of records added to it, and the counted loop
  over the section with \<^verbatim>\<open>_dns_get_RAW\<close> yields the owner names, the time-to-live values and the data
  that were added, in order, without a fault. Hypotheses: the names are valid, all their suffixes have distinct hashes
  (the names in the packet are compressed by hash), the data fits into the reader's buffer, the packet has room for all records, and it has at most
  16384 bytes, the reach of a compression pointer.
\<close>

theorem records_roundtrip:
  assumes "\<not> p_fault p" "sz - SIZEOF_DNS_PACKET \<le> int (length (p_data p))" "length (p_data p) \<le> 65535"
    and "sz - SIZEOF_DNS_PACKET \<le> 16384"
    and "\<forall>x\<in>set xs. spec_ok S x \<and> int (length (x_raw x)) \<le> raw_len" and "inj_on dict_hash S"
    and "int (specs_room xs) \<le> sz - SIZEOF_DNS_PACKET"
  shows "\<exists>q. add_all (snd (dns_packet_init p sz h)) xs = (0, q) \<and> \<not> p_fault q \<and>
     (\<forall>s. s \<noteq> DNS_RRS_END \<longrightarrow> (let ys = filter (\<lambda>x. x_sec x = s) xs in
        \<exists>offs. section_records q s = (offs, False) \<and> snd (dns_get_rrs_start q s) = int (length ys) \<and>
          reads_back q raw_len offs ys))"
  using assms by (rule add_all_reads_back)

text \<open>Two address records and one name server, whose names share a suffix.\<close>

definition sample_records :: "rr_spec list" where
  "sample_records =
     [\<lparr>x_sec = DNS_RRS_AN, x_type = 1, x_name = [[119], [97], [99]], x_ttl = 60, x_raw = [1, 2, 3, 4]\<rparr>,
      \<lparr>x_sec = DNS_RRS_NS, x_type = 16, x_name = [[97], [99]], x_ttl = 90, x_raw = [1, 65]\<rparr>,
      \<lparr>x_sec = DNS_RRS_AN, x_type = 1, x_name = [[98], [97], [99]], x_ttl = 60, x_raw = [5, 6, 7, 8]\<rparr>]"

theorem records_roundtrip_witness:
  "\<exists>q offs. add_all (snd (dns_packet_init (packet_object 300) 452 zero_head)) sample_records = (0, q) \<and>
     snd (dns_get_rrs_start q DNS_RRS_AN) = 2 \<and> section_records q DNS_RRS_AN = (offs, False) \<and>
     reads_back q 16 offs [sample_records ! 0, sample_records ! 2]"
proof -
  let ?S = "\<Union>ls\<in>set sample_names. suffix_texts ls"
  have ok: "\<forall>x\<in>set sample_records. spec_ok ?S x \<and> int (length (x_raw x)) \<le> 16"
    by (simp add: sample_records_def spec_ok_def valid_name_def valid_label_def sample_names_def suffix_texts_simps)
  have room: "specs_room sample_records \<le> 300" by code_simp
  from records_roundtrip[OF _ _ _ _ ok sample_names_hash, of "packet_object 300" 452 zero_head] obtain q offs where
    "add_all (snd (dns_packet_init (packet_object 300) 452 zero_head)) sample_records = (0, q)"
    "section_records q DNS_RRS_AN = (offs, False)"
    "snd (dns_get_rrs_start q DNS_RRS_AN) = int (length (filter (\<lambda>x. x_sec x = DNS_RRS_AN) sample_records))"
    "reads_back q 16 offs (filter (\<lambda>x. x_sec x = DNS_RRS_AN) sample_records)"
    using room by (auto simp: packet_object_def Let_def)
  moreover have "filter (\<lambda>x. x_sec x = DNS_RRS_AN) sample_records = [sample_records ! 0, sample_records ! 2]"
    by (simp add: sample_records_def)
  ultimately show ?thesis by auto
qed

section \<open>The loop over a section\<close>

text \<open>A body that is run on the records of a list, in order, until it fails.\<close>

fun run_each :: "(dns_context \<Rightarrow> dns_packet \<Rightarrow> nat \<Rightarrow> int \<times> dns_context) \<Rightarrow> dns_context \<Rightarrow> dns_packet \<Rightarrow> nat list \<Rightarrow> int \<times> dns_context" where
  "run_each f c p [] = (0, c)"
| "run_each f c p (rrs # xs) = (let (len, c) = f c p rrs in if len < 0 then (-1, c) else run_each f c p xs)"

lemma encode_rrs_run_each:
  "snd (rrs_loop p rrs n) = False \<Longrightarrow> dns_encode_rrs f c p rrs n = run_each f c p (fst (rrs_loop p rrs n))"
  by (induction f c p rrs n rule: dns_encode_rrs.induct) (auto simp: Let_def join_fault_def split: prod.splits)

text \<open>
  C15: the loop \<^verbatim>\<open>for (i = 0; i < count && rrs; i++, rrs = dns_get_rrs_next(packet, rrs))\<close> of the encoder, started with what
  \<^verbatim>\<open>dns_get_rrs_start\<close> returns, runs its body on exactly the records of the section, in the order in which they were added, until the body fails:
  neither \<^verbatim>\<open>count\<close> nor the chain of links cuts the section short or leads out of it or of the packet. Every position it visits is the start of a
  record with the type, length and data of the record that was added. Hypotheses: the packet represents a list of records and the counter of the section is right,
  which \<^verbatim>\<open>dns_packet_init\<close> establishes and every adder keeps.
\<close>

theorem section_loop_visits:
  assumes "rep p rs" "s \<noteq> DNS_RRS_END" "counts p rs {s}"
  shows "\<exists>offs. section_records p s = (offs, False) \<and> list_all2 (\<lambda>rrs r. \<exists>nxt. rr_at (p_data p) rrs r nxt) offs (in_sec s rs) \<and>
     (\<forall>f c. dns_encode_rrs f c p (fst (dns_get_rrs_start p s)) (nat (snd (dns_get_rrs_start p s))) = run_each f c p offs)"
proof -
  have s: "section_records p s = (offsets s 0 rs, False)" by (rule section_offsets[OF assms(1,2,3)]) simp
  have "dns_encode_rrs f c p (fst (dns_get_rrs_start p s)) (nat (snd (dns_get_rrs_start p s))) = run_each f c p (offsets s 0 rs)" for f c
    using encode_rrs_run_each[of p "fst (dns_get_rrs_start p s)" "nat (snd (dns_get_rrs_start p s))" f c] s
    by (simp add: section_records_def case_prod_beta)
  then show ?thesis using s offsets_rr_at[of "p_data p" 0 rs s] assms(1) by (auto simp: rep_def)
qed

text \<open>A packet with two records of eight bytes in the answer section.\<close>

definition two_answers :: dns_packet where
  "two_answers = snd (dns_rr_add_end (snd (dns_rr_add_end (snd (dns_packet_init (packet_object 64) 216 zero_head)) DNS_RRS_AN 1 8)) DNS_RRS_AN 28 8)"

lemma two_answers_rep: "\<exists>x y. rep two_answers [x, y] \<and> i_sec x = DNS_RRS_AN \<and> i_sec y = DNS_RRS_AN \<and> counts two_answers [x, y] {DNS_RRS_AN}"
proof -
  let ?p = "snd (dns_packet_init (packet_object 64) 216 zero_head)"
  have p: "rep ?p []" "counts ?p [] {DNS_RRS_AN}" "p_len ?p = 0" "p_size ?p = 216" "length (p_data ?p) = 64"
    using packet_init_wf[of "packet_object 64" 216 zero_head]
    by (auto simp: packet_object_def packet_wf_def counts_def all_sections_def dns_packet_init_def Let_def packet_write_def length_put_bytes)
  obtain q where q: "dns_rr_add_end ?p DNS_RRS_AN 1 8 = (0, q)" "rep q [\<lparr>i_sec = DNS_RRS_AN, i_type = 1, i_data = sub_bytes (p_data ?p) 16 8\<rparr>]"
    "p_size q = 216" "length (p_data q) = 64" "p_len q = 24" "counts q [\<lparr>i_sec = DNS_RRS_AN, i_type = 1, i_data = sub_bytes (p_data ?p) 16 8\<rparr>] {DNS_RRS_AN}"
    using dns_rr_add_end_rep[OF p(1), of DNS_RRS_AN 8 _ 1, OF _ _ _ refl] p by auto
  obtain u where "dns_rr_add_end q DNS_RRS_AN 28 8 = (0, u)"
    "rep u [\<lparr>i_sec = DNS_RRS_AN, i_type = 1, i_data = sub_bytes (p_data ?p) 16 8\<rparr>, \<lparr>i_sec = DNS_RRS_AN, i_type = 28, i_data = sub_bytes (p_data q) 40 8\<rparr>]"
    "counts u [\<lparr>i_sec = DNS_RRS_AN, i_type = 1, i_data = sub_bytes (p_data ?p) 16 8\<rparr>, \<lparr>i_sec = DNS_RRS_AN, i_type = 28, i_data = sub_bytes (p_data q) 40 8\<rparr>] {DNS_RRS_AN}"
    using dns_rr_add_end_rep[OF q(2), of DNS_RRS_AN 8 _ 28, OF _ _ _ refl] q by auto
  moreover have "two_answers = snd (dns_rr_add_end q DNS_RRS_AN 28 8)" using q(1) by (simp add: two_answers_def)
  ultimately show ?thesis by (metis rr_item.select_convs(1) snd_conv)
qed

theorem section_loop_visits_witness:
  "\<exists>i j x y. section_records two_answers DNS_RRS_AN = ([i, j], False) \<and>
     (\<exists>n. rr_at (p_data two_answers) i x n) \<and> (\<exists>n. rr_at (p_data two_answers) j y n)"
proof -
  obtain x y where r: "rep two_answers [x, y]" "counts two_answers [x, y] {DNS_RRS_AN}" "in_sec DNS_RRS_AN [x, y] = [x, y]"
    using two_answers_rep by (auto simp: in_sec_def)
  obtain offs where o: "section_records two_answers DNS_RRS_AN = (offs, False)"
    "list_all2 (\<lambda>rrs r. \<exists>nxt. rr_at (p_data two_answers) rrs r nxt) offs [x, y]"
    using section_loop_visits[OF r(1) _ r(2)] r(3) by auto
  then obtain i j where "offs = [i, j]" by (auto simp: list_all2_Cons2)
  then show ?thesis using o by auto
qed

end
