(* ===== verification/Dns_Read_Safe.thy ===== *)
theory Dns_Read_Safe
  imports Dns_Adders Dns_Decode
begin

text \<open>
  The parts of the decoder that read names, heads, record data and EDNS options, on arbitrary
  bytes: they stay inside the wire packet and only move the pointer, and what they add to the
  internal packet keeps its lists well formed.
\<close>

section \<open>Readers\<close>

text \<open>A reader moves the pointer and changes nothing else.\<close>

definition rd :: "dns_context \<Rightarrow> dns_context \<Rightarrow> bool" where
  "rd c c' \<longleftrightarrow> c_data c' = c_data c \<and> c_maxsize c' = c_maxsize c \<and> c_fault c' = c_fault c"

lemma rd_refl [simp, intro]: "rd c c"
  by (simp add: rd_def)

lemma rd_trans [trans]: "rd a b \<Longrightarrow> rd b c \<Longrightarrow> rd a c"
  by (simp add: rd_def)

lemma rd_ok: "rd c c' \<Longrightarrow> ctx_ok c \<Longrightarrow> ctx_ok c'"
  by (simp add: rd_def ctx_ok_def)

lemma rd_ptr [simp]: "rd c (c'\<lparr>c_ptr := x\<rparr>) = rd c c'" "rd (c\<lparr>c_ptr := x\<rparr>) c' = rd c c'"
  by (simp_all add: rd_def)

lemma left_room: "ctx_ok c \<Longrightarrow> int n \<le> dns_left_len c \<Longrightarrow> c_ptr c + n \<le> length (c_data c)"
  by (simp add: ctx_ok_def dns_left_len_def)

lemma read_raw_rd:
  "ctx_ok c \<Longrightarrow> int n \<le> dns_left_len c \<Longrightarrow> dns_read_raw c n = (bs, c') \<Longrightarrow> rd c c' \<and> length bs = n"
  using left_room[of c n] by (auto simp: buf_simps rd_def)

lemma decode_domain_rd:
  assumes "ctx_ok c" "dns_decode_domain c n = (ret, s, c')"
  shows "rd c c'" "ret = 0 \<or> ret = -1" "ret = 0 \<Longrightarrow> int (c_ptr c') \<le> c_maxsize c" "0 \<notin> set s"
  using assms get_domain_from_packet_safe[of "c_maxsize c" "c_data c" n "c_ptr c"]
  by (auto simp: dns_decode_domain_def rd_def ctx_ok_def loop_post_def split: prod.splits)

lemma decode_qr_head_rd:
  assumes ok: "ctx_ok c" and d: "dns_decode_qr_head c n = (ret, s, qt, qc, c')"
  shows "rd c c'"
proof -
  obtain r s1 c1 where e: "dns_decode_domain c n = (r, s1, c1)" by (metis prod_cases3)
  note rd1 = decode_domain_rd(1)[OF ok e]
  have "c_ptr c1 + 4 \<le> length (c_data c1)" if "4 \<le> dns_left_len c1"
    using left_room[OF rd_ok[OF rd1 ok], of 4] that by simp
  then show ?thesis
    using d rd1 by (auto simp: dns_decode_qr_head_def e buf_simps split: if_splits)
qed

lemma decode_rr_head_rd:
  assumes ok: "ctx_ok c" and d: "dns_decode_rr_head c n = (ret, s, qt, qc, ttl, rl, c')"
  shows "rd c c'" "ret = 0 \<Longrightarrow> 0 \<le> rl \<and> rl \<le> dns_left_len c'" "0 \<le> ret \<Longrightarrow> ret = 0"
proof (atomize (full))
  obtain r s1 qt1 qc1 c1 where e: "dns_decode_qr_head c n = (r, s1, qt1, qc1, c1)" by (metis prod_cases5)
  note rd1 = decode_qr_head_rd[OF ok e]
  have "c_ptr c1 + 6 \<le> length (c_data c1)" if "6 \<le> dns_left_len c1"
    using left_room[OF rd_ok[OF rd1 ok], of 6] that by simp
  then show "rd c c' \<and> (ret = 0 \<longrightarrow> 0 \<le> rl \<and> rl \<le> dns_left_len c') \<and> (0 \<le> ret \<longrightarrow> ret = 0)"
    using d rd1 by (auto simp: dns_decode_rr_head_def e buf_simps Let_def split: if_splits)
qed

lemma decode_raw_rd:
  "ctx_ok c \<Longrightarrow> dns_decode_raw c n = (ret, bs, c') \<Longrightarrow> rd c c' \<and> (0 \<le> ret \<longrightarrow> int (length bs) = n)"
  using read_raw_rd[of c "nat n"] by (auto simp: dns_decode_raw_def split: if_splits prod.splits)

lemma decode_CNAME_rd: "ctx_ok c \<Longrightarrow> dns_decode_CNAME c n = (ret, s, c') \<Longrightarrow> rd c c'"
  using decode_domain_rd(1)[of c n] by (auto simp: dns_decode_CNAME_def split: if_splits prod.splits)

lemma decode_SRV_rd:
  assumes ok: "ctx_ok c" and d: "dns_decode_SRV c n = (ret, pr, w, po, s, c')"
  shows "rd c c'"
proof (cases "dns_left_len c < 6")
  case True
  then show ?thesis using d by (simp add: dns_decode_SRV_def)
next
  case False
  have room: "c_ptr c + 6 \<le> length (c_data c)" using left_room[OF ok, of 6] False by simp
  let ?c = "c\<lparr>c_ptr := c_ptr c + 2 + 2 + 2\<rparr>"
  obtain r s1 c1 where e: "dns_decode_domain ?c n = (r, s1, c1)" by (metis prod_cases3)
  have "ctx_ok ?c" using ok by (simp add: ctx_ok_def)
  from decode_domain_rd(1)[OF this e] have "rd c c1" by (simp add: rd_def)
  then show ?thesis using d False room e by (auto simp: dns_decode_SRV_def buf_simps split: if_splits)
qed

lemma decode_SOA_rd:
  assumes ok: "ctx_ok c" and d: "dns_decode_SOA c = (ret, soa, c')"
  shows "rd c c'"
proof -
  obtain r1 s1 c1 where e1: "dns_decode_domain c 255 = (r1, s1, c1)" by (metis prod_cases3)
  obtain r2 s2 c2 where e2: "dns_decode_domain c1 255 = (r2, s2, c2)" by (metis prod_cases3)
  note rd1 = decode_domain_rd(1)[OF ok e1]
  note rd2 = rd_trans[OF rd1 decode_domain_rd(1)[OF rd_ok[OF rd1 ok] e2]]
  have "c_ptr c2 + 20 \<le> length (c_data c2)" if "20 \<le> dns_left_len c2"
    using left_room[OF rd_ok[OF rd2 ok], of 20] that by simp
  then show ?thesis
    using d rd1 rd2 by (auto simp: dns_decode_SOA_def e1 e2 buf_simps split: if_splits)
qed

section \<open>Options\<close>

text \<open>What the decoder of a part of a record may do to the context and the packet.\<close>

definition dec_post ::
  "dns_rr_type set \<Rightarrow> dns_context \<Rightarrow> dns_packet \<Rightarrow> rr_item list \<Rightarrow> int \<times> dns_context \<times> dns_packet \<Rightarrow> bool" where
  "dec_post S c p rs r \<longleftrightarrow>
     (case r of (ret, c', p') \<Rightarrow>
        rd c c' \<and> (ret = 0 \<or> ret = -1) \<and>
        (\<exists>new. grows p rs (rs @ new) p' \<and> i_sec ` set new \<subseteq> S))"

lemma dec_postI0: "packet_wf p rs \<Longrightarrow> rd c c' \<Longrightarrow> ret = 0 \<or> ret = -1 \<Longrightarrow> dec_post S c p rs (ret, c', p)"
  by (auto simp: dec_post_def intro!: exI[of _ "[]"] grows_refl)

lemma dec_postI1:
  "adds s p rs (r, p') \<Longrightarrow> rd c c' \<Longrightarrow> s \<in> S \<Longrightarrow> ret = 0 \<or> ret = -1 \<Longrightarrow> dec_post S c p rs (ret, c', p')"
  unfolding dec_post_def adds_def by (auto intro: exI[of _ "[]"] exI[of _ "[x]" for x])

lemma dec_post_trans:
  assumes "dec_post S c p rs (ret, c1, p1)" "\<And>rs1. packet_wf p1 rs1 \<Longrightarrow> dec_post S c1 p1 rs1 r"
  shows "dec_post S c p rs r"
proof -
  obtain new where new: "rd c c1" "grows p rs (rs @ new) p1" "i_sec ` set new \<subseteq> S"
    using assms(1) by (auto simp: dec_post_def)
  obtain ret' c2 p2 where r: "r = (ret', c2, p2)" by (cases r)
  from assms(2)[OF grows_wf[OF new(2)]] r obtain new2 where n2: "rd c1 c2" "ret' = 0 \<or> ret' = -1"
    "grows p1 (rs @ new) (rs @ new @ new2) p2" "i_sec ` set new2 \<subseteq> S"
    by (auto simp: dec_post_def)
  then show ?thesis
    using new rd_trans[OF new(1) n2(1)] grows_trans[OF new(2) n2(3)] unfolding r dec_post_def
    by (auto simp: image_subset_iff intro!: exI[of _ "new @ new2"])
qed

lemma dec_post_fail: "dec_post S c p rs (ret, c', p') \<Longrightarrow> dec_post S c p rs (-1, c', p')"
  by (auto simp: dec_post_def)

lemma decode_opt_ecs_rd:
  assumes ok: "ctx_ok c" and left: "n \<le> dns_left_len c" and d: "dns_decode_opt_ecs c n = (ret, ecs, c')"
  shows "rd c c'" "ret = 0 \<Longrightarrow> ecs_prefix_len (e_source_prefix ecs) \<le> length (e_addr ecs)"
proof (atomize (full), cases "n < 4")
  case True
  then show "rd c c' \<and> (ret = 0 \<longrightarrow> ecs_prefix_len (e_source_prefix ecs) \<le> length (e_addr ecs))"
    using d by (auto simp: dns_decode_opt_ecs_def)
next
  case False
  have room: "c_ptr c + 4 \<le> length (c_data c)" using left_room[OF ok, of 4] left False by simp
  let ?c = "c\<lparr>c_ptr := c_ptr c + 2 + 1 + 1\<rparr>"
  have ok': "ctx_ok ?c" using ok by (simp add: ctx_ok_def)
  let ?l = "ecs_prefix_len (c_data c ! (c_ptr c + 2))"
  have "c_ptr c + 4 + ?l \<le> length (c_data c)" if "int ?l \<le> dns_left_len ?c"
    using left_room[OF ok' that] by simp
  then show "rd c c' \<and> (ret = 0 \<longrightarrow> ecs_prefix_len (e_source_prefix ecs) \<le> length (e_addr ecs))"
    using d False room
    by (auto simp: dns_decode_opt_ecs_def buf_simps Let_def length_put_bytes split: if_splits)
qed

lemma decode_opt_cookie_rd:
  assumes ok: "ctx_ok c" and left: "n \<le> dns_left_len c" and d: "dns_decode_opt_cookie c n = (ret, c')"
  shows "rd c c' \<and> (ret = 0 \<or> ret = -1)"
proof (cases "n < 8")
  case True
  then show ?thesis using d by (simp add: dns_decode_opt_cookie_def)
next
  case False
  have "c_ptr c + nat n \<le> length (c_data c)" using left_room[OF ok, of "nat n"] left False by simp
  then show ?thesis
    using d False by (auto simp: dns_decode_opt_cookie_def buf_simps Let_def split: if_splits)
qed

lemma decode_opt_keepalive_rd:
  assumes "ctx_ok c" "n \<le> dns_left_len c" "0 \<le> n" "dns_decode_opt_tcp_keepalive c n = (ret, t, c')"
  shows "rd c c' \<and> (ret = 0 \<or> ret = -1)"
  using assms left_room[OF assms(1), of "nat n"]
  by (auto simp: dns_decode_opt_tcp_keepalive_def buf_simps split: if_splits)

lemma decode_opt_item_post:
  assumes ok: "ctx_ok c" and wf: "packet_wf p rs" and left: "n \<le> dns_left_len c" "0 \<le> n"
  shows "dec_post {DNS_RRS_OPT} c p rs (dns_decode_opt_item c p code n)"
proof -
  consider "code = 8" | "code = 10" | "code = 11" | "code \<notin> {8, 10, 11}" by auto
  then show ?thesis
  proof cases
    case 1
    obtain r ecs c1 where e: "dns_decode_opt_ecs c n = (r, ecs, c1)" by (metis prod_cases3)
    note rd1 = decode_opt_ecs_rd[OF ok left(1) e]
    obtain r2 p2 where e2: "dns_add_OPT_ECS p ecs = (r2, p2)" by fastforce
    have "adds DNS_RRS_OPT p rs (r2, p2)" if "r = 0"
      using dns_add_OPT_ECS_adds[OF wf, of ecs] rd1(2)[OF that] by (simp add: e2)
    then show ?thesis
      using 1 rd1(1) wf by (auto simp: dns_decode_opt_item_def e e2 intro: dec_postI0 dec_postI1)
  next
    case 2
    obtain r c1 where e: "dns_decode_opt_cookie c n = (r, c1)" by fastforce
    then show ?thesis
      using 2 decode_opt_cookie_rd[OF ok left(1) e] wf by (auto simp: dns_decode_opt_item_def intro: dec_postI0)
  next
    case 3
    obtain r t c1 where e: "dns_decode_opt_tcp_keepalive c n = (r, t, c1)" by (metis prod_cases3)
    obtain r2 p2 where e2: "dns_add_OPT_TCP_KEEPALIVE p t = (r2, p2)" by fastforce
    have "adds DNS_RRS_OPT p rs (r2, p2)" using add_keepalive.add_adds[OF wf, of t] by (simp add: e2)
    then show ?thesis
      using 3 decode_opt_keepalive_rd[OF ok left e] wf
      by (auto simp: dns_decode_opt_item_def e e2 intro: dec_postI0 dec_postI1)
  next
    case 4
    then show ?thesis using wf by (auto simp: dns_decode_opt_item_def intro: dec_postI0)
  qed
qed

lemma decode_opt_loop_post:
  assumes "ctx_ok c" "packet_wf p rs"
  shows "dec_post {DNS_RRS_OPT} c p rs (dns_decode_opt_loop c p start rr_len)"
  using assms
proof (induction c p start rr_len arbitrary: rs rule: dns_decode_opt_loop.induct)
  case (1 c p start rr_len)
  show ?case
  proof (cases "int (c_ptr c) - int start < rr_len \<and> 4 \<le> dns_left_len c")
    case False
    then show ?thesis using 1 by (subst dns_decode_opt_loop.simps) (auto intro: dec_postI0)
  next
    case go: True
    have room: "c_ptr c + 4 \<le> length (c_data c)" using left_room[OF 1(2), of 4] go by simp
    obtain code c1 where e1: "dns_read_short c = (code, c1)" by fastforce
    obtain len c2 where e2: "dns_read_short c1 = (len, c2)" by fastforce
    have rd2: "rd c c2" using e1 e2 room by (auto simp: buf_simps rd_def)
    obtain r c3 p3 where e3: "dns_decode_opt_item c2 p (uint code) (uint len) = (r, c3, p3)" by (metis prod_cases3)
    have ok2: "ctx_ok c2" by (rule rd_ok[OF rd2 1(2)])
    show ?thesis
    proof (cases "dns_left_len c2 < uint len")
      case True
      then show ?thesis
        using go 1(3) rd2 by (subst dns_decode_opt_loop.simps) (simp add: e1 e2 dec_postI0)
    next
      case False
      have "dec_post {DNS_RRS_OPT} c2 p rs (r, c3, p3)"
        using decode_opt_item_post[OF ok2 1(3), of "uint len" "uint code"] False by (simp add: e3)
      then have post: "dec_post {DNS_RRS_OPT} c p rs (r, c3, p3)"
        using rd2 by (auto simp: dec_post_def intro: rd_trans)
      show ?thesis
      proof (cases "r \<noteq> 0")
        case True
        then show ?thesis
          using go False dec_post_fail[OF post] by (subst dns_decode_opt_loop.simps) (simp add: e1 e2 e3)
      next
        case r0: False
        have ok3: "ctx_ok c3" using post 1(2) by (auto simp: dec_post_def intro: rd_ok)
        have "dns_decode_opt_loop c p start rr_len = dns_decode_opt_loop c3 p3 start rr_len"
          using go False r0 by (subst dns_decode_opt_loop.simps) (simp add: e1 e2 e3)
        then show ?thesis
          using dec_post_trans[OF post] 1(1)[OF _ _ e1[symmetric] refl e2[symmetric] refl _ e3[symmetric] refl] go False r0 ok3
          by simp
      qed
    qed
  qed
qed

lemma decode_opt_post:
  assumes "ctx_ok c" "packet_wf p rs"
  shows "dec_post {DNS_RRS_OPT} c p rs (dns_decode_opt c p ttl rr_len)"
  using assms decode_opt_loop_post[OF assms] by (simp add: dns_decode_opt_def Let_def dec_postI0)

end
