(* ===== verification/Dns_Nested_Safe.thy ===== *)
theory Dns_Nested_Safe
  imports Dns_Read_Safe
begin

text \<open>
  Records that are built in pieces: every write of the functions for nested records lies behind
  the last record of the packet, also when the start of the record failed and the code goes on.
\<close>

section \<open>Nested records\<close>

text \<open>
  A nested record in progress: its pointers are behind the last record of the packet, or its
  context is the zeroed one.
\<close>

definition nested_inv :: "dns_rr_type \<Rightarrow> dns_rr_nested \<Rightarrow> dns_packet \<Rightarrow> rr_item list \<Rightarrow> bool" where
  "nested_inv s n p rs \<longleftrightarrow>
     packet_wf p rs \<and> n_type n = s \<and> n_maxsize n \<le> int (length (p_data p)) \<and>
     (n_maxsize n = 0 \<and> n_ptr n = 0 \<and> n_rr_start n = None \<or>
      p_len p + 16 \<le> n_ptr n \<and> n_rr_start n = Some (p_len p + 16)) \<and>
     (\<forall>y. n_rr_len_ptr n = Some y \<longrightarrow> p_len p + 16 \<le> y \<and> y + 2 \<le> length (p_data p))"

lemma nested_context_sel [simp]:
  "c_ptr (nested_context n p) = n_ptr n" "c_data (nested_context n p) = p_data p"
  "c_fault (nested_context n p) = p_fault p" "c_maxsize (nested_context n p) = n_maxsize n"
  by (simp_all add: nested_context_def)

lemma nested_inv_ok: "nested_inv s n p rs \<Longrightarrow> ctx_ok (nested_context n p)"
  by (auto simp: nested_inv_def ctx_ok_def packet_wf_def)

lemma grows_len: "grows p rs rs q \<Longrightarrow> packet_wf p rs \<Longrightarrow> p_len q = p_len p"
  by (simp add: grows_def packet_wf_def rep_def)

lemma nested_inv_write:
  assumes inv: "nested_inv s n p rs" and left: "int (length bs) \<le> dns_left_len (nested_context n p)"
    and bs: "bs \<noteq> []" and c: "c = dns_write_raw (nested_context n p) bs"
  shows "nested_inv s (n\<lparr>n_ptr := c_ptr c\<rparr>) (packet_of_context p c) rs" "grows p rs rs (packet_of_context p c)"
    "nested_context (n\<lparr>n_ptr := c_ptr c\<rparr>) (packet_of_context p c) = c"
proof -
  have wf: "packet_wf p rs" using inv by (simp add: nested_inv_def)
  have ptr: "p_len p + 16 \<le> n_ptr n"
    using inv left bs by (auto simp: nested_inv_def dns_left_len_def)
  have f: "enc_frame (p_len p + 16) (nested_context n p) c"
    unfolding c using fits_left[OF nested_inv_ok[OF inv] left] ptr by (intro write_raw_frame) auto
  show g: "grows p rs rs (packet_of_context p c)" by (rule enc_frame_packet[OF wf f]) simp_all
  show "nested_inv s (n\<lparr>n_ptr := c_ptr c\<rparr>) (packet_of_context p c) rs"
    using inv ptr f grows_wf[OF g] by (auto simp: nested_inv_def enc_frame_def)
  show "nested_context (n\<lparr>n_ptr := c_ptr c\<rparr>) (packet_of_context p c) = c"
    using c by (simp add: nested_context_def packet_of_context_def dns_write_raw_def write_bytes_def)
qed

text \<open>The pad byte that the code writes to keep the pointer even.\<close>

lemma nested_pad:
  assumes inv: "nested_inv s n p rs" and c: "nested_context n p = c" and left: "1 \<le> dns_left_len c"
  shows "nested_inv s (n\<lparr>n_ptr := c_ptr (dns_write_char c 0)\<rparr>) (packet_of_context p (dns_write_char c 0)) rs"
    "grows p rs rs (packet_of_context p (dns_write_char c 0))"
  using nested_inv_write(1,2)[OF inv, of "[0]", OF _ _ refl] left unfolding c write_char_raw by simp_all

definition nested_post ::
  "dns_rr_type \<Rightarrow> dns_packet \<Rightarrow> rr_item list \<Rightarrow> int \<times> dns_rr_nested \<times> dns_packet \<Rightarrow> bool" where
  "nested_post s p rs r \<longleftrightarrow> (case r of (ret, n', p') \<Rightarrow> nested_inv s n' p' rs \<and> grows p rs rs p')"

lemma nested_post_refl: "nested_inv s n p rs \<Longrightarrow> nested_post s p rs (ret, n, p)"
  by (auto simp: nested_post_def nested_inv_def intro: grows_refl)

lemma nested_post_trans:
  "grows p rs rs p1 \<Longrightarrow> nested_post s p1 rs r \<Longrightarrow> nested_post s p rs r"
  by (auto simp: nested_post_def intro: grows_trans)

lemma nested_memcpy_post:
  assumes inv: "nested_inv s n p rs" and src: "nat len \<le> length data"
  shows "nested_post s p rs (dns_add_rr_nested_memcpy n p data len)"
proof (cases "len \<le> 0 \<or> dns_left_len (nested_context n p) < len \<or> \<not> is_aligned p (n_ptr n) 2")
  case True
  then show ?thesis using nested_post_refl[OF inv] by (auto simp: dns_add_rr_nested_memcpy_def)
next
  case False
  let ?bs = "take (nat len) data"
  have lb: "int (length ?bs) = len" "?bs \<noteq> []" using False src by auto
  define c where "c = dns_write_raw (nested_context n p) ?bs"
  define n1 where "n1 = n\<lparr>n_ptr := c_ptr c\<rparr>"
  define p1 where "p1 = packet_of_context p c"
  have w: "nested_inv s n1 p1 rs" "grows p rs rs p1" "nested_context n1 p1 = c"
    using nested_inv_write[OF inv, of ?bs c] False lb c_def unfolding n1_def p1_def by auto
  have eq: "dns_add_rr_nested_memcpy n p data len =
    (if \<not> is_aligned p1 (n_ptr n1) 2 then
       (if dns_left_len c < 1 then (-1, n1, p1)
        else (0, n1\<lparr>n_ptr := c_ptr (dns_write_char c 0)\<rparr>, packet_of_context p1 (dns_write_char c 0)))
     else (0, n1, p1))"
    using False src by (simp add: dns_add_rr_nested_memcpy_def dns_copy_def c_def[symmetric] n1_def p1_def Let_def)
  show ?thesis
  proof (cases "\<not> is_aligned p1 (n_ptr n1) 2 \<and> 1 \<le> dns_left_len c")
    case True
    then show ?thesis
      using nested_pad[OF w(1,3)] w(2) by (auto simp: eq nested_post_def intro: grows_trans)
  next
    case False
    then show ?thesis using w(1,2) by (auto simp: eq nested_post_def)
  qed
qed

lemma nested_copies_post:
  assumes "nested_inv s n p rs" "\<forall>(d, l) \<in> set ds. nat l \<le> length d"
  shows "nested_post s p rs (nested_copies n p ds)"
  using assms
proof (induction n p ds rule: nested_copies.induct)
  case (1 n p)
  then show ?case by (simp add: nested_post_refl)
next
  case (2 n p d l ds)
  obtain r n1 p1 where e: "dns_add_rr_nested_memcpy n p d l = (r, n1, p1)" by (metis prod_cases3)
  have post: "nested_post s p rs (r, n1, p1)" using nested_memcpy_post[OF 2(2), of l d] 2(3) by (simp add: e)
  then have inv: "nested_inv s n1 p1 rs" "grows p rs rs p1" by (auto simp: nested_post_def)
  show ?case
  proof (cases "r = 0")
    case True
    then show ?thesis
      using 2(1)[OF e[symmetric] refl refl _ inv(1)] 2(3) nested_post_trans[OF inv(2)] by (simp add: e)
  next
    case False
    then show ?thesis using inv by (simp add: e nested_post_def)
  qed
qed

lemma svcb_add_raw_post:
  assumes "nested_inv s n p rs" "unat len \<le> length val"
  shows "nested_post s p rs (dns_SVCB_add_raw n p key val len)"
proof -
  have "\<forall>(d, l) \<in> set [(le16 key, 2), (le16 len, 2), (val, uint len)]. nat l \<le> length d"
    using assms(2) by simp
  from nested_copies_post[OF assms(1) this] show ?thesis
    using nested_post_refl[OF assms(1)] by (simp add: dns_SVCB_add_raw_def del: nested_copies.simps)
qed

lemma nested_start_post:
  assumes wf: "packet_wf p rs"
  shows "case dns_add_rr_nested_start p s t domain ttl of (ok, n, q) \<Rightarrow>
     nested_inv s n q rs \<and> grows p rs rs q"
proof -
  let ?n0 = "\<lparr>n_ptr = 0, n_maxsize = 0, n_rr_start = None, n_rr_len_ptr = None, n_rr_head_len = 0,
    n_type = s, n_rtype = t\<rparr>"
  show ?thesis
  proof (cases "p_size p \<le> int (p_len p + 16)")
    case True
    then show ?thesis
      using wf by (auto simp: dns_add_rr_nested_start_def dns_add_rrs_start_def Let_def nested_inv_def intro: grows_refl)
  next
    case False
    obtain len c where h: "dns_add_rr_head (packet_context p) domain t DNS_C_IN ttl 0 = (len, c)" by fastforce
    have post: "enc_post (p_len p + 16) (packet_context p) 0 (len, c)"
      using add_rr_head_post[OF packet_context_ok[OF wf], of domain t DNS_C_IN ttl 0] by (simp add: h)
    have f: "enc_frame (p_len p + 16) (packet_context p) c" using post by (simp add: enc_post_def)
    have g: "grows p rs rs (packet_of_context p c)" by (rule enc_frame_packet[OF wf f]) simp_all
    have ptr: "p_len p + 16 \<le> c_ptr c" using f by (simp add: enc_frame_def)
    have hd: "p_len p + 16 + 2 \<le> c_ptr c \<and> c_ptr c \<le> length (p_data p)" if "0 \<le> len"
    proof -
      have "2 \<le> len" using h that encode_domain_post[OF packet_context_ok[OF wf], of domain]
        by (auto simp: dns_add_rr_head_def dns_add_qr_head_def enc_post_def Let_def split: prod.splits if_splits)
      then show ?thesis using post wf by (auto simp: enc_post_def packet_wf_def)
    qed
    have w: "packet_wf p rs" "p_size p - SIZEOF_DNS_PACKET \<le> int (length (p_data p))"
      using wf by (auto simp: packet_wf_def)
    show ?thesis
      using False g ptr hd w f grows_wf[OF g]
      by (auto simp: dns_add_rr_nested_start_def dns_add_rrs_start_def Let_def h nested_inv_def enc_frame_def
          split: if_splits)
  qed
qed

lemma svcb_start_post:
  assumes wf: "packet_wf p rs"
  shows "nested_post s p rs (dns_add_SVCB_HTTPS_start p s t domain ttl prio target)"
proof -
  obtain ok n q where e: "dns_add_rr_nested_start p s t domain ttl = (ok, n, q)" by (metis prod_cases3)
  have st: "nested_inv s n q rs" "grows p rs rs q" using nested_start_post[OF wf, of s t domain ttl] by (auto simp: e)
  define tg where "tg = (if target \<noteq> [] \<and> hd target = 46 then [] else target)"
  define bs where "bs = be16 (of_int prio) @ take (strnlen tg 256) tg @ [0]"
  have lb: "length bs = 2 + (strnlen tg 256 + 1)" by (simp add: bs_def strnlen_def)
  show ?thesis
  proof (cases "ok \<and> 2 + int (strnlen tg 256 + 1) \<le> dns_left_len (nested_context n q)")
    case False
    then show ?thesis
      using st nested_post_refl[OF st(1)] by (auto simp: dns_add_SVCB_HTTPS_start_def e Let_def tg_def nested_post_def)
  next
    case True
    define c where "c = dns_write_raw (nested_context n q) bs"
    define n1 where "n1 = n\<lparr>n_ptr := c_ptr c\<rparr>"
    define p1 where "p1 = packet_of_context q c"
    have left: "int (length bs) \<le> dns_left_len (nested_context n q)" using True lb by simp
    have "bs \<noteq> []" by (simp add: bs_def)
    from nested_inv_write[OF st(1) left this c_def]
    have w: "nested_inv s n1 p1 rs" "grows q rs rs p1" "nested_context n1 p1 = c" by (simp_all add: n1_def p1_def)
    have "fits (nested_context n q) (length bs)" using nested_inv_ok[OF st(1)] left by (rule fits_left)
    then have c2: "dns_write_raw (dns_write_short (nested_context n q) (of_int prio)) (take (strnlen tg 256) tg @ [0]) = c"
      by (simp add: c_def bs_def write_raws write_raw_append)
    have eq: "dns_add_SVCB_HTTPS_start p s t domain ttl prio target =
      (if \<not> is_aligned p1 (n_ptr n1) 2 then
         (if dns_left_len c < 1 then (-1, n1, p1)
          else (0, n1\<lparr>n_ptr := c_ptr (dns_write_char c 0)\<rparr>, packet_of_context p1 (dns_write_char c 0)))
       else (0, n1, p1))"
      using True c2 by (simp add: dns_add_SVCB_HTTPS_start_def e Let_def tg_def[symmetric] n1_def p1_def del: write_raw_sel)
    have "grows p rs rs p1" by (rule grows_trans[OF st(2) w(2)])
    then show ?thesis
      using nested_pad[OF w(1,3)] w by (auto simp: eq nested_post_def intro: grows_trans)
  qed
qed

text \<open>Ending a nested record: it is committed, or it was so short that nothing is, or the end fails.\<close>

definition ends :: "dns_rr_type \<Rightarrow> dns_rr_nested \<Rightarrow> dns_packet \<Rightarrow> rr_item list \<Rightarrow> int \<times> dns_rr_nested \<times> dns_packet \<Rightarrow> bool" where
  "ends s n p rs res \<longleftrightarrow> (case res of (ret, n', q) \<Rightarrow>
     adds s p rs (ret, q) \<or>
     (ret = 0 \<and> q = p \<and> (\<exists>rr_start. n_rr_start n = Some rr_start \<and> int (n_ptr n) - int rr_start \<le> 14)))"

lemma nested_end_ends:
  assumes inv: "nested_inv s n p rs"
  shows "ends s n p rs (dns_add_rr_nested_end n p)"
proof -
  have wf: "packet_wf p rs" using inv by (simp add: nested_inv_def)
  show ?thesis
  proof (cases "n_rr_start n = None \<or> n_rr_len_ptr n = None \<or> dns_left_len (nested_context n p) < 2 \<or>
      int (n_ptr n) - int (the (n_rr_start n)) \<le> 14")
    case True
    then show ?thesis using adds_fail[OF grows_refl[OF wf]]
      by (auto simp: dns_add_rr_nested_end_def Let_def ends_def split: option.splits)
  next
    case False
    then obtain x y where x: "n_rr_start n = Some x" and y: "n_rr_len_ptr n = Some y" by auto
    have xy: "x = p_len p + 16" "p_len p + 16 \<le> y" "y + 2 \<le> length (p_data p)" "x \<le> n_ptr n" "n_type n = s"
      using inv x y by (auto simp: nested_inv_def)
    let ?bs = "be16 (of_int (int (n_ptr n) - int x - uint (n_rr_head_len n)))"
    let ?p1 = "packet_write p y ?bs"
    have f: "enc_frame (p_len p + 16) (packet_context p) (write_bytes (packet_context p) y ?bs)"
      using xy by (intro enc_frame_write) simp_all
    have "packet_of_context p (write_bytes (packet_context p) y ?bs) = ?p1"
      using xy by (simp add: packet_of_context_def packet_write_def write_bytes_def)
    then have g: "grows p rs rs ?p1" using enc_frame_packet[OF wf f] by simp
    have "adds s ?p1 rs (dns_rr_add_end ?p1 s (n_rtype n) (int (n_ptr n - x)))"
      by (rule rr_add_end_adds[OF grows_wf[OF g]])
    then have "adds s p rs (dns_rr_add_end ?p1 s (n_rtype n) (int (n_ptr n) - int x))"
      using adds_trans[OF g] xy(4) by (simp add: of_nat_diff)
    then show ?thesis
      using False x y xy(5) by (auto simp: dns_add_rr_nested_end_def Let_def ends_def split: prod.splits)
  qed
qed

lemma nested_end_adds:
  assumes inv: "nested_inv s n p rs"
  shows "case dns_add_rr_nested_end n p of (ret, n', q) \<Rightarrow>
     \<exists>new. grows p rs (rs @ new) q \<and> i_sec ` set new \<subseteq> {s}"
proof -
  have "grows p rs rs p" using inv by (simp add: nested_inv_def grows_refl)
  then show ?thesis using nested_end_ends[OF inv]
    by (auto simp: ends_def adds_def intro: exI[of _ "[]"] exI[of _ "[r]" for r])
qed

section \<open>A whole SVCB or HTTPS record\<close>

text \<open>The calls between the start and the end of the record.\<close>

datatype svc_call =
    Svc_raw u16 bytes u16
  | Svc_port u16
  | Svc_alpn bytes int
  | Svc_no_default_alpn
  | Svc_ech bytes int
  | Svc_ipv4hint "bytes list"
  | Svc_ipv6hint "bytes list"

fun svc_exec :: "svc_call \<Rightarrow> dns_rr_nested \<Rightarrow> dns_packet \<Rightarrow> int \<times> dns_rr_nested \<times> dns_packet" where
  "svc_exec (Svc_raw key val len) n p = dns_SVCB_add_raw n p key val len"
| "svc_exec (Svc_port port) n p = dns_SVCB_add_port n p port"
| "svc_exec (Svc_alpn alpn len) n p = dns_SVCB_add_alpn n p alpn len"
| "svc_exec Svc_no_default_alpn n p = dns_SVCB_add_no_default_alpn n p"
| "svc_exec (Svc_ech ech len) n p = dns_SVCB_add_ech n p ech len"
| "svc_exec (Svc_ipv4hint addr) n p = dns_SVCB_add_ipv4hint n p addr"
| "svc_exec (Svc_ipv6hint addr) n p = dns_SVCB_add_ipv6hint n p addr"

text \<open>The lengths that are given do not exceed what they describe.\<close>

fun svc_ok :: "svc_call \<Rightarrow> bool" where
  "svc_ok (Svc_raw key val len) \<longleftrightarrow> unat len \<le> length val"
| "svc_ok (Svc_alpn alpn len) \<longleftrightarrow> nat len \<le> length alpn"
| "svc_ok (Svc_ech ech len) \<longleftrightarrow> nat len \<le> length ech"
| "svc_ok (Svc_ipv4hint addr) \<longleftrightarrow> (\<forall>a\<in>set addr. 4 \<le> length a)"
| "svc_ok (Svc_ipv6hint addr) \<longleftrightarrow> (\<forall>a\<in>set addr. 16 \<le> length a)"
| "svc_ok _ \<longleftrightarrow> True"

text \<open>Any sequence of calls, whatever they return.\<close>

fun svc_calls :: "svc_call list \<Rightarrow> dns_rr_nested \<Rightarrow> dns_packet \<Rightarrow> dns_rr_nested \<times> dns_packet" where
  "svc_calls [] n p = (n, p)"
| "svc_calls (c # cs) n p = (let (ret, n, p) = svc_exec c n p in svc_calls cs n p)"

lemma svc_exec_post:
  assumes "nested_inv s n p rs" "svc_ok c"
  shows "nested_post s p rs (svc_exec c n p)"
  using assms(2) by (cases c) (auto simp: dns_SVCB_add_raw_def dns_SVCB_add_port_def dns_SVCB_add_alpn_def dns_SVCB_add_no_default_alpn_def
      dns_SVCB_add_ech_def dns_SVCB_add_ipv4hint_def dns_SVCB_add_ipv6hint_def Let_def simp del: nested_copies.simps
      intro!: nested_post_refl[OF assms(1)] nested_copies_post[OF assms(1)])

lemma svc_calls_post:
  "nested_inv s n p rs \<Longrightarrow> list_all svc_ok cs \<Longrightarrow> svc_calls cs n p = (n', p') \<Longrightarrow> nested_inv s n' p' rs \<and> grows p rs rs p'"
proof (induction cs arbitrary: n p)
  case Nil
  then show ?case by (auto simp: nested_inv_def intro: grows_refl)
next
  case (Cons c cs)
  obtain ret n1 p1 where c: "svc_exec c n p = (ret, n1, p1)" by (metis prod_cases3)
  then have "nested_inv s n1 p1 rs" "grows p rs rs p1" using svc_exec_post[OF Cons.prems(1), of c] Cons.prems(2) by (auto simp: nested_post_def)
  then show ?case using Cons.IH[of n1 p1] Cons.prems(2,3) c by (auto intro: grows_trans)
qed

text \<open>
  C17: SVCB and HTTPS records, which are built piece by piece, keep the packet well formed too. After the start of the record (which may fail), any sequence
  of parameter calls with any results and the end of the record, the packet is well formed and inside its object, and the records that it held are unchanged. The end
  returns 0 and the record was appended to its section; or it returns 0 and appended nothing, because the record has at most 14 bytes; or it returns -1 and appended
  nothing. Hypotheses: the packet is well formed at the start, and the lengths given to the parameter calls do not exceed the data they are given.
\<close>

theorem svcb_record_adds:
  assumes wf: "packet_wf p rs" and ok: "list_all svc_ok cs"
    and start: "dns_add_SVCB_HTTPS_start p s t domain ttl prio target = (ret, n, p1)" and calls: "svc_calls cs n p1 = (n2, p2)"
  shows "grows p rs rs p2 \<and> ends s n2 p2 rs (dns_add_SVCB_end n2 p2)"
proof -
  have s: "nested_inv s n p1 rs" "grows p rs rs p1" using svcb_start_post[OF wf, of s t domain ttl prio target] start by (auto simp: nested_post_def)
  have c: "nested_inv s n2 p2 rs" "grows p1 rs rs p2" using svc_calls_post[OF s(1) ok calls] by auto
  show ?thesis using grows_trans[OF s(2) c(2)] nested_end_ends[OF c(1)] by (simp add: dns_add_SVCB_end_def)
qed

text \<open>An HTTPS record with a port, in an empty packet.\<close>

definition https_start :: "int \<times> dns_rr_nested \<times> dns_packet" where
  "https_start = dns_add_SVCB_HTTPS_start (snd (dns_packet_init (packet_object 100) 252 zero_head)) DNS_RRS_AN DNS_T_HTTPS [97] 60 1 []"

definition https_port :: "dns_rr_nested \<times> dns_packet" where
  "https_port = svc_calls [Svc_port 443] (fst (snd https_start)) (snd (snd https_start))"

theorem svcb_record_adds_witness:
  "fst https_start = 0 \<and> n_ptr (fst https_port) = 38 \<and> ends DNS_RRS_AN (fst https_port) (snd https_port) [] (dns_add_SVCB_end (fst https_port) (snd https_port))"
proof -
  have wf: "packet_wf (snd (dns_packet_init (packet_object 100) 252 zero_head)) []"
    using packet_init_wf[of "packet_object 100" 252 zero_head] by (simp add: packet_object_def)
  have "fst https_start = 0" "n_ptr (fst https_port) = 38" by code_simp+
  moreover have "ends DNS_RRS_AN (fst https_port) (snd https_port) [] (dns_add_SVCB_end (fst https_port) (snd https_port))"
    using svcb_record_adds[OF wf _ _ prod.collapse[symmetric], of "[Svc_port 443]" DNS_RRS_AN DNS_T_HTTPS "[97]" 60 1 "[]" "fst https_start" "fst (snd https_start)"
        "snd (snd https_start)", folded https_start_def https_port_def] by simp
  ultimately show ?thesis by blast
qed

end
