(* ===== verification/Dns_Decode_Safe.thy ===== *)
theory Dns_Decode_Safe
  imports Dns_Nested_Safe
begin

text \<open>
  The decoder on arbitrary bytes: it never leaves the wire packet nor the internal packet, the
  internal packet's lists stay well formed, and after success the section counters are the lengths
  of the lists. \<open>wire_decoder\<close> is the contract of the decoder of one record, from which the loops
  over the sections are handled once.
\<close>

section \<open>SVCB and HTTPS records\<close>

lemma svc_loop_post:
  assumes "ctx_ok c" "nested_inv s n p rs"
  shows "case dns_decode_svc_loop c n p start rr_len of (ret, c', n', p') \<Rightarrow>
     rd c c' \<and> (ret = 0 \<or> ret = -1) \<and> nested_inv s n' p' rs \<and> grows p rs rs p'"
  using assms
proof (induction c n p start rr_len rule: dns_decode_svc_loop.induct)
  case (1 c n p start rr_len)
  have wf: "packet_wf p rs" using 1(4) by (simp add: nested_inv_def)
  show ?case
  proof (cases "int (c_ptr c) - int start < rr_len \<and> 4 \<le> dns_left_len c")
    case False
    then show ?thesis using 1(4) wf by (subst dns_decode_svc_loop.simps) (auto intro: grows_refl)
  next
    case go: True
    have room: "c_ptr c + 4 \<le> length (c_data c)" using left_room[OF 1(3), of 4] go by simp
    obtain key c1 where e1: "dns_read_short c = (key, c1)" by fastforce
    obtain len c2 where e2: "dns_read_short c1 = (len, c2)" by fastforce
    have rd2: "rd c c2" using e1 e2 room by (auto simp: buf_simps rd_def)
    have ok2: "ctx_ok c2" by (rule rd_ok[OF rd2 1(3)])
    consider "dns_left_len c2 < uint len" | "uint len \<le> dns_left_len c2" "svcparam_known key"
      | "uint len \<le> dns_left_len c2" "\<not> svcparam_known key" by linarith
    then show ?thesis
    proof cases
      case 1
      then show ?thesis
        using go rd2 \<open>nested_inv s n p rs\<close> grows_refl[OF wf]
        by (subst dns_decode_svc_loop.simps) (simp add: e1 e2)
    next
      case 2
      obtain val c3 where e3: "dns_read_raw c2 (unat len) = (val, c3)" by fastforce
      obtain r n3 p3 where e4: "dns_SVCB_add_raw n p key val len = (r, n3, p3)" by (metis prod_cases3)
      have rd3: "rd c2 c3" "length val = unat len" using read_raw_rd[OF ok2 _ e3] 2(1) by (auto simp: uint_nat)
      have n3: "nested_inv s n3 p3 rs" "grows p rs rs p3"
        using svcb_add_raw_post[OF \<open>nested_inv s n p rs\<close>, of len val key] rd3(2) by (auto simp: e4 nested_post_def)
      have "dns_decode_svc_loop c n p start rr_len = dns_decode_svc_loop c3 n3 p3 start rr_len"
        using go 2 by (subst dns_decode_svc_loop.simps) (simp add: e1 e2 e3 e4)
      then show ?thesis
        using "1.IH"(1)[OF _ _ e1[symmetric] refl e2[symmetric] refl _ _ e3[symmetric] refl e4[symmetric] refl] go 2
          rd_ok[OF rd3(1) ok2] n3 rd_trans[OF rd2 rd3(1)]
        by (auto intro: rd_trans grows_trans)
    next
      case 3
      let ?c3 = "c2\<lparr>c_ptr := c_ptr c2 + unat len\<rparr>"
      have "dns_decode_svc_loop c n p start rr_len = dns_decode_svc_loop ?c3 n p start rr_len"
        using go 3 by (subst dns_decode_svc_loop.simps) (simp add: e1 e2)
      moreover have "ctx_ok ?c3" "rd c ?c3" using ok2 rd2 by (auto simp: ctx_ok_def)
      ultimately show ?thesis
        using "1.IH"(2)[OF _ _ e1[symmetric] refl e2[symmetric] refl] go 3 \<open>nested_inv s n p rs\<close>
        by (auto intro: rd_trans)
    qed
  qed
qed

lemma decode_SVCB_HTTPS_post:
  assumes ok: "ctx_ok c" and wf: "packet_wf p rs"
  shows "dec_post {DNS_RRS_AN} c p rs (dns_decode_SVCB_HTTPS c p domain qtype ttl rr_len)"
proof (cases "rr_len < 2 \<or> dns_left_len c < rr_len")
  case True
  then show ?thesis using wf by (auto simp: dns_decode_SVCB_HTTPS_def intro: dec_postI0)
next
  case False
  obtain prio c1 where e1: "dns_read_short c = (prio, c1)" by fastforce
  have rd1: "rd c c1" using e1 left_room[OF ok, of 2] False by (auto simp: buf_simps rd_def)
  obtain r t c2 where e2: "dns_decode_domain c1 256 = (r, t, c2)" by (metis prod_cases3)
  have rd2: "rd c c2" using rd_trans[OF rd1 decode_domain_rd(1)[OF rd_ok[OF rd1 ok] e2]] .
  obtain r3 n p3 where e3: "dns_add_SVCB_HTTPS_start p DNS_RRS_AN qtype domain ttl (uint prio) t = (r3, n, p3)"
    by (metis prod_cases3)
  have n: "nested_inv DNS_RRS_AN n p3 rs" "grows p rs rs p3"
    using svcb_start_post[OF wf, of DNS_RRS_AN qtype domain ttl "uint prio" t] by (auto simp: e3 nested_post_def)
  obtain r4 c4 n4 p4 where e4: "dns_decode_svc_loop c2 n p3 (c_ptr c) rr_len = (r4, c4, n4, p4)" by (metis prod_cases4)
  have n4: "rd c2 c4" "r4 = 0 \<or> r4 = -1" "nested_inv DNS_RRS_AN n4 p4 rs" "grows p3 rs rs p4"
    using svc_loop_post[OF rd_ok[OF rd2 ok] n(1), of "c_ptr c" rr_len] by (auto simp: e4)
  note g4 = grows_trans[OF n(2) n4(4)] and rd4 = rd_trans[OF rd2 n4(1)]
  obtain r5 n5 p5 where e5: "dns_add_rr_nested_end n4 p4 = (r5, n5, p5)" by (metis prod_cases3)
  obtain new where new: "grows p4 rs (rs @ new) p5" "i_sec ` set new \<subseteq> {DNS_RRS_AN}"
    using nested_end_adds[OF n4(3)] by (auto simp: e5)
  have "dec_post {DNS_RRS_AN} c p rs (0, c4, p5)"
    using rd4 grows_trans[OF g4 new(1)] new(2) by (auto simp: dec_post_def)
  moreover have "dec_post {DNS_RRS_AN} c p rs (-1, c4, p4)"
    using rd4 g4 by (auto simp: dec_post_def intro: exI[of _ "[]"])
  ultimately show ?thesis
    using False rd2 wf n4(2)
    by (auto simp: dns_decode_SVCB_HTTPS_def e1 e2 e3 e4 e5 dns_add_SVCB_end_def intro: dec_postI0)
qed

section \<open>Sections\<close>

lemma decode_qd_post:
  assumes ok: "ctx_ok c" and wf: "packet_wf p rs"
  shows "dec_post {DNS_RRS_QD} c p rs (dns_decode_qd c p)"
proof -
  obtain r d qt qc c1 where e1: "dns_decode_qr_head c 256 = (r, d, qt, qc, c1)" by (metis prod_cases5)
  obtain r2 p2 where e2: "dns_add_domain p d qt qc = (r2, p2)" by fastforce
  have "adds DNS_RRS_QD p rs (r2, p2)" using add_domain.add_adds[OF wf, of d qt qc] by (simp add: e2)
  then show ?thesis
    using decode_qr_head_rd[OF ok e1] wf by (auto simp: dns_decode_qd_def e1 e2 intro: dec_postI0 dec_postI1)
qed

text \<open>The shape of most branches: read the data, then add the record.\<close>

lemma dec_post_add:
  fixes r :: int
  assumes "rd c c1" "packet_wf p rs" "s \<in> S" "0 \<le> r \<Longrightarrow> adds s p rs (r2, p2)"
  shows "dec_post S c p rs (if r < 0 then (-1, c1, p) else (if r2 < 0 then -1 else 0, c1, p2))"
proof (cases "r < 0")
  case True
  then show ?thesis using assms by (simp add: dec_postI0)
next
  case False
  then have "adds s p rs (r2, p2)" using assms(4) by simp
  from dec_postI1[OF this assms(1,3)] show ?thesis using False by simp
qed

lemma dec_post_mono: "dec_post S c p rs r \<Longrightarrow> S \<subseteq> T \<Longrightarrow> dec_post T c p rs r"
  by (fastforce simp: dec_post_def)

lemma decode_rdata_opt:
  assumes ok: "ctx_ok c" and wf: "packet_wf p rs"
  shows "dec_post {DNS_RRS_OPT} c p rs (dns_decode_rdata c p type domain DNS_T_OPT qclass ttl rr_len)"
proof -
  obtain r c1 p1 where e: "dns_decode_opt c p ttl rr_len = (r, c1, p1)" by (metis prod_cases3)
  have post: "dec_post {DNS_RRS_OPT} c p rs (r, c1, p1)" using decode_opt_post[OF ok wf, of ttl rr_len] by (simp add: e)
  have "grows p rs rs' (p1\<lparr>p_opt_option := v, p_payloadsize := w\<rparr>)" if "grows p rs rs' p1" for rs' v w
  proof -
    have "rrs_first (p1\<lparr>p_opt_option := v, p_payloadsize := w\<rparr>) s = rrs_first p1 s"
      "rrs_count (p1\<lparr>p_opt_option := v, p_payloadsize := w\<rparr>) s = rrs_count p1 s" for s
      by (simp_all add: rrs_first_def rrs_count_def split: dns_rr_type.split)
    then show ?thesis using that by (simp add: grows_def packet_wf_def rep_def counts_def)
  qed
  with post have "dec_post {DNS_RRS_OPT} c p rs (0, c1, p1\<lparr>p_opt_option := v, p_payloadsize := w\<rparr>)" for v w
    unfolding dec_post_def by blast
  then show ?thesis
    using dec_post_fail[OF post] post
    by (auto simp: dns_decode_rdata_def e dns_set_OPT_option_def dns_set_OPT_payload_size_def Let_def)
qed

lemma decode_rdata_svcb:
  assumes ok: "ctx_ok c" and wf: "packet_wf p rs" and t: "qtype = DNS_T_HTTPS \<or> qtype = DNS_T_SVCB"
  shows "dec_post {DNS_RRS_AN} c p rs (dns_decode_rdata c p type domain qtype qclass ttl rr_len)"
proof -
  obtain r c1 p1 where e: "dns_decode_SVCB_HTTPS c p domain qtype ttl rr_len = (r, c1, p1)" by (metis prod_cases3)
  have post: "dec_post {DNS_RRS_AN} c p rs (r, c1, p1)"
    using decode_SVCB_HTTPS_post[OF ok wf, of domain qtype ttl rr_len] by (simp add: e)
  then have "dec_post {DNS_RRS_AN} c p rs (0, c1, p1)" by (auto simp: dec_post_def)
  then show ?thesis using t dec_post_fail[OF post] by (auto simp: dns_decode_rdata_def e)
qed

text \<open>The result of a branch as the code computes it from its two steps.\<close>

definition read_add :: "int \<Rightarrow> dns_context \<Rightarrow> dns_packet \<Rightarrow> int \<times> dns_packet \<Rightarrow> int \<times> dns_context \<times> dns_packet" where
  "read_add r c p a = (if r < 0 then (-1, c, p) else (if fst a < 0 then -1 else 0, c, snd a))"

lemma read_add_post:
  assumes "rd c c1" "packet_wf p rs" "0 \<le> r \<Longrightarrow> adds s p rs a"
  shows "dec_post {s} c p rs (read_add r c1 p a)"
  using dec_post_add[OF assms(1,2), of s "{s}" r "fst a" "snd a"] assms(3) by (simp add: read_add_def)

lemma decode_rdata_name_eq:
  assumes "dns_decode_CNAME c 256 = (r, s, c1)"
  shows "dns_decode_rdata c p type domain DNS_T_CNAME qclass ttl rr_len = read_add r c1 p (dns_add_CNAME p type domain ttl s)"
    "dns_decode_rdata c p type domain DNS_T_NS qclass ttl rr_len = read_add r c1 p (dns_add_NS p type domain ttl s)"
    "dns_decode_rdata c p type domain DNS_T_PTR qclass ttl rr_len = read_add r c1 p (dns_add_PTR p type domain ttl s)"
  by (simp_all add: dns_decode_rdata_def assms read_add_def split_def Let_def)

lemma decode_rdata_addr_eq:
  "dns_decode_raw c 4 = (r, a, c1) \<Longrightarrow>
     dns_decode_rdata c p type domain DNS_T_A qclass ttl rr_len = read_add r c1 p (dns_add_A p type domain ttl a)"
  "dns_decode_raw c 16 = (r, a, c1) \<Longrightarrow>
     dns_decode_rdata c p type domain DNS_T_AAAA qclass ttl rr_len = read_add r c1 p (dns_add_AAAA p type domain ttl a)"
  by (simp_all add: dns_decode_rdata_def read_add_def split_def Let_def)

lemma decode_rdata_names:
  assumes ok: "ctx_ok c" and wf: "packet_wf p rs" and t: "qtype = DNS_T_CNAME \<or> qtype = DNS_T_NS \<or> qtype = DNS_T_PTR"
  shows "dec_post {type} c p rs (dns_decode_rdata c p type domain qtype qclass ttl rr_len)"
proof -
  obtain r s c1 where e: "dns_decode_CNAME c 256 = (r, s, c1)" by (metis prod_cases3)
  note post = read_add_post[OF decode_CNAME_rd[OF ok e] wf]
  show ?thesis
    using t post[OF add_CNAME.add_adds[OF wf]] post[OF add_NS.add_adds[OF wf]] post[OF add_PTR.add_adds[OF wf]]
    by (auto simp: decode_rdata_name_eq[OF e])
qed

lemma decode_rdata_addr:
  assumes ok: "ctx_ok c" and wf: "packet_wf p rs" and t: "qtype = DNS_T_A \<or> qtype = DNS_T_AAAA"
  shows "dec_post {type} c p rs (dns_decode_rdata c p type domain qtype qclass ttl rr_len)"
proof -
  obtain r4 a4 c4 where e4: "dns_decode_raw c 4 = (r4, a4, c4)" by (metis prod_cases3)
  obtain r6 a6 c6 where e6: "dns_decode_raw c 16 = (r6, a6, c6)" by (metis prod_cases3)
  have "dec_post {type} c p rs (read_add r4 c4 p (dns_add_A p type domain ttl a4))"
    using decode_raw_rd[OF ok e4] by (intro read_add_post wf dns_add_A_adds) auto
  moreover have "dec_post {type} c p rs (read_add r6 c6 p (dns_add_AAAA p type domain ttl a6))"
    using decode_raw_rd[OF ok e6] by (intro read_add_post wf dns_add_AAAA_adds) auto
  ultimately show ?thesis using t by (auto simp: decode_rdata_addr_eq(1)[OF e4] decode_rdata_addr_eq(2)[OF e6])
qed

lemma decode_rdata_soa:
  assumes ok: "ctx_ok c" and wf: "packet_wf p rs"
  shows "dec_post {type} c p rs (dns_decode_rdata c p type domain DNS_T_SOA qclass ttl rr_len)"
proof -
  obtain r soa c1 where e: "dns_decode_SOA c = (r, soa, c1)" by (metis prod_cases3)
  note rd1 = decode_SOA_rd[OF ok e]
  show ?thesis
  proof (cases soa)
    case None
    then show ?thesis using rd1 wf by (simp add: dns_decode_rdata_def e dec_postI0)
  next
    case (Some x)
    then have "dns_decode_rdata c p type domain DNS_T_SOA qclass ttl rr_len = read_add 0 c1 p (dns_add_SOA p type domain ttl x)"
      by (simp add: dns_decode_rdata_def e read_add_def split_def Let_def)
    then show ?thesis using read_add_post[OF rd1 wf add_SOA.add_adds[OF wf]] by simp
  qed
qed

lemma decode_rdata_srv:
  assumes ok: "ctx_ok c" and wf: "packet_wf p rs"
  shows "dec_post {type} c p rs (dns_decode_rdata c p type domain DNS_T_SRV qclass ttl rr_len)"
proof -
  obtain r x y z t c1 where e: "dns_decode_SRV c 256 = (r, x, y, z, t, c1)" by (metis prod_cases6)
  have "dns_decode_rdata c p type domain DNS_T_SRV qclass ttl rr_len =
      read_add r c1 p (dns_add_SRV p type domain ttl (uint x) (uint y) (uint z) t)"
    by (simp add: dns_decode_rdata_def e read_add_def split_def Let_def)
  then show ?thesis using read_add_post[OF decode_SRV_rd[OF ok e] wf add_SRV.add_adds[OF wf]] by simp
qed

lemma decode_rdata_other:
  assumes ok: "ctx_ok c" and wf: "packet_wf p rs"
    and t: "qtype \<notin> {DNS_T_A, DNS_T_CNAME, DNS_T_SOA, DNS_T_NS, DNS_T_PTR, DNS_T_AAAA, DNS_T_SRV, DNS_T_OPT, DNS_T_HTTPS, DNS_T_SVCB}"
  shows "dec_post {type} c p rs (dns_decode_rdata c p type domain qtype qclass ttl rr_len)"
proof (cases "dns_left_len c < rr_len \<or> rr_len \<ge> 1024")
  case True
  then show ?thesis using t wf by (simp add: dns_decode_rdata_def dec_postI0)
next
  case False
  obtain r a c1 where e: "dns_decode_raw c rr_len = (r, a, c1)" by (metis prod_cases3)
  have "dns_decode_rdata c p type domain qtype qclass ttl rr_len =
      read_add r c1 p (dns_add_RAW p type qtype domain ttl a rr_len)"
    using t False by (simp add: dns_decode_rdata_def e read_add_def split_def Let_def)
  moreover have "dec_post {type} c p rs (read_add r c1 p (dns_add_RAW p type qtype domain ttl a rr_len))"
    using decode_raw_rd[OF ok e] by (intro read_add_post wf dns_add_RAW_adds) auto
  ultimately show ?thesis by simp
qed

lemma decode_rdata_post:
  assumes "ctx_ok c" "packet_wf p rs"
  shows "dec_post {type, DNS_RRS_AN, DNS_RRS_OPT} c p rs (dns_decode_rdata c p type domain qtype qclass ttl rr_len)"
proof -
  note m = dec_post_mono[where T = "{type, DNS_RRS_AN, DNS_RRS_OPT}"]
  consider "qtype = DNS_T_OPT" | "qtype = DNS_T_HTTPS \<or> qtype = DNS_T_SVCB"
    | "qtype = DNS_T_CNAME \<or> qtype = DNS_T_NS \<or> qtype = DNS_T_PTR" | "qtype = DNS_T_A \<or> qtype = DNS_T_AAAA"
    | "qtype = DNS_T_SOA" | "qtype = DNS_T_SRV"
    | "qtype \<notin> {DNS_T_A, DNS_T_CNAME, DNS_T_SOA, DNS_T_NS, DNS_T_PTR, DNS_T_AAAA, DNS_T_SRV, DNS_T_OPT, DNS_T_HTTPS, DNS_T_SVCB}"
    by blast
  then show ?thesis
  proof cases
    case 1
    then show ?thesis using m[OF decode_rdata_opt[OF assms]] by simp
  next
    case 2
    show ?thesis by (rule m[OF decode_rdata_svcb[OF assms 2]]) simp
  next
    case 3
    show ?thesis by (rule m[OF decode_rdata_names[OF assms 3]]) simp
  next
    case 4
    show ?thesis by (rule m[OF decode_rdata_addr[OF assms 4]]) simp
  next
    case 5
    then show ?thesis using m[OF decode_rdata_soa[OF assms]] by simp
  next
    case 6
    then show ?thesis using m[OF decode_rdata_srv[OF assms]] by simp
  next
    case 7
    show ?thesis by (rule m[OF decode_rdata_other[OF assms 7]]) simp
  qed
qed

lemma decode_an_post:
  assumes ok: "ctx_ok c" and wf: "packet_wf p rs"
  shows "dec_post {s, DNS_RRS_AN, DNS_RRS_OPT} c p rs (dns_decode_an c p s)"
proof -
  obtain r d qt qc ttl rl c1 where e1: "dns_decode_rr_head c 256 = (r, d, qt, qc, ttl, rl, c1)" by (metis prod_cases7)
  note rd1 = decode_rr_head_rd(1)[OF ok e1]
  obtain r2 c2 p2 where e2: "dns_decode_rdata c1 p s d qt qc ttl rl = (r2, c2, p2)" by (metis prod_cases3)
  have "dec_post {s, DNS_RRS_AN, DNS_RRS_OPT} c1 p rs (r2, c2, p2)"
    using decode_rdata_post[OF rd_ok[OF rd1 ok] wf] e2 by metis
  then have post: "dec_post {s, DNS_RRS_AN, DNS_RRS_OPT} c p rs (r2, c2, p2)"
    using rd1 by (auto simp: dec_post_def intro: rd_trans)
  then have "dec_post {s, DNS_RRS_AN, DNS_RRS_OPT} c p rs (0, c2, p2)" by (auto simp: dec_post_def)
  then show ?thesis
    using rd1 wf dec_post_fail[OF post] by (simp add: dns_decode_an_def e1 e2 dec_postI0)
qed

text \<open>
  What the decoder of a section has done: it read, and the records it added belong to \<open>T\<close>; the
  counters of the sections \<open>S\<close> are right.
\<close>

definition sec_post ::
  "dns_rr_type set \<Rightarrow> dns_context \<Rightarrow> dns_packet \<Rightarrow> rr_item list \<Rightarrow> dns_rr_type set \<Rightarrow>
     int \<times> dns_context \<times> dns_packet \<Rightarrow> bool" where
  "sec_post T c p rs S r \<longleftrightarrow>
     (case r of (ret, c', p') \<Rightarrow>
        rd c c' \<and> (ret = 0 \<or> ret = -1) \<and>
        (\<exists>new. packet_wf p' (rs @ new) \<and> i_sec ` set new \<subseteq> T \<and> counts p' (rs @ new) S \<and>
           length (p_data p') = length (p_data p) \<and> p_size p' = p_size p))"

locale wire_decoder =
  fixes secs :: "dns_rr_type set" and dec :: "dns_context \<Rightarrow> dns_packet \<Rightarrow> int \<times> dns_context \<times> dns_packet"
  assumes dec: "ctx_ok c \<Longrightarrow> packet_wf p rs \<Longrightarrow> dec_post secs c p rs (dec c p)"
begin

lemma times_post:
  "ctx_ok c \<Longrightarrow> packet_wf p rs \<Longrightarrow> dec_post secs c p rs (dns_decode_times dec n c p)"
proof (induction n arbitrary: c p rs)
  case 0
  then show ?case by (simp add: dec_postI0)
next
  case (Suc n)
  obtain r c1 p1 where e: "dec c p = (r, c1, p1)" by (metis prod_cases3)
  have post: "dec_post secs c p rs (r, c1, p1)" using dec[OF Suc.prems] by (simp add: e)
  have "ctx_ok c1" using post Suc.prems(1) by (auto simp: dec_post_def intro: rd_ok)
  then have "dec_post secs c p rs (dns_decode_times dec n c1 p1)"
    using dec_post_trans[OF post] Suc.IH by blast
  then show ?case using dec_post_fail[OF post] by (simp add: e)
qed

text \<open>A section whose list is empty is decoded with its counter started at zero.\<close>

lemma section_post:
  assumes ok: "ctx_ok c" and wf: "packet_wf p rs" and s: "s \<noteq> DNS_RRS_END" "in_sec s rs = []" and cnt: "counts p rs S"
  shows "sec_post secs c p rs (insert s S) (dns_decode_section s dec c p)"
proof -
  let ?p = "set_count s 0 p"
  have wf': "packet_wf ?p rs" using wf by (simp add: packet_wf_def rep_def)
  have cnt': "counts ?p rs (insert s S)" using cnt s by (simp add: counts_def)
  obtain r c1 p1 where e: "dns_decode_times dec (unat (rrs_count p s)) c ?p = (r, c1, p1)" by (metis prod_cases3)
  obtain new where new: "rd c c1" "r = 0 \<or> r = -1" "grows ?p rs (rs @ new) p1" "i_sec ` set new \<subseteq> secs"
    using times_post[OF ok wf', of "unat (rrs_count p s)"] by (auto simp: e dec_post_def)
  moreover have "counts p1 (rs @ new) (insert s S)" using new(3) cnt' unfolding grows_def by blast
  moreover have "packet_wf p1 (rs @ new)" "length (p_data p1) = length (p_data p)" "p_size p1 = p_size p"
    using new(3) by (simp_all add: grows_def)
  ultimately show ?thesis by (auto simp: sec_post_def dns_decode_section_def e)
qed

end

interpretation decode_qd: wire_decoder "{DNS_RRS_QD}" dns_decode_qd
  by unfold_locales (rule decode_qd_post)

interpretation decode_an: wire_decoder "{s, DNS_RRS_AN, DNS_RRS_OPT}" "\<lambda>c p. dns_decode_an c p s" for s
  by unfold_locales (rule decode_an_post)

section \<open>The whole packet\<close>

lemma sec_post_step:
  assumes "sec_post T c p rs S (ret, c1, p1)" "ctx_ok c" "s \<notin> T" "in_sec s rs = []"
  obtains rs1 where "packet_wf p1 rs1" "ctx_ok c1" "rd c c1" "counts p1 rs1 S" "in_sec s rs1 = []"
    "\<And>t. t \<notin> T \<Longrightarrow> in_sec t rs = [] \<Longrightarrow> in_sec t rs1 = []" "length (p_data p1) = length (p_data p)"
    "ret = 0 \<or> ret = -1"
proof -
  from assms(1) obtain new where new: "rd c c1" "packet_wf p1 (rs @ new)" "i_sec ` set new \<subseteq> T" "counts p1 (rs @ new) S"
    "length (p_data p1) = length (p_data p)" "ret = 0 \<or> ret = -1"
    by (auto simp: sec_post_def)
  have "in_sec t (rs @ new) = []" if "t \<notin> T" "in_sec t rs = []" for t
    using that new(3) by (auto simp: in_sec_def filter_empty_conv)
  then show ?thesis using that[of "rs @ new"] new assms rd_ok by blast
qed

lemma decode_body_post:
  assumes ok: "ctx_ok c" and wf: "packet_wf p []" and opt: "rrs_count p DNS_RRS_OPT = 0"
  shows "case dns_decode_body c p of (ret, c', q) \<Rightarrow> rd c c' \<and> (ret = 0 \<or> ret = -1) \<and> \<not> p_fault q \<and>
     (ret = 0 \<longrightarrow> (\<exists>rs. packet_wf q rs \<and> counts q rs all_sections))"
proof -
  have cnt: "counts p [] {DNS_RRS_OPT}" using opt by (simp add: counts_def in_sec_def)
  obtain r1 c1 p1 where e1: "dns_decode_section DNS_RRS_QD dns_decode_qd c p = (r1, c1, p1)" by (metis prod_cases3)
  obtain r2 c2 p2 where e2: "dns_decode_section DNS_RRS_AN (\<lambda>c p. dns_decode_an c p DNS_RRS_AN) c1 p1 = (r2, c2, p2)"
    by (metis prod_cases3)
  obtain r3 c3 p3 where e3: "dns_decode_section DNS_RRS_NS (\<lambda>c p. dns_decode_an c p DNS_RRS_NS) c2 p2 = (r3, c3, p3)"
    by (metis prod_cases3)
  obtain r4 c4 p4 where e4: "dns_decode_section DNS_RRS_NR (\<lambda>c p. dns_decode_an c p DNS_RRS_NR) c3 p3 = (r4, c4, p4)"
    by (metis prod_cases3)
  have nil: "in_sec t [] = []" for t by (simp add: in_sec_def)
  have s1: "sec_post {DNS_RRS_QD} c p [] {DNS_RRS_QD, DNS_RRS_OPT} (r1, c1, p1)"
    using decode_qd.section_post[OF ok wf _ nil cnt, of DNS_RRS_QD] by (simp add: e1)
  obtain rs1 where 1: "packet_wf p1 rs1" "ctx_ok c1" "rd c c1" "counts p1 rs1 {DNS_RRS_QD, DNS_RRS_OPT}"
    "in_sec DNS_RRS_AN rs1 = []" "\<And>t. t \<notin> {DNS_RRS_QD} \<Longrightarrow> in_sec t [] = [] \<Longrightarrow> in_sec t rs1 = []" "r1 = 0 \<or> r1 = -1"
    using sec_post_step[OF s1 ok, of DNS_RRS_AN] nil by auto
  have s2: "sec_post {DNS_RRS_AN, DNS_RRS_OPT} c1 p1 rs1 {DNS_RRS_AN, DNS_RRS_QD, DNS_RRS_OPT} (r2, c2, p2)"
    using decode_an.section_post[OF 1(2,1) _ 1(5,4), of DNS_RRS_AN] by (simp add: e2)
  obtain rs2 where 2: "packet_wf p2 rs2" "ctx_ok c2" "rd c1 c2" "counts p2 rs2 {DNS_RRS_AN, DNS_RRS_QD, DNS_RRS_OPT}"
    "in_sec DNS_RRS_NS rs2 = []" "\<And>t. t \<notin> {DNS_RRS_AN, DNS_RRS_OPT} \<Longrightarrow> in_sec t rs1 = [] \<Longrightarrow> in_sec t rs2 = []"
    "r2 = 0 \<or> r2 = -1"
    using sec_post_step[OF s2 1(2), of DNS_RRS_NS] 1(6)[of DNS_RRS_NS] nil by auto
  have s3: "sec_post {DNS_RRS_NS, DNS_RRS_AN, DNS_RRS_OPT} c2 p2 rs2
      {DNS_RRS_NS, DNS_RRS_AN, DNS_RRS_QD, DNS_RRS_OPT} (r3, c3, p3)"
    using decode_an.section_post[OF 2(2,1) _ 2(5,4), of DNS_RRS_NS] by (simp add: e3)
  obtain rs3 where 3: "packet_wf p3 rs3" "ctx_ok c3" "rd c2 c3"
    "counts p3 rs3 {DNS_RRS_NS, DNS_RRS_AN, DNS_RRS_QD, DNS_RRS_OPT}" "in_sec DNS_RRS_NR rs3 = []" "r3 = 0 \<or> r3 = -1"
  proof (rule sec_post_step[OF s3 2(2), of DNS_RRS_NR])
    show "in_sec DNS_RRS_NR rs2 = []" using 1(6)[of DNS_RRS_NR] 2(6)[of DNS_RRS_NR] nil by simp
  qed (use that in auto)
  have s4: "sec_post {DNS_RRS_NR, DNS_RRS_AN, DNS_RRS_OPT} c3 p3 rs3
      {DNS_RRS_NR, DNS_RRS_NS, DNS_RRS_AN, DNS_RRS_QD, DNS_RRS_OPT} (r4, c4, p4)"
    using decode_an.section_post[OF 3(2,1) _ 3(5,4), of DNS_RRS_NR] by (simp add: e4)
  obtain rs4 where 4: "packet_wf p4 rs4" "rd c3 c4" "counts p4 rs4 all_sections" "r4 = 0 \<or> r4 = -1"
  proof -
    have eq: "{DNS_RRS_NR, DNS_RRS_NS, DNS_RRS_AN, DNS_RRS_QD, DNS_RRS_OPT} = all_sections"
      by (auto simp: all_sections_def)
    show ?thesis using s4 that unfolding eq by (auto simp: sec_post_def)
  qed
  note rd2 = rd_trans[OF 1(3) 2(3)]
  note rd3 = rd_trans[OF rd2 3(3)]
  have nf: "\<not> p_fault p1" "\<not> p_fault p2" "\<not> p_fault p3" "\<not> p_fault p4" using 1(1) 2(1) 3(1) 4(1) by (auto simp: packet_wf_def)
  show ?thesis
    using 1(3,7) 2(7) 3(6) 4 rd2 rd3 rd_trans[OF rd3 4(2)] nf
    by (auto simp: dns_decode_body_def e1 e2 e3 e4)
qed

lemma decode_head_wf:
  assumes "ctx_ok c" "packet_wf p []"
  shows "case dns_decode_head c p of (ret, c', q) \<Rightarrow> rd c c' \<and> (ret = 0 \<or> ret = -1) \<and> packet_wf q [] \<and>
     rrs_count q DNS_RRS_OPT = rrs_count p DNS_RRS_OPT"
proof -
  have "c_ptr c + 12 \<le> length (c_data c)" if "12 \<le> dns_left_len c" using left_room[OF assms(1), of 12] that by simp
  moreover have "rrs_first (p\<lparr>p_head := h\<rparr>) s = rrs_first p s" for h s
    by (simp add: rrs_first_def split: dns_rr_type.split)
  ultimately show ?thesis
    using assms(2)
    by (auto simp: dns_decode_head_def buf_simps packet_wf_def rep_def rrs_count_def rd_def)
qed

lemma dns_decode_post:
  assumes obj: "maxsize - SIZEOF_DNS_PACKET \<le> int (length (p_data p))" "length (p_data p) \<le> 65535" "\<not> p_fault p"
    and wire: "sz \<le> int (length data)"
  shows "case dns_decode p maxsize data sz of (ret, bad, q) \<Rightarrow> \<not> bad \<and> (ret = 0 \<or> ret = -1) \<and>
     (ret = 0 \<longrightarrow> (\<exists>rs. rep q rs \<and> counts q rs all_sections))"
proof (cases "maxsize < SIZEOF_DNS_PACKET")
  case True
  then show ?thesis using obj by (simp add: dns_decode_def dns_packet_init_def packet_clear_def)
next
  case False
  let ?c = "dns_wire_context data sz"
  have clear: "p_data (packet_clear p) = p_data p" "p_fault (packet_clear p) = p_fault p" by (simp_all add: packet_clear_def)
  obtain r q where ei: "dns_packet_init (packet_clear p) maxsize zero_head = (r, q)" by fastforce
  have i: "r = 0" "packet_wf q []" "counts q [] all_sections"
    using packet_init_wf[of "packet_clear p" maxsize zero_head] obj False by (simp_all add: ei clear)
  have ok: "ctx_ok ?c" using wire by (simp add: dns_wire_context_def ctx_ok_def)
  have opt: "rrs_count q DNS_RRS_OPT = 0" using i(3) by (simp add: counts_def all_sections_def in_sec_def)
  obtain r1 c1 p1 where e1: "dns_decode_head ?c q = (r1, c1, p1)" by (metis prod_cases3)
  have h: "rd ?c c1" "r1 = 0 \<or> r1 = -1" "packet_wf p1 []" "rrs_count p1 DNS_RRS_OPT = 0"
    using decode_head_wf[OF ok i(2)] opt by (auto simp: e1)
  have ok1: "ctx_ok c1" by (rule rd_ok[OF h(1) ok])
  obtain r2 c2 p2 where e2: "dns_decode_body c1 p1 = (r2, c2, p2)" by (metis prod_cases3)
  have b: "rd c1 c2" "r2 = 0 \<or> r2 = -1" "\<not> p_fault p2" "r2 = 0 \<Longrightarrow> \<exists>rs. packet_wf p2 rs \<and> counts p2 rs all_sections"
    using decode_body_post[OF ok1 h(3,4)] by (auto simp: e2)
  have f: "\<not> c_fault c1" "\<not> c_fault c2" "\<not> p_fault p1"
    using ok1 rd_ok[OF b(1) ok1] h(3) by (simp_all add: ctx_ok_def packet_wf_def)
  have sel: "rrs_first (p2\<lparr>p_size := z\<rparr>) s = rrs_first p2 s" "rrs_count (p2\<lparr>p_size := z\<rparr>) s = rrs_count p2 s" for z s
    by (simp_all add: rrs_first_def rrs_count_def split: dns_rr_type.split)
  have "\<exists>rs. rep (p2\<lparr>p_size := z\<rparr>) rs \<and> counts (p2\<lparr>p_size := z\<rparr>) rs all_sections" if "r2 = 0" for z
    using b(4)[OF that] by (auto simp: packet_wf_def rep_def counts_def sel)
  then show ?thesis
    using h(2) b(2,3) f by (auto simp: dns_decode_def ei i(1) e1 e2)
qed

section \<open>Property\<close>

text \<open>
  C1: \<^verbatim>\<open>dns_decode\<close> is memory safe on every input. Whatever the bytes received are, no read leaves the
  \<open>sz\<close> bytes of the message and no write leaves the packet object of \<open>maxsize\<close> bytes; the call
  returns 0 or -1; and when it returns 0 the five section lists of the packet are well formed, lie in
  the object, and hold as many records as the counters say.
\<close>

theorem decode_safe:
  assumes "maxsize - SIZEOF_DNS_PACKET \<le> int (length (p_data p))" "length (p_data p) \<le> 65535" "\<not> p_fault p"
    and "sz \<le> int (length data)"
  shows "case dns_decode p maxsize data sz of (ret, bad, q) \<Rightarrow> \<not> bad \<and> (ret = 0 \<or> ret = -1) \<and>
     (ret = 0 \<longrightarrow> (\<exists>rs. rep q rs \<and> counts q rs all_sections))"
  using assms by (rule dns_decode_post)

text \<open>A response with one question and one address record.\<close>

definition sample_response :: bytes where
  "sample_response = [0x12, 0x34, 0x81, 0x80, 0, 1, 0, 1, 0, 0, 0, 0, 1, 97, 0, 0, 1, 0, 1,
     0xC0, 12, 0, 1, 0, 1, 0, 0, 0, 60, 0, 4, 1, 2, 3, 4]"

lemma sample_response_decodes: "fst (dns_decode (packet_object 100) 252 sample_response 35) = 0"
  by code_simp

theorem decode_safe_witness:
  "case dns_decode (packet_object 100) 252 sample_response 35 of (ret, bad, q) \<Rightarrow>
     \<not> bad \<and> ret = 0 \<and> (\<exists>rs. rep q rs \<and> counts q rs all_sections)"
  using decode_safe[of 252 "packet_object 100" 35 sample_response] sample_response_decodes
  by (auto simp: packet_object_def sample_response_def)

end
