(* ===== verification/Dns_Findings.thy ===== *)
theory Dns_Findings
  imports Dns_Update Dns_Roundtrip Dns_Decode_Safe
begin

text \<open>
  Inputs on which the message code does not do what it means to. Each theorem evaluates the model on
  one concrete input; they record single runs, and mark where the hypotheses of the round trips are needed.
\<close>

definition empty_packet :: "nat \<Rightarrow> dns_packet" where
  "empty_packet n = snd (dns_packet_init (packet_object n) (int n + 152) zero_head)"

text \<open>
  The compression dictionary compares hashes only. The names \<^verbatim>\<open>Aa\<close> and \<^verbatim>\<open>BB\<close> have the same hash,
  so the second one is written as a pointer to the first and read back as \<^verbatim>\<open>Aa\<close>: the hypothesis on the
  hashes in the round trip of names cannot be dropped.
\<close>

theorem compression_hash_collision:
  "let (ret, c) = encode_names sample_context [[65, 97], [66, 66]]
   in ret = 0 \<and> fst (snd (decode_names (c\<lparr>c_ptr := 12\<rparr>) 2)) = [[65, 97], [65, 97]]"
  by code_simp

text \<open>
  An NS record that was put into a packet with \<^verbatim>\<open>dns_add_NS\<close> is encoded as its NUL-terminated text,
  not as a wire name: the message that \<^verbatim>\<open>dns_encode\<close> produces is one that \<^verbatim>\<open>dns_decode\<close> rejects.
\<close>

theorem ns_record_not_decodable:
  "let (n, out, bad, q) = dns_encode (replicate 64 0) 64 (snd (dns_add_NS (empty_packet 100) DNS_RRS_NS [97] 60 [98]))
   in n = 27 \<and> \<not> bad \<and> sub_bytes out 23 4 = [0, 2, 98, 0] \<and> fst (dns_decode (packet_object 100) 252 out n) = -1"
  by code_simp

text \<open>
  The keepalive option without a timeout is stored with option length 2 but no data, so
  \<^verbatim>\<open>dns_encode\<close> writes an OPT record with RDLENGTH 4 that is followed by six bytes, and \<^verbatim>\<open>dns_decode\<close>
  rejects the message.
\<close>

theorem keepalive_without_timeout:
  "let (n, out, bad, q) = dns_encode (replicate 64 0) 64 (snd (dns_add_OPT_TCP_KEEPALIVE (empty_packet 100) 0))
   in n = 29 \<and> sub_bytes out 21 8 = [0, 4, 0, 11, 0, 2, 0, 0] \<and> fst (dns_decode (packet_object 100) 252 out n) = -1"
  by code_simp

text \<open>A response whose owner name is one label with dots in it.\<close>

definition dotted_label_response :: bytes where
  "dotted_label_response = [0, 0, 0x80, 0, 0, 0, 0, 1, 0, 0, 0, 0, 12, 120, 46, 46, 46, 65, 65, 65, 65, 65, 46, 1, 46, 0,
     0, 5, 0, 1, 0, 0, 0, 60, 0, 3, 1, 97, 0]"

text \<open>
  The readers of the internal packet trust the length in the record. A message with one CNAME
  record whose owner name is a label that contains dots is accepted by \<^verbatim>\<open>dns_decode\<close>; the record it
  stores has 42 bytes in all, and \<^verbatim>\<open>dns_get_CNAME\<close> on it copies 256 bytes, past the end of the record
  and of the packet object.
\<close>

theorem get_CNAME_reads_past_record:
  "case dns_decode (packet_object 80) 232 dotted_label_response 39 of (ret, bad, p) \<Rightarrow>
     ret = 0 \<and> \<not> bad \<and> p_len p = 42 \<and>
     (case dns_get_CNAME p 0 256 256 of (ret, domain, ttl, cname, c) \<Rightarrow> ret = 0 \<and> length cname = 256 \<and> c_fault c)"
  by code_simp

text \<open>A query for a name whose label goes on behind a NUL.\<close>

definition nul_label_query :: bytes where
  "nul_label_query = [0, 0, 0, 0, 0, 1, 0, 0, 0, 0, 0, 0, 5, 97, 0, 98, 98, 98, 0, 0, 1, 0, 1]"

text \<open>
  \<^verbatim>\<open>_dns_update_domain\<close> copies as many bytes of the query string as the label in the packet has.
  A label that continues behind a NUL compares equal to the shorter query, and the copy reads behind
  the end of the query string.
\<close>

theorem update_domain_reads_past_query:
  "snd (snd (dns_packet_update nul_label_query 23 \<lparr>u_id = 7, u_ip_ttl = -1, u_cname_ttl = -1, u_query_domain = Some [97]\<rparr>))"
  by code_simp

text \<open>
  \<^verbatim>\<open>dns_encode\<close> counts the OPT record in the header of the packet it encodes. Encoding the same
  packet a second time writes an additional-record count of 2 for one OPT record.
\<close>

theorem encode_counts_opt_again:
  "let p = snd (dns_set_OPT_payload_size (empty_packet 100) 1024);
       (n, out, bad, q) = dns_encode (replicate 64 0) 64 p;
       (n', out', bad', q') = dns_encode (replicate 64 0) 64 q
   in n = n' \<and> sub_bytes out 10 2 = [0, 1] \<and> sub_bytes out' 10 2 = [0, 2]"
  by code_simp

end
