(* ===== verification/Access.thy ===== *)
theory Access
  imports Prelude "HOL-Library.Monad_Syntax"
begin

text \<open>
  Accesses to a C object that may leave it. An object is the list of its bytes; a computation
  that reads or writes outside of an object has the value \<^term>\<open>None\<close>, so a function is memory safe
  where its value is a \<^term>\<open>Some\<close>.
\<close>

definition rd :: "'a list \<Rightarrow> nat \<Rightarrow> 'a option" where
  "rd d i = (if i < length d then Some (d ! i) else None)"

definition wr :: "'a list \<Rightarrow> nat \<Rightarrow> 'a \<Rightarrow> 'a list option" where
  "wr d i v = (if i < length d then Some (d[i := v]) else None)"

text \<open>\<^verbatim>\<open>memcpy\<close> out of an object, and into one.\<close>

definition rds :: "'a list \<Rightarrow> nat \<Rightarrow> nat \<Rightarrow> 'a list option" where
  "rds d i n = (if i + n \<le> length d then Some (sub_bytes d i n) else None)"

definition wrs :: "'a list \<Rightarrow> nat \<Rightarrow> 'a list \<Rightarrow> 'a list option" where
  "wrs d i bs = (if i + length bs \<le> length d then Some (put_bytes i bs d) else None)"

lemma rd_Some [simp]: "i < length d \<Longrightarrow> rd d i = Some (d ! i)"
  by (simp add: rd_def)

lemma wr_Some [simp]: "i < length d \<Longrightarrow> wr d i v = Some (d[i := v])"
  by (simp add: wr_def)

lemma rds_Some [simp]: "i + n \<le> length d \<Longrightarrow> rds d i n = Some (sub_bytes d i n)"
  by (simp add: rds_def)

lemma wrs_Some [simp]: "i + length bs \<le> length d \<Longrightarrow> wrs d i bs = Some (put_bytes i bs d)"
  by (simp add: wrs_def)

lemma rd_append: "i = length a \<Longrightarrow> rd (a @ b # c) i = Some b"
  by simp

lemma list_update_put_bytes: "i < length d \<Longrightarrow> d[i := v] = put_bytes i [v] d"
  by (simp add: put_bytes_def upd_conv_take_nth_drop)

lemma sub_bytes_put_before:
  "i + n \<le> j \<Longrightarrow> j + length bs \<le> length d \<Longrightarrow> sub_bytes (put_bytes j bs d) i n = sub_bytes d i n"
  by (rule nth_equalityI) (auto simp: length_sub_bytes length_put_bytes nth_sub_bytes nth_put_bytes)

lemma drop_put_bytes:
  "i + length bs \<le> length d \<Longrightarrow> drop i (put_bytes i bs d) = bs @ drop (i + length bs) d"
  by (simp add: put_bytes_def)

lemma take_put_bytes: "i + length bs \<le> length d \<Longrightarrow> take i (put_bytes i bs d) = take i d"
  by (simp add: put_bytes_def)

section \<open>Parsing steps\<close>

text \<open>
  A step of a parser that may leave its object, return an error, or return a value: \<^term>\<open>None\<close> is an
  access outside the object, \<^term>\<open>Some None\<close> an error return.
\<close>

type_synonym 'a parsed = "'a option option"

definition andthen :: "'a parsed \<Rightarrow> ('a \<Rightarrow> 'b parsed) \<Rightarrow> 'b parsed" where
  "andthen r f = (case r of None \<Rightarrow> None | Some None \<Rightarrow> Some None | Some (Some x) \<Rightarrow> f x)"

lemma andthen_simps [simp]:
  "andthen None f = None" "andthen (Some None) f = Some None" "andthen (Some (Some x)) f = f x"
  by (simp_all add: andthen_def)

lemma andthen_eq_Some: "andthen r f = Some (Some y) \<longleftrightarrow> (\<exists>x. r = Some (Some x) \<and> f x = Some (Some y))"
  by (auto simp: andthen_def split: option.splits)

definition got :: "'a option \<Rightarrow> 'a parsed" where
  "got r = (case r of None \<Rightarrow> None | Some x \<Rightarrow> Some (Some x))"

lemma got_simps [simp]: "got None = None" "got (Some x) = Some (Some x)"
  by (simp_all add: got_def)

lemma got_eq_Some: "got r = Some (Some x) \<longleftrightarrow> r = Some x"
  by (simp add: got_def split: option.splits)

text \<open>A computation that does not leave its objects.\<close>

definition safe :: "'a option \<Rightarrow> bool" where
  "safe r \<longleftrightarrow> r \<noteq> None"

lemma safe_Some [simp, intro]: "safe (Some x)"
  by (simp add: safe_def)

lemma safe_got [simp]: "safe (got r) \<longleftrightarrow> safe r"
  by (simp add: safe_def got_def split: option.splits)

lemma safe_rd [simp]: "safe (rd d i) \<longleftrightarrow> i < length d"
  by (simp add: safe_def rd_def)

lemma safe_rds [simp]: "safe (rds d i n) \<longleftrightarrow> i + n \<le> length d"
  by (simp add: safe_def rds_def)

lemma safe_andthen: "safe r \<Longrightarrow> (\<And>x. r = Some (Some x) \<Longrightarrow> safe (f x)) \<Longrightarrow> safe (andthen r f)"
  by (auto simp: safe_def andthen_def split: option.splits)

lemma safe_if: "(c \<Longrightarrow> safe a) \<Longrightarrow> (\<not> c \<Longrightarrow> safe b) \<Longrightarrow> safe (if c then a else b)"
  by simp

lemma safe_prod: "(\<And>a b. x = (a, b) \<Longrightarrow> safe (f a b)) \<Longrightarrow> safe (case x of (a, b) \<Rightarrow> f a b)"
  by (cases x) simp

lemmas safe_intros = safe_Some safe_andthen safe_if safe_prod safe_got[THEN iffD2]

lemmas parsed_eq_Some = andthen_eq_Some got_eq_Some

end
