(* ===== verification/Hpack_Integer.thy ===== *)
theory Hpack_Integer
  imports Access
begin

text \<open>
  The variable-length integers of HPACK (\<^verbatim>\<open>hpack_encode_integer\<close>, \<^verbatim>\<open>hpack_decode_integer\<close> of
  \<^verbatim>\<open>http_parse/hpack.c\<close>). The outer option is a memory fault, the inner one the return value -1.
\<close>

section \<open>The code\<close>

function hpack_encode_integer_loop :: "u64 \<Rightarrow> nat \<Rightarrow> bytes \<Rightarrow> nat \<Rightarrow> int \<Rightarrow> (int \<times> bytes) option" where
  "hpack_encode_integer_loop v offset buf pos buf_size =
     (if 128 \<le> v then
        if int offset \<ge> buf_size then Some (-1, buf)
        else
          (case wr buf (pos + offset) (ucast (v AND 0x7F OR 0x80)) of
             None \<Rightarrow> None
           | Some buf \<Rightarrow> hpack_encode_integer_loop (drop_bit 7 v) (offset + 1) buf pos buf_size)
      else if int offset \<ge> buf_size then Some (-1, buf)
      else do { buf \<leftarrow> wr buf (pos + offset) (ucast v); Some (int (offset + 1), buf) })"
  by pat_completeness auto

text \<open>\<open>buf\<close> with \<open>pos\<close> is the pointer \<^verbatim>\<open>buf\<close> of the code.\<close>

lemma drop_bit_7_less: "128 \<le> v \<Longrightarrow> unat (drop_bit 7 v) < unat (v :: u64)"
  by (simp add: drop_bit_eq_div unat_div word_le_nat_alt)

termination hpack_encode_integer_loop
  by (relation "measure (\<lambda>(v, _). unat v)") (auto simp: drop_bit_7_less)

declare hpack_encode_integer_loop.simps [simp del]

definition hpack_encode_integer :: "u64 \<Rightarrow> nat \<Rightarrow> bytes \<Rightarrow> nat \<Rightarrow> int \<Rightarrow> (int \<times> bytes) option" where
  "hpack_encode_integer v prefix_bits buf pos buf_size =
     (let max_prefix = 2 ^ prefix_bits - 1 in
      if v < max_prefix then
        if buf_size < 1 then Some (-1, buf)
        else do { b \<leftarrow> rd buf pos; buf \<leftarrow> wr buf pos (b OR ucast v); Some (1, buf) }
      else if buf_size < 1 then Some (-1, buf)
      else do {
        b \<leftarrow> rd buf pos;
        buf \<leftarrow> wr buf pos (b OR ucast max_prefix);
        hpack_encode_integer_loop (v - max_prefix) 1 buf pos buf_size })"

function hpack_decode_integer_loop :: "bytes \<Rightarrow> int \<Rightarrow> nat \<Rightarrow> u64 \<Rightarrow> nat \<Rightarrow> (nat \<times> u64) parsed" where
  "hpack_decode_integer_loop d data_len offset result shift =
     (if int offset < data_len then
        (case rd d offset of
           None \<Rightarrow> None
         | Some byte \<Rightarrow>
             let chunk = ucast (byte AND 0x7F) :: u64 in
             if shift \<ge> 64 \<or> chunk > drop_bit shift (-1 - result) then Some None
             else
               let result = result + push_bit shift chunk in
               if byte AND 0x80 = 0 then Some (Some (offset + 1, result))
               else hpack_decode_integer_loop d data_len (offset + 1) result (shift + 7))
      else Some None)"
  by pat_completeness auto
termination
  by (relation "measure (\<lambda>(_, data_len, offset, _). nat (data_len - int offset))") auto

declare hpack_decode_integer_loop.simps [simp del]

definition hpack_decode_integer :: "bytes \<Rightarrow> int \<Rightarrow> nat \<Rightarrow> (nat \<times> u64) parsed" where
  "hpack_decode_integer d data_len prefix_bits =
     (let max_prefix = 2 ^ prefix_bits - 1 in
      if data_len < 1 then Some None
      else do {
        b \<leftarrow> rd d 0;
        let result = ucast b AND max_prefix;
        if result < max_prefix then Some (Some (1, result))
        else hpack_decode_integer_loop d data_len 1 result 0 })"

section \<open>The bytes of an integer\<close>

fun tail_bytes :: "nat \<Rightarrow> bytes" where
  "tail_bytes n = (if n < 128 then [of_nat n] else of_nat (n mod 128 + 128) # tail_bytes (n div 128))"

declare tail_bytes.simps [simp del]

definition integer_bytes :: "nat \<Rightarrow> u8 \<Rightarrow> nat \<Rightarrow> bytes" where
  "integer_bytes k hi n = (if n < 2 ^ k - 1 then [hi OR of_nat n] else (hi OR of_nat (2 ^ k - 1)) # tail_bytes (n - (2 ^ k - 1)))"

lemma tail_bytes_not_Nil [simp]: "tail_bytes n \<noteq> []"
  by (subst tail_bytes.simps) simp

section \<open>Writing\<close>

definition same_outside :: "nat \<Rightarrow> nat \<Rightarrow> 'a list \<Rightarrow> 'a list \<Rightarrow> bool" where
  "same_outside lo hi b b' \<longleftrightarrow> length b' = length b \<and> (\<forall>i<length b. i < lo \<or> hi \<le> i \<longrightarrow> b' ! i = b ! i)"

lemma same_outside_refl [simp]: "same_outside lo hi b b"
  by (simp add: same_outside_def)

lemma same_outside_trans [trans]: "same_outside lo hi a b \<Longrightarrow> same_outside lo hi b c \<Longrightarrow> same_outside lo hi a c"
  by (simp add: same_outside_def)

lemma same_outside_mono: "same_outside lo hi a b \<Longrightarrow> lo' \<le> lo \<Longrightarrow> hi \<le> hi' \<Longrightarrow> same_outside lo' hi' a b"
  by (auto simp: same_outside_def)

lemma same_outside_update: "lo \<le> i \<Longrightarrow> i < hi \<Longrightarrow> same_outside lo hi b (b[i := v])"
  by (auto simp: same_outside_def nth_list_update)

lemma same_outside_put: "lo \<le> i \<Longrightarrow> i + length bs \<le> hi \<Longrightarrow> i + length bs \<le> length b \<Longrightarrow> same_outside lo hi b (put_bytes i bs b)"
  by (auto simp: same_outside_def length_put_bytes nth_put_bytes)

text \<open>
  \<open>writes buf pos n bs r\<close>: a writer with \<open>n\<close> bytes of room at \<open>pos\<close> has written \<open>bs\<close> and returned
  their number, or, where they do not fit, returned -1 and changed nothing outside of the room.
\<close>

definition writes :: "bytes \<Rightarrow> nat \<Rightarrow> int \<Rightarrow> bytes \<Rightarrow> (int \<times> bytes) option \<Rightarrow> bool" where
  "writes buf pos n bs r \<longleftrightarrow>
     (if int (length bs) \<le> n then r = Some (int (length bs), put_bytes pos bs buf)
      else \<exists>buf'. r = Some (-1, buf') \<and> same_outside pos (pos + nat n) buf buf')"

lemma encode_loop_full: "n \<le> int offset \<Longrightarrow> hpack_encode_integer_loop v offset buf pos n = Some (-1, buf)"
  by (subst hpack_encode_integer_loop.simps) simp

lemma encode_loop_last:
  "\<not> 128 \<le> v \<Longrightarrow> int offset < n \<Longrightarrow> pos + offset < length buf \<Longrightarrow>
   hpack_encode_integer_loop v offset buf pos n = Some (int offset + 1, buf[pos + offset := ucast v])"
  by (subst hpack_encode_integer_loop.simps) simp

lemma encode_loop_more:
  "128 \<le> v \<Longrightarrow> int offset < n \<Longrightarrow> pos + offset < length buf \<Longrightarrow>
   hpack_encode_integer_loop v offset buf pos n =
     hpack_encode_integer_loop (drop_bit 7 v) (offset + 1) (buf[pos + offset := ucast (v AND 0x7F OR 0x80)]) pos n"
  by (subst hpack_encode_integer_loop.simps) simp

lemma and_127: "(v :: u64) AND 0x7F = v mod 128" "(b :: u8) AND 0x7F = b mod 128"
  using word_mod_2p_is_mask[of 7 v] word_mod_2p_is_mask[of 7 b] by (simp_all add: mask_eq_exp_minus_1)

lemma tail_bytes_last: "\<not> 128 \<le> v \<Longrightarrow> tail_bytes (unat (v :: u64)) = [ucast v]"
  by (subst tail_bytes.simps) (simp add: word_le_nat_alt of_nat_unat)

lemma tail_bytes_more:
  assumes "128 \<le> (v :: u64)"
  shows "tail_bytes (unat v) = ucast (v AND 0x7F OR 0x80) # tail_bytes (unat (drop_bit 7 v))"
proof -
  have "v AND 0x7F OR 0x80 = (v AND 0x7F) + 0x80"
    by (rule disjunctive_add_eq_or[symmetric]) (simp add: and.assoc)
  moreover have "unat (v mod 128 + 128) = unat (v mod 128) + unat (128 :: u64)"
    by (subst unat_add_lem[symmetric]) (simp add: unat_mod)
  ultimately have "unat v mod 128 + 128 = unat (v AND 0x7F OR 0x80)" by (simp add: and_127 unat_mod)
  then have "ucast (v AND 0x7F OR 0x80) = (of_nat (unat v mod 128 + 128) :: u8)" by (simp add: of_nat_unat)
  moreover have "unat (drop_bit 7 v) = unat v div 128" by (simp add: drop_bit_eq_div unat_div)
  ultimately show ?thesis using assms by (subst tail_bytes.simps) (simp add: word_le_nat_alt)
qed

lemma encode_loop_writes:
  assumes "int offset \<le> n" "int pos + n \<le> int (length buf)"
  shows "if int (offset + length (tail_bytes (unat v))) \<le> n
     then hpack_encode_integer_loop v offset buf pos n =
            Some (int (offset + length (tail_bytes (unat v))), put_bytes (pos + offset) (tail_bytes (unat v)) buf)
     else \<exists>buf'. hpack_encode_integer_loop v offset buf pos n = Some (-1, buf') \<and> same_outside (pos + offset) (pos + nat n) buf buf'"
  using assms
proof (induction v offset buf pos n rule: hpack_encode_integer_loop.induct)
  case (1 v offset buf pos n)
  let ?b = "ucast (v AND 0x7F OR 0x80) :: u8" and ?bs = "tail_bytes (unat v)"
  consider "n \<le> int offset" | "int offset < n" "\<not> 128 \<le> v" | "int offset < n" "128 \<le> v" by linarith
  then show ?case
  proof cases
    case 1
    moreover have "0 < length ?bs" using tail_bytes_not_Nil by blast
    ultimately have "\<not> int (offset + length ?bs) \<le> n" by linarith
    with 1 show ?thesis by (simp add: encode_loop_full)
  next
    case 2
    then show ?thesis using "1.prems" by (simp add: encode_loop_last tail_bytes_last list_update_put_bytes)
  next
    case 3
    have len: "pos + offset < length buf" using 3 "1.prems" by simp
    let ?buf = "buf[pos + offset := ?b]" and ?t = "tail_bytes (unat (drop_bit 7 v))"
    have so: "same_outside (pos + offset) (pos + nat n) buf ?buf" using 3 by (intro same_outside_update) auto
    have put: "put_bytes (pos + (offset + 1)) ?t ?buf = put_bytes (pos + offset) (?b # ?t) buf" if "int (offset + 1 + length ?t) \<le> n"
      using put_bytes_adjacent[of "pos + offset" "[?b]" ?t buf] that "1.prems" len by (simp add: list_update_put_bytes)
    note IH = "1.IH"[OF 3(2) _ wr_Some[OF len]]
    show ?thesis
      using IH 3 "1.prems" put so encode_loop_more[OF 3(2,1) len] tail_bytes_more[OF 3(2)]
      by (auto split: if_splits elim!: same_outside_trans same_outside_mono)
  qed
qed


section \<open>Reading\<close>

text \<open>What the continuation bytes stand for: how many they are and their value.\<close>

fun tail_parse :: "bytes \<Rightarrow> (nat \<times> nat) option" where
  "tail_parse [] = None"
| "tail_parse (b # bs) =
     (if unat b < 128 then Some (1, unat b)
      else map_option (\<lambda>(k, v). (k + 1, unat b - 128 + 128 * v)) (tail_parse bs))"

lemma unat_ucast_u8_u64 [simp]: "unat (ucast (b :: u8) :: u64) = unat b"
proof -
  have "unat b < 256" using unsigned_less[of b] by simp
  then show ?thesis by (simp add: unsigned_ucast_eq take_bit_nat_eq_self)
qed

lemma byte_and_7F: "unat ((b :: u8) AND 0x7F) = unat b mod 128"
  by (simp add: and_127 unat_mod)

lemma byte_and_80: "(b :: u8) AND 0x80 = 0 \<longleftrightarrow> unat b < 128"
proof -
  have "b AND 0x80 = 0 \<longleftrightarrow> \<not> bit b 7" using and_exp_eq_0_iff_not_bit[of b 7] by simp
  also have "bit b 7 \<longleftrightarrow> bit (unat b) 7" by (simp add: bit_unsigned_iff)
  also have "\<dots> \<longleftrightarrow> odd (unat b div 128)" by (simp add: bit_nat_def)
  also have "unat b < 256" using unsigned_less[of b] by simp
  then have "unat b div 128 = (if unat b < 128 then 0 else 1)" by (auto intro: div_nat_eqI)
  finally show ?thesis by simp
qed

lemma unat_minus_one_word64: "unat (-1 :: u64) = 2 ^ 64 - 1"
  by (simp add: unsigned_minus_1_eq_mask mask_eq_exp_minus_1)

text \<open>The check before the addition: neither the shift nor the sum wraps around.\<close>

lemma chunk_add:
  assumes "shift < 64"
  shows "chunk \<le> drop_bit shift (-1 - result) \<longleftrightarrow> unat (result :: u64) + unat chunk * 2 ^ shift < 2 ^ 64"
    and "unat (result :: u64) + unat chunk * 2 ^ shift < 2 ^ 64 \<Longrightarrow> unat (result + push_bit shift chunk) = unat result + unat chunk * 2 ^ shift"
proof -
  let ?c = "chunk \<le> drop_bit shift (-1 - result)" and ?s = "unat (result :: u64) + unat chunk * 2 ^ shift < 2 ^ 64"
  have r: "unat result < 2 ^ 64" using unsigned_less[of result] by simp
  have m: "unat (-1 - result) = 2 ^ 64 - 1 - unat result" using r by (simp add: unat_sub_if' unat_minus_one_word64)
  have "?c \<longleftrightarrow> unat chunk \<le> (2 ^ 64 - 1 - unat result) div 2 ^ shift"
    by (simp only: word_le_nat_alt unat_drop_bit_eq m) (simp add: drop_bit_eq_div)
  also have "\<dots> \<longleftrightarrow> unat chunk * 2 ^ shift \<le> 2 ^ 64 - 1 - unat result"
    by (simp add: less_eq_div_iff_mult_less_eq)
  also have "\<dots> \<longleftrightarrow> ?s" using r by linarith
  finally show "?c \<longleftrightarrow> ?s" .
  assume s: ?s
  then have "unat (push_bit shift chunk) = unat chunk * 2 ^ shift"
    by (simp only: unsigned_push_bit_eq) (simp add: push_bit_eq_mult take_bit_nat_eq_self)
  with s show "unat (result + push_bit shift chunk) = unat result + unat chunk * 2 ^ shift"
    using unat_add_lem[of result "push_bit shift chunk"] by simp
qed

lemma decode_loop_end: "n \<le> int offset \<Longrightarrow> hpack_decode_integer_loop d n offset result shift = Some None"
  by (subst hpack_decode_integer_loop.simps) simp

lemma decode_loop_step:
  assumes "int offset < n" "offset < length d"
  shows "hpack_decode_integer_loop d n offset result shift =
     (if shift < 64 \<and> unat result + unat (d ! offset) mod 128 * 2 ^ shift < 2 ^ 64 then
        let r = result + push_bit shift (ucast (d ! offset AND 0x7F)) in
        if unat (d ! offset) < 128 then Some (Some (offset + 1, r))
        else hpack_decode_integer_loop d n (offset + 1) r (shift + 7)
      else Some None)"
proof -
  have cond: "64 \<le> shift \<or> drop_bit shift (-1 - result) < ucast (d ! offset AND 0x7F) \<longleftrightarrow>
      \<not> (shift < 64 \<and> unat result + unat (d ! offset) mod 128 * 2 ^ shift < 2 ^ 64)"
    using chunk_add(1)[of shift "ucast (d ! offset AND 0x7F)" result]
    by (cases "shift < 64") (simp_all add: byte_and_7F flip: linorder_not_le)
  show ?thesis
    using assms by (subst hpack_decode_integer_loop.simps) (simp only: Let_def byte_and_80 cond rd_Some option.case if_True if_not_P, simp)
qed

lemma decode_loop_safe: "n \<le> int (length d) \<Longrightarrow> safe (hpack_decode_integer_loop d n offset result shift)"
proof (induction d n offset result shift rule: hpack_decode_integer_loop.induct)
  case (1 d n offset result shift)
  show ?case
  proof (cases "int offset < n")
    case True
    then have "offset < length d" using "1.prems" by simp
    then show ?thesis using 1 True by (subst hpack_decode_integer_loop.simps) (auto simp: Let_def)
  qed (simp add: decode_loop_end)
qed

lemma decode_loop_sound:
  assumes "hpack_decode_integer_loop d n offset result shift = Some (Some (k, w))" "n \<le> int (length d)"
  shows "\<exists>j v. tail_parse (drop offset d) = Some (j, v) \<and> k = offset + j \<and> int k \<le> n \<and>
     unat w = unat result + v * 2 ^ shift"
  using assms
proof (induction d n offset result shift rule: hpack_decode_integer_loop.induct)
  case (1 d n offset result shift)
  let ?b = "d ! offset" and ?r = "result + push_bit shift (ucast (d ! offset AND 0x7F))"
  have n: "int offset < n" using "1.prems"(1) by (cases "int offset < n") (auto simp: decode_loop_end)
  then have len: "offset < length d" using "1.prems" by simp
  have ok: "shift < 64" "unat result + unat ?b mod 128 * 2 ^ shift < 2 ^ 64"
    using "1.prems"(1) decode_loop_step[OF n len, of result shift] by (auto split: if_splits)
  have r: "unat ?r = unat result + unat ?b mod 128 * 2 ^ shift"
    using chunk_add(2)[of shift result "ucast (?b AND 0x7F)"] ok by (simp add: byte_and_7F unat_ucast_u8_u64)
  have dr: "drop offset d = ?b # drop (offset + 1) d" using len by (simp add: Cons_nth_drop_Suc)
  show ?case
  proof (cases "unat ?b < 128")
    case True
    then show ?thesis using "1.prems"(1) decode_loop_step[OF n len, of result shift] ok r n
      by (auto simp: dr Let_def)
  next
    case False
    have b: "unat ?b < 256" using unsigned_less[of ?b] by simp
    have "hpack_decode_integer_loop d n (offset + 1) ?r (shift + 7) = Some (Some (k, w))"
      using "1.prems"(1) decode_loop_step[OF n len, of result shift] ok False by (simp add: Let_def)
    moreover have "\<not> (shift \<ge> 64 \<or> ucast (?b AND 0x7F) > drop_bit shift (-1 - result))" "?b AND 0x80 \<noteq> 0"
      using ok False chunk_add(1)[of shift "ucast (?b AND 0x7F)" result]
      by (auto simp: byte_and_7F unat_ucast_u8_u64 byte_and_80 not_less)
    ultimately obtain j v where "tail_parse (drop (offset + 1) d) = Some (j, v)" "k = offset + 1 + j" "int k \<le> n"
      "unat w = unat ?r + v * 2 ^ (shift + 7)"
      using "1.IH"[OF n rd_Some[OF len] refl _ refl] "1.prems"(2) by blast
    moreover have "unat ?b - 128 = unat ?b mod 128" using False b by (simp add: le_mod_geq)
    ultimately show ?thesis using False by (simp add: dr r power_add distrib_right mult.assoc mult.commute[of 128])
  qed
qed

section \<open>Reading what was written\<close>

lemma chunk_word: "push_bit shift (ucast (b AND 0x7F :: u8)) = (of_nat (unat b mod 128 * 2 ^ shift) :: u64)"
proof -
  have "ucast (b AND 0x7F) = (of_nat (unat b mod 128) :: u64)"
    by (metis byte_and_7F unat_ucast_u8_u64 word_of_nat_unat)
  then show ?thesis by (simp add: push_bit_eq_mult)
qed

lemma shift_small:
  fixes r n :: nat
  assumes "r + n * 2 ^ shift < 2 ^ 64" "shift = 0 \<or> 0 < n"
  shows "shift < (64 :: nat)"
proof (rule ccontr)
  assume s: "\<not> shift < 64"
  then have "(2 :: nat) ^ 64 \<le> 2 ^ shift" by (intro power_increasing) auto
  moreover have "2 ^ shift \<le> n * 2 ^ shift" using assms(2) s by auto
  ultimately show False using assms(1) by linarith
qed

lemma decode_loop_tail:
  assumes "drop offset d = tail_bytes n @ rest" "int (offset + length (tail_bytes n)) \<le> N" "N \<le> int (length d)"
    and "unat result + n * 2 ^ shift < 2 ^ 64" "shift = 0 \<or> 0 < n"
  shows "hpack_decode_integer_loop d N offset result shift =
     Some (Some (offset + length (tail_bytes n), result + of_nat (n * 2 ^ shift)))"
  using assms
proof (induction n arbitrary: offset result shift rule: tail_bytes.induct)
  case (1 n)
  note sh = shift_small[OF "1.prems"(4,5)]
  have "0 < length (tail_bytes n)" using tail_bytes_not_Nil by blast
  then have len: "offset < length d" and n: "int offset < N" using "1.prems"(2,3) by linarith+
  have dr: "drop offset d = d ! offset # drop (offset + 1) d" using len by (simp add: Cons_nth_drop_Suc)
  show ?case
  proof (cases "n < 128")
    case True
    then have t: "tail_bytes n = [of_nat n]" by (simp add: tail_bytes.simps)
    have b: "d ! offset = of_nat n" using "1.prems"(1) dr t by simp
    have u: "unat (of_nat n :: u8) = n" using True by (simp add: of_nat_inverse)
    show ?thesis using decode_loop_step[OF n len, of result shift] sh True "1.prems"(4) by (simp add: b u t Let_def chunk_word)
  next
    case False
    define m q where mq: "m = n mod 128" "q = n div 128"
    let ?r = "result + of_nat (m * 2 ^ shift)"
    have n_eq: "n = q * 128 + m" and m: "m < 128" by (simp_all add: mq)
    define B :: u8 where "B = of_nat (m + 128)"
    have u: "unat B = m + 128" unfolding B_def using m by (intro of_nat_inverse) auto
    have t: "tail_bytes n = B # tail_bytes q" using False by (subst tail_bytes.simps) (simp add: mq B_def)
    have b: "d ! offset = B" and tl: "drop (offset + 1) d = tail_bytes q @ rest" using "1.prems"(1) dr t by auto
    have sp: "n * 2 ^ shift = m * 2 ^ shift + q * 2 ^ (shift + 7)" by (simp add: n_eq algebra_simps power_add)
    have small: "unat result + m * 2 ^ shift < 2 ^ 64" using "1.prems"(4) sp by linarith
    have r: "unat ?r = unat result + m * 2 ^ shift"
      using chunk_add(2)[OF sh, of result "of_nat m"] small m by (simp add: push_bit_eq_mult of_nat_inverse)
    have "hpack_decode_integer_loop d N offset result shift = hpack_decode_integer_loop d N (offset + 1) ?r (shift + 7)"
      using decode_loop_step[OF n len, of result shift] sh small m by (simp add: b u Let_def chunk_word)
    moreover have "hpack_decode_integer_loop d N (offset + 1) ?r (shift + 7) =
       Some (Some (offset + 1 + length (tail_bytes q), ?r + of_nat (q * 2 ^ (shift + 7))))"
      by (rule "1.IH"[folded mq]) (use "1.prems"(2-5) t tl r sp False in \<open>auto simp: mq\<close>)
    ultimately show ?thesis by (simp add: t sp add.assoc)
  qed
qed

lemma unat_max_prefix:
  assumes "k \<le> 8"
  shows "unat (2 ^ k - 1 :: u64) = 2 ^ k - 1"
proof -
  have "(2 :: nat) ^ k \<le> 2 ^ 8" using assms by (rule power_increasing) simp
  then have "(2 :: nat) ^ k \<le> 256" by simp
  then have "(2 :: nat) ^ k - 1 < 2 ^ LENGTH(64)" by simp
  moreover have "(2 ^ k - 1 :: u64) = of_nat (2 ^ k - 1)" by (simp add: of_nat_diff)
  ultimately show ?thesis by (metis of_nat_inverse)
qed

lemma encode_integer_writes:
  assumes room: "int pos + n \<le> int (length buf)" and k: "k \<le> 8" and hi: "0 < n \<Longrightarrow> buf ! pos = hi"
  shows "writes buf pos n (integer_bytes k hi (unat v)) (hpack_encode_integer v k buf pos n)"
proof -
  let ?m = "2 ^ k - 1 :: u64" and ?M = "2 ^ k - 1 :: nat"
  have less: "v < ?m \<longleftrightarrow> unat v < ?M" by (simp add: word_less_nat_alt unat_max_prefix[OF k])
  consider "n < 1" | "1 \<le> n" "v < ?m" | "1 \<le> n" "\<not> v < ?m" by linarith
  then show ?thesis
  proof cases
    case 1
    then show ?thesis by (auto simp: writes_def integer_bytes_def hpack_encode_integer_def Let_def)
  next
    case 2
    then have "pos < length buf" using room by simp
    then show ?thesis using 2 less hi
      by (simp add: writes_def integer_bytes_def hpack_encode_integer_def Let_def list_update_put_bytes of_nat_unat)
  next
    case 3
    have len: "pos < length buf" using room 3 by simp
    let ?b = "hi OR of_nat ?M" let ?buf = "buf[pos := ?b]" let ?t = "tail_bytes (unat v - ?M)"
    have "(of_nat (unat ?m) :: u8) = ucast ?m" by (rule of_nat_unat)
    then have "ucast ?m = (of_nat ?M :: u8)" by (simp only: unat_max_prefix[OF k])
    then have e: "hpack_encode_integer v k buf pos n = hpack_encode_integer_loop (v - ?m) 1 ?buf pos n"
      using 3 len hi by (simp add: hpack_encode_integer_def Let_def)
    have u: "unat (v - ?m) = unat v - ?M" using 3 by (simp add: unat_sub unat_max_prefix[OF k] not_less)
    have put: "put_bytes (pos + 1) ?t ?buf = put_bytes pos (?b # ?t) buf" if "int (1 + length ?t) \<le> n"
      using put_bytes_adjacent[of pos "[?b]" ?t buf] that room len by (simp add: list_update_put_bytes)
    have so: "same_outside pos (pos + nat n) buf ?buf" using 3 by (intro same_outside_update) auto
    have ib: "integer_bytes k hi (unat v) = ?b # ?t" using 3 less by (simp add: integer_bytes_def)
    note w = encode_loop_writes[of 1 n pos ?buf "v - ?m", unfolded u]
    show ?thesis
    proof (cases "int (1 + length ?t) \<le> n")
      case True
      then show ?thesis using w 3 room put by (simp add: writes_def ib e)
    next
      case False
      then obtain b' where "hpack_encode_integer_loop (v - ?m) 1 ?buf pos n = Some (-1, b')"
        "same_outside (pos + 1) (pos + nat n) ?buf b'" using w 3 room by auto
      then show ?thesis using False same_outside_trans[OF so] same_outside_mono[of "pos + 1" _ ?buf b' pos]
        by (simp add: writes_def ib e)
    qed
  qed
qed

lemma prefix_mask:
  assumes hi: "(hi :: u8) AND mask k = 0" and n: "n < 2 ^ k" and k: "k \<le> 8"
  shows "ucast (hi OR of_nat n) AND mask k = (of_nat n :: u64)"
proof (rule bit_word_eqI)
  fix i assume i: "i < LENGTH(64)"
  have "bit (hi AND mask k) i = False" using hi by simp
  then have h: "\<not> bit hi i" if "i < k" using that k by (auto simp: bit_simps)
  have b: "i < k" if "bit n i" using n that by (metis bit_take_bit_iff take_bit_nat_eq_self)
  show "bit (ucast (hi OR of_nat n) AND mask k :: u64) i = bit (of_nat n :: u64) i"
    using h b k i by (auto simp: bit_simps)
qed

lemma decode_integer_bytes:
  assumes d: "d = integer_bytes k hi n @ rest" and N: "int (length (integer_bytes k hi n)) \<le> N" "N \<le> int (length d)"
    and hi: "hi AND mask k = 0" and k: "k \<le> 8" and n: "n < 2 ^ 64"
  shows "hpack_decode_integer d N k = Some (Some (length (integer_bytes k hi n), of_nat n))"
proof -
  let ?m = "2 ^ k - 1 :: u64" and ?M = "2 ^ k - 1 :: nat"
  have m: "?m = mask k" by (simp add: mask_eq_exp_minus_1)
  have mk: "(of_nat ?M :: u64) = mask k" by (simp add: mask_eq_exp_minus_1 of_nat_diff)
  have um: "unat (mask k :: u64) = ?M" using unat_max_prefix[OF k] by (simp add: m)
  have ne: "\<not> N < 1" "d \<noteq> []" using N(1) d by (auto simp: integer_bytes_def split: if_splits)
  show ?thesis
  proof (cases "n < ?M")
    case True
    then have "unat (of_nat n :: u64) = n" using n by (intro of_nat_inverse) auto
    moreover have "ucast (d ! 0) AND mask k = (of_nat n :: u64)"
      using prefix_mask[OF hi _ k, of n] True d by (simp add: integer_bytes_def)
    ultimately show ?thesis using True ne
      by (simp add: hpack_decode_integer_def m Let_def word_less_nat_alt um integer_bytes_def)
  next
    case False
    then have t: "integer_bytes k hi n = (hi OR of_nat ?M) # tail_bytes (n - ?M)" by (simp add: integer_bytes_def)
    have "?M < 2 ^ k" by simp
    from prefix_mask[OF hi this k] have f: "ucast (d ! 0) AND mask k = (mask k :: u64)"
      by (simp only: d t mk append_Cons nth_Cons_0)
    have dr: "drop 1 d = tail_bytes (n - ?M) @ rest" by (simp add: d t)
    have "hpack_decode_integer d N k = hpack_decode_integer_loop d N 1 (mask k) 0"
      using ne f by (simp add: hpack_decode_integer_def m Let_def)
    also have "\<dots> = Some (Some (1 + length (tail_bytes (n - ?M)), mask k + of_nat ((n - ?M) * 2 ^ 0)))"
      using N t False n by (intro decode_loop_tail[OF dr]) (auto simp: um)
    also have "mask k + of_nat ((n - ?M) * 2 ^ 0) = (of_nat n :: u64)"
      using False by (simp flip: mk of_nat_add)
    finally show ?thesis by (simp add: t)
  qed
qed

lemma decode_integer_safe: "N \<le> int (length d) \<Longrightarrow> safe (hpack_decode_integer d N k)"
  using decode_loop_safe[of N d] by (cases d) (auto simp: hpack_decode_integer_def Let_def)

lemma decode_loop_offset:
  "hpack_decode_integer_loop d n offset result shift = Some (Some (k, w)) \<Longrightarrow> offset < k \<and> int k \<le> n"
proof (induction d n offset result shift rule: hpack_decode_integer_loop.induct)
  case (1 d n offset result shift)
  from "1.prems" have "int offset < n" by (cases "int offset < n") (auto simp: decode_loop_end)
  moreover from "1.prems" have "rd d offset \<noteq> None"
    by (subst (asm) hpack_decode_integer_loop.simps) (auto split: if_splits option.splits)
  ultimately show ?case
    using 1 by (subst (asm) (2) hpack_decode_integer_loop.simps) (fastforce simp: Let_def split: if_splits)
qed

lemma decode_integer_offset: "hpack_decode_integer d n k = Some (Some (j, v)) \<Longrightarrow> 1 \<le> j \<and> int j \<le> n"
  by (auto simp: hpack_decode_integer_def Let_def bind_eq_Some_conv split: if_splits dest!: decode_loop_offset)

section \<open>The decoder against unbounded integers\<close>

text \<open>The integer of RFC 7541, section 5.1, over unbounded numbers: how many bytes it has and its value.\<close>

fun integer_parse :: "nat \<Rightarrow> bytes \<Rightarrow> (nat \<times> nat) option" where
  "integer_parse k [] = None"
| "integer_parse k (b # bs) =
     (let p = unat b mod 2 ^ k in
      if p < 2 ^ k - 1 then Some (1, p) else map_option (\<lambda>(j, v). (j + 1, p + v)) (tail_parse bs))"

lemma tail_parse_pos: "tail_parse bs = Some (j, v) \<Longrightarrow> 1 \<le> j"
  by (cases bs) (auto split: if_splits)

lemma tail_parse_Cons:
  "tail_parse (b # bs) =
     (if unat b < 128 then Some (1, unat b mod 128)
      else map_option (\<lambda>(k, v). (k + 1, unat b mod 128 + 128 * v)) (tail_parse bs))"
proof -
  have "unat b < 256" using unsigned_less[of b] by simp
  then show ?thesis by (auto simp: le_mod_geq)
qed

lemma decode_loop_exact:
  assumes "n \<le> int (length d)"
  shows "hpack_decode_integer_loop d n offset result shift =
     Some (case tail_parse (take (nat n - offset) (drop offset d)) of
             None \<Rightarrow> None
           | Some (j, v) \<Rightarrow>
               if unat result + v * 2 ^ shift < 2 ^ 64 \<and> shift + 7 * (j - 1) < 64
               then Some (offset + j, of_nat (unat result + v * 2 ^ shift)) else None)"
  using assms
proof (induction "nat n - offset" arbitrary: offset result shift)
  case 0
  then show ?case by (simp add: decode_loop_end)
next
  case (Suc l)
  let ?b = "d ! offset" and ?r = "result + push_bit shift (ucast (d ! offset AND 0x7F))"
  have n: "int offset < n" and len: "offset < length d" using Suc.hyps(2) Suc.prems by linarith+
  have dr: "take (nat n - offset) (drop offset d) = ?b # take (nat n - (offset + 1)) (drop (offset + 1) d)"
    using len Suc.hyps(2) by (simp add: Cons_nth_drop_Suc[symmetric] take_Cons')
  define c where "c = unat ?b mod 128"
  note st = decode_loop_step[OF n len, of result shift, folded c_def]
  have sum: "unat result + (c + 128 * v) * 2 ^ shift = unat result + c * 2 ^ shift + v * 2 ^ (shift + 7)" for v
    by (simp add: power_add algebra_simps)
  show ?case
  proof (cases "shift < 64 \<and> unat result + c * 2 ^ shift < 2 ^ 64")
    case True
    have r: "unat ?r = unat result + c * 2 ^ shift"
      using chunk_add(2)[of shift result "ucast (?b AND 0x7F)"] True by (simp add: byte_and_7F c_def)
    have w: "?r = of_nat (unat result + c * 2 ^ shift)" by (metis r word_of_nat_unat)
    have IH: "hpack_decode_integer_loop d n (offset + 1) ?r (shift + 7) =
       Some (case tail_parse (take (nat n - (offset + 1)) (drop (offset + 1) d)) of None \<Rightarrow> None
         | Some (j, v) \<Rightarrow>
             if unat ?r + v * 2 ^ (shift + 7) < 2 ^ 64 \<and> shift + 7 + 7 * (j - 1) < 64
             then Some (offset + 1 + j, of_nat (unat ?r + v * 2 ^ (shift + 7))) else None)"
      using Suc.hyps(2) Suc.prems by (intro Suc.hyps(1)) auto
    have st': "hpack_decode_integer_loop d n offset result shift =
        (if unat ?b < 128 then Some (Some (offset + 1, ?r)) else hpack_decode_integer_loop d n (offset + 1) ?r (shift + 7))"
      using st True by (simp add: Let_def)
    show ?thesis
    proof (cases "unat ?b < 128")
      case small: True
      then show ?thesis unfolding dr tail_parse_Cons st' c_def[symmetric] using True w by (simp del: of_nat_add)
    next
      case False
      show ?thesis
      proof (cases "tail_parse (take (nat n - (offset + 1)) (drop (offset + 1) d))")
        case None
        then show ?thesis unfolding dr tail_parse_Cons st' using False IH by simp
      next
        case (Some jv)
        obtain j v where jv: "jv = (j, v)" by fastforce
        have "shift + 7 + 7 * (j - 1) = shift + 7 * j" using tail_parse_pos[OF Some[unfolded jv]] by simp
        then show ?thesis unfolding dr tail_parse_Cons st' c_def[symmetric] using False IH
          by (simp only: Some jv r sum option.case prod.case option.map if_False diff_add_inverse2 add.assoc add.commute[of 1 j])
      qed
    qed
  next
    case False
    then have "\<not> (unat result + (c + 128 * v) * 2 ^ shift < 2 ^ 64 \<and> shift + 7 * j < 64)" for v j unfolding sum by auto
    then show ?thesis unfolding dr tail_parse_Cons c_def[symmetric] using st False by (auto split: option.split)
  qed
qed

lemma prefix_word:
  assumes "k \<le> 8"
  shows "unat (ucast (b :: u8) AND (2 ^ k - 1) :: u64) = unat b mod 2 ^ k"
proof -
  have "ucast b AND (2 ^ k - 1) = (take_bit k (ucast b) :: u64)" by (simp add: take_bit_eq_mask mask_eq_exp_minus_1)
  then show ?thesis by (simp only: unsigned_take_bit_eq unat_ucast_u8_u64) (simp add: take_bit_eq_mod)
qed

text \<open>
  C10: the integer decoder is exact. Within the \<open>n\<close> bytes it is given, the decoder returns the integer of RFC 7541 computed over
  unbounded numbers whenever that integer fits in 64 bits and has at most eleven bytes, and
  refuses the bytes in every other case: no shift and no sum of its 64-bit arithmetic ever wraps around, and it never reads
  behind its \<open>n\<close> bytes.
\<close>

theorem decode_integer_exact:
  assumes "n \<le> int (length d)" "k \<le> 8"
  shows "hpack_decode_integer d n k =
    Some (case integer_parse k (take (nat n) d) of
            None \<Rightarrow> None
          | Some (j, v) \<Rightarrow> if v < 2 ^ 64 \<and> j \<le> 11 then Some (j, of_nat v) else None)"
proof (cases "n < 1")
  case True
  then show ?thesis by (simp add: hpack_decode_integer_def)
next
  case False
  obtain b ds where d: "d = b # ds" using False assms(1) by (cases d) auto
  let ?p = "ucast b AND (2 ^ k - 1) :: u64"
  note p = prefix_word[OF assms(2), of b]
  have less: "?p < 2 ^ k - 1 \<longleftrightarrow> unat b mod 2 ^ k < 2 ^ k - 1" by (simp add: word_less_nat_alt p unat_max_prefix[OF assms(2)])
  have "unat b < 256" using unsigned_less[of b] by simp
  then have small: "unat b mod 2 ^ k < 2 ^ 64" by (intro le_less_trans[OF mod_less_eq_dividend]) simp
  have w: "?p = of_nat (unat b mod 2 ^ k)" by (metis p word_of_nat_unat)
  have tk: "take (nat n) d = b # take (nat n - 1) ds" using False by (simp add: d take_Cons')
  show ?thesis
  proof (cases "unat b mod 2 ^ k < 2 ^ k - 1")
    case True
    then show ?thesis unfolding tk using False less small w by (simp add: hpack_decode_integer_def d Let_def)
  next
    case no: False
    then have e: "hpack_decode_integer d n k = hpack_decode_integer_loop d n 1 ?p 0"
      using False less by (simp add: hpack_decode_integer_def d Let_def)
    show ?thesis unfolding tk e decode_loop_exact[OF assms(1)] p using no
      by (auto simp: d Let_def split: option.split dest: tail_parse_pos)
  qed
qed

theorem decode_integer_exact_witness:
  "hpack_decode_integer [0x1F, 0x9A, 0x0A] 3 5 = Some (Some (3, 1337))"
  using decode_integer_exact[of 3 "[0x1F, 0x9A, 0x0A]" 5] by (simp add: Let_def)

end
