(* ===== verification/Hpack_Huffman.thy ===== *)
theory Hpack_Huffman
  imports Hpack_Integer
begin

text \<open>
  The Huffman decoder of HPACK (\<^verbatim>\<open>hpack_decode_huffman\<close> of \<^verbatim>\<open>http_parse/hpack.c\<close>) and its table. The table
  lists the codes in ascending order; as numbers of 30 bits they leave no gap, which is checked once by
  evaluation and makes the code prefix-free. The decoder is shown to invert the encoding by the table.
\<close>

section \<open>The code\<close>

text \<open>An entry is the code, its number of bits, and the symbol.\<close>

type_synonym huffman_decode_entry = "u32 \<times> nat \<times> u8"

definition huffman_short :: "huffman_decode_entry list" where
  "huffman_short =
    [(0x0, 5, 48), (0x1, 5, 49), (0x2, 5, 50), (0x3, 5, 97), (0x4, 5, 99), (0x5, 5, 101), (0x6, 5, 105),
     (0x7, 5, 111), (0x8, 5, 115), (0x9, 5, 116), (0x14, 6, 32), (0x15, 6, 37), (0x16, 6, 45), (0x17, 6, 46),
     (0x18, 6, 47), (0x19, 6, 51), (0x1a, 6, 52), (0x1b, 6, 53), (0x1c, 6, 54), (0x1d, 6, 55), (0x1e, 6, 56),
     (0x1f, 6, 57), (0x20, 6, 61), (0x21, 6, 65), (0x22, 6, 95), (0x23, 6, 98), (0x24, 6, 100), (0x25, 6, 102),
     (0x26, 6, 103), (0x27, 6, 104), (0x28, 6, 108), (0x29, 6, 109), (0x2a, 6, 110), (0x2b, 6, 112), (0x2c, 6, 114),
     (0x2d, 6, 117), (0x5c, 7, 58), (0x5d, 7, 66), (0x5e, 7, 67), (0x5f, 7, 68), (0x60, 7, 69), (0x61, 7, 70),
     (0x62, 7, 71), (0x63, 7, 72), (0x64, 7, 73), (0x65, 7, 74), (0x66, 7, 75), (0x67, 7, 76), (0x68, 7, 77),
     (0x69, 7, 78), (0x6a, 7, 79), (0x6b, 7, 80), (0x6c, 7, 81), (0x6d, 7, 82), (0x6e, 7, 83), (0x6f, 7, 84),
     (0x70, 7, 85), (0x71, 7, 86), (0x72, 7, 87), (0x73, 7, 89), (0x74, 7, 106), (0x75, 7, 107), (0x76, 7, 113),
     (0x77, 7, 118), (0x78, 7, 119), (0x79, 7, 120), (0x7a, 7, 121), (0x7b, 7, 122), (0xf8, 8, 38), (0xf9, 8, 42),
     (0xfa, 8, 44), (0xfb, 8, 59), (0xfc, 8, 88), (0xfd, 8, 90), (0x3f8, 10, 33), (0x3f9, 10, 34), (0x3fa, 10, 40),
     (0x3fb, 10, 41), (0x3fc, 10, 63), (0x7fa, 11, 39), (0x7fb, 11, 43), (0x7fc, 11, 124), (0xffa, 12, 35),
     (0xffb, 12, 62), (0x1ff8, 13, 0), (0x1ff9, 13, 36), (0x1ffa, 13, 64), (0x1ffb, 13, 91), (0x1ffc, 13, 93),
     (0x1ffd, 13, 126), (0x3ffc, 14, 94), (0x3ffd, 14, 125), (0x7ffc, 15, 60), (0x7ffd, 15, 96), (0x7ffe, 15, 123),
     (0x7fff0, 19, 92), (0x7fff1, 19, 195), (0x7fff2, 19, 208), (0xfffe6, 20, 128), (0xfffe7, 20, 130),
     (0xfffe8, 20, 131), (0xfffe9, 20, 162), (0xfffea, 20, 184), (0xfffeb, 20, 194), (0xfffec, 20, 224),
     (0xfffed, 20, 226), (0x1fffdc, 21, 153), (0x1fffdd, 21, 161), (0x1fffde, 21, 167), (0x1fffdf, 21, 172),
     (0x1fffe0, 21, 176), (0x1fffe1, 21, 177), (0x1fffe2, 21, 179), (0x1fffe3, 21, 209), (0x1fffe4, 21, 216),
     (0x1fffe5, 21, 217), (0x1fffe6, 21, 227), (0x1fffe7, 21, 229), (0x1fffe8, 21, 230)]"

definition huffman_long :: "huffman_decode_entry list" where
  "huffman_long =
    [(0x3fffd2, 22, 129), (0x3fffd3, 22, 132), (0x3fffd4, 22, 133), (0x3fffd5, 22, 134), (0x3fffd6, 22, 136),
     (0x3fffd7, 22, 146), (0x3fffd8, 22, 154), (0x3fffd9, 22, 156), (0x3fffda, 22, 160), (0x3fffdb, 22, 163),
     (0x3fffdc, 22, 164), (0x3fffdd, 22, 169), (0x3fffde, 22, 170), (0x3fffdf, 22, 173), (0x3fffe0, 22, 178),
     (0x3fffe1, 22, 181), (0x3fffe2, 22, 185), (0x3fffe3, 22, 186), (0x3fffe4, 22, 187), (0x3fffe5, 22, 189),
     (0x3fffe6, 22, 190), (0x3fffe7, 22, 196), (0x3fffe8, 22, 198), (0x3fffe9, 22, 228), (0x3fffea, 22, 232),
     (0x3fffeb, 22, 233), (0x7fffd8, 23, 1), (0x7fffd9, 23, 135), (0x7fffda, 23, 137), (0x7fffdb, 23, 138),
     (0x7fffdc, 23, 139), (0x7fffdd, 23, 140), (0x7fffde, 23, 141), (0x7fffdf, 23, 143), (0x7fffe0, 23, 147),
     (0x7fffe1, 23, 149), (0x7fffe2, 23, 150), (0x7fffe3, 23, 151), (0x7fffe4, 23, 152), (0x7fffe5, 23, 155),
     (0x7fffe6, 23, 157), (0x7fffe7, 23, 158), (0x7fffe8, 23, 165), (0x7fffe9, 23, 166), (0x7fffea, 23, 168),
     (0x7fffeb, 23, 174), (0x7fffec, 23, 175), (0x7fffed, 23, 180), (0x7fffee, 23, 182), (0x7fffef, 23, 183),
     (0x7ffff0, 23, 188), (0x7ffff1, 23, 191), (0x7ffff2, 23, 197), (0x7ffff3, 23, 231), (0x7ffff4, 23, 239),
     (0xffffea, 24, 9), (0xffffeb, 24, 142), (0xffffec, 24, 144), (0xffffed, 24, 145), (0xffffee, 24, 148),
     (0xffffef, 24, 159), (0xfffff0, 24, 171), (0xfffff1, 24, 206), (0xfffff2, 24, 215), (0xfffff3, 24, 225),
     (0xfffff4, 24, 236), (0xfffff5, 24, 237), (0x1ffffec, 25, 199), (0x1ffffed, 25, 207), (0x1ffffee, 25, 234),
     (0x1ffffef, 25, 235), (0x3ffffe0, 26, 192), (0x3ffffe1, 26, 193), (0x3ffffe2, 26, 200), (0x3ffffe3, 26, 201),
     (0x3ffffe4, 26, 202), (0x3ffffe5, 26, 205), (0x3ffffe6, 26, 210), (0x3ffffe7, 26, 213), (0x3ffffe8, 26, 218),
     (0x3ffffe9, 26, 219), (0x3ffffea, 26, 238), (0x3ffffeb, 26, 240), (0x3ffffec, 26, 242), (0x3ffffed, 26, 243),
     (0x3ffffee, 26, 255), (0x7ffffde, 27, 203), (0x7ffffdf, 27, 204), (0x7ffffe0, 27, 211), (0x7ffffe1, 27, 212),
     (0x7ffffe2, 27, 214), (0x7ffffe3, 27, 221), (0x7ffffe4, 27, 222), (0x7ffffe5, 27, 223), (0x7ffffe6, 27, 241),
     (0x7ffffe7, 27, 244), (0x7ffffe8, 27, 245), (0x7ffffe9, 27, 246), (0x7ffffea, 27, 247), (0x7ffffeb, 27, 248),
     (0x7ffffec, 27, 250), (0x7ffffed, 27, 251), (0x7ffffee, 27, 252), (0x7ffffef, 27, 253), (0x7fffff0, 27, 254),
     (0xfffffe2, 28, 2), (0xfffffe3, 28, 3), (0xfffffe4, 28, 4), (0xfffffe5, 28, 5), (0xfffffe6, 28, 6),
     (0xfffffe7, 28, 7), (0xfffffe8, 28, 8), (0xfffffe9, 28, 11), (0xfffffea, 28, 12), (0xfffffeb, 28, 14),
     (0xfffffec, 28, 15), (0xfffffed, 28, 16), (0xfffffee, 28, 17), (0xfffffef, 28, 18), (0xffffff0, 28, 19),
     (0xffffff1, 28, 20), (0xffffff2, 28, 21), (0xffffff3, 28, 23), (0xffffff4, 28, 24), (0xffffff5, 28, 25),
     (0xffffff6, 28, 26), (0xffffff7, 28, 27), (0xffffff8, 28, 28), (0xffffff9, 28, 29), (0xffffffa, 28, 30),
     (0xffffffb, 28, 31), (0xffffffc, 28, 127), (0xffffffd, 28, 220), (0xffffffe, 28, 249), (0x3ffffffc, 30, 10),
     (0x3ffffffd, 30, 13), (0x3ffffffe, 30, 22)]"

definition huffman_table :: "huffman_decode_entry list" where
  "huffman_table = huffman_short @ huffman_long"

text \<open>The loop over the code lengths, from the longest one that the pending bits allow.\<close>

fun huffman_search :: "u64 \<Rightarrow> nat \<Rightarrow> nat \<Rightarrow> (nat \<times> u8) option" where
  "huffman_search bits nbits len =
     (if len \<ge> 5 then
        let code = ucast (drop_bit (nbits - len) bits AND (push_bit len 1 - 1)) in
        case find (\<lambda>(b, n, s). n = len \<and> b = code) huffman_table of
          Some (b, n, s) \<Rightarrow> Some (len, s)
        | None \<Rightarrow> huffman_search bits nbits (len - 1)
      else None)"

declare huffman_search.simps [simp del]

lemma huffman_search_len: "huffman_search bits nbits len = Some (l, s) \<Longrightarrow> 5 \<le> l \<and> l \<le> len"
  by (induction bits nbits len rule: huffman_search.induct)
     (subst (asm) (2) huffman_search.simps, force simp: Let_def split: if_splits option.splits)

text \<open>
  The loop that decodes symbols while there is one; the result is the output so far, the pending bits and
  their number, or \<^term>\<open>None\<close> for -1.
\<close>

function huffman_symbols :: "bytes \<Rightarrow> nat \<Rightarrow> u64 \<Rightarrow> nat \<Rightarrow> (bytes \<times> u64 \<times> nat) option" where
  "huffman_symbols dst dst_len bits nbits =
     (if nbits \<ge> 5 then
        case huffman_search bits nbits (if nbits > 30 then 30 else nbits) of
          None \<Rightarrow> Some (dst, bits, nbits)
        | Some (len, s) \<Rightarrow>
            if length dst \<ge> dst_len then None
            else huffman_symbols (dst @ [s]) dst_len (bits AND (push_bit (nbits - len) 1 - 1)) (nbits - len)
      else Some (dst, bits, nbits))"
  by pat_completeness auto
termination
  by (relation "measure (\<lambda>(_, _, _, nbits). nbits)") (auto dest: huffman_search_len)

declare huffman_symbols.simps [simp del]

fun huffman_bytes :: "bytes \<Rightarrow> bytes \<Rightarrow> nat \<Rightarrow> u64 \<Rightarrow> nat \<Rightarrow> (bytes \<times> u64 \<times> nat) option" where
  "huffman_bytes [] dst dst_len bits nbits = Some (dst, bits, nbits)"
| "huffman_bytes (b # src) dst dst_len bits nbits =
     (if nbits > 56 then None
      else
        case huffman_symbols dst dst_len (push_bit 8 bits OR ucast b) (nbits + 8) of
          None \<Rightarrow> None
        | Some (dst, bits, nbits) \<Rightarrow> huffman_bytes src dst dst_len bits nbits)"

definition hpack_decode_huffman :: "bytes \<Rightarrow> nat \<Rightarrow> bytes option" where
  "hpack_decode_huffman src dst_len =
     (case huffman_bytes src [] dst_len 0 0 of
        None \<Rightarrow> None
      | Some (dst, bits, nbits) \<Rightarrow> if nbits > 7 \<or> bits \<noteq> push_bit nbits 1 - 1 then None else Some dst)"

section \<open>Bit strings\<close>

text \<open>The value of a bit string, most significant bit first.\<close>

fun bval :: "bool list \<Rightarrow> nat" where
  "bval [] = 0"
| "bval (b # bs) = of_bool b * 2 ^ length bs + bval bs"

fun bits_of :: "nat \<Rightarrow> nat \<Rightarrow> bool list" where
  "bits_of 0 v = []"
| "bits_of (Suc n) v = bits_of n (v div 2) @ [odd v]"

lemma bval_append: "bval (xs @ ys) = bval xs * 2 ^ length ys + bval ys"
  by (induction xs) (auto simp: algebra_simps power_add)

lemma bval_less: "bval xs < 2 ^ length xs"
  by (induction xs) auto

lemma length_bits_of [simp]: "length (bits_of n v) = n"
  by (induction n arbitrary: v) auto

lemma bval_bits_of: "v < 2 ^ n \<Longrightarrow> bval (bits_of n v) = v"
proof (induction n arbitrary: v)
  case (Suc n)
  have "v div 2 < 2 ^ n" using Suc.prems by (simp add: less_mult_imp_div_less mult.commute)
  then show ?case using Suc.IH by (simp add: bval_append) presburger
qed simp

lemma bval_inject: "length xs = length ys \<Longrightarrow> bval xs = bval ys \<Longrightarrow> xs = ys"
proof (induction xs ys rule: list_induct2)
  case (Cons x xs y ys)
  have "bval xs < 2 ^ length ys" "bval ys < 2 ^ length ys" using bval_less[of xs] bval_less[of ys] Cons.hyps by auto
  then show ?case using Cons by (auto simp: of_bool_def split: if_splits)
qed simp

lemma bval_take: "n \<le> length p \<Longrightarrow> bval (take n p) = bval p div 2 ^ (length p - n)"
  and bval_drop: "n \<le> length p \<Longrightarrow> bval (drop n p) = bval p mod 2 ^ (length p - n)"
  using bval_append[of "take n p" "drop n p"] bval_less[of "drop n p"] by auto

lemma bval_ones: "bval (replicate n True) = 2 ^ n - 1"
  by (induction n) auto

section \<open>The code is prefix-free\<close>

text \<open>As numbers of 30 bits, the codes of the table follow one another without a gap.\<close>

fun chained :: "nat \<Rightarrow> huffman_decode_entry list \<Rightarrow> nat \<Rightarrow> bool" where
  "chained a [] z \<longleftrightarrow> a = z"
| "chained a ((b, n, s) # t) z \<longleftrightarrow> 5 \<le> n \<and> n \<le> 30 \<and> unat b * 2 ^ (30 - n) = a \<and> chained (a + 2 ^ (30 - n)) t z"

lemma huffman_chained: "chained 0 huffman_table (2 ^ 30 - 1)"
  by (simp add: huffman_table_def huffman_short_def huffman_long_def)

lemma chained_bounds:
  "chained a t z \<Longrightarrow> (b, n, s) \<in> set t \<Longrightarrow>
     a \<le> unat b * 2 ^ (30 - n) \<and> unat b * 2 ^ (30 - n) + 2 ^ (30 - n) \<le> z \<and> 5 \<le> n \<and> n \<le> 30"
proof (induction a t z rule: chained.induct)
  case (2 a b' n' s' t z)
  have "a' \<le> z" if "chained a' t z" for a' using that by (induction a' t z rule: chained.induct) auto
  then show ?case using 2 by fastforce
qed simp

text \<open>An entry matches a bit string that begins with its code.\<close>

definition matches :: "bool list \<Rightarrow> huffman_decode_entry \<Rightarrow> bool" where
  "matches p e = (case e of (b, n, s) \<Rightarrow> n \<le> length p \<and> bval (take n p) = unat b)"

lemma matches_interval:
  assumes "matches p (b, n, s)" "n \<le> 30"
  shows "unat b * 2 ^ (30 - n) \<le> bval (take 30 (p @ replicate 30 False))"
    "bval (take 30 (p @ replicate 30 False)) < unat b * 2 ^ (30 - n) + 2 ^ (30 - n)"
proof -
  define q where "q = take 30 (p @ replicate 30 False)"
  have q: "length q = 30" "take n q = take n p" using assms by (auto simp: q_def matches_def min_def)
  then have "bval q = unat b * 2 ^ (30 - n) + bval (drop n q)"
    using assms bval_append[of "take n q" "drop n q", unfolded append_take_drop_id] by (simp add: matches_def)
  moreover have "bval (drop n q) < 2 ^ (30 - n)" using bval_less[of "drop n q"] q(1) by simp
  ultimately show "unat b * 2 ^ (30 - n) \<le> bval (take 30 (p @ replicate 30 False))"
    "bval (take 30 (p @ replicate 30 False)) < unat b * 2 ^ (30 - n) + 2 ^ (30 - n)"
    by (auto simp: q_def)
qed

lemma chained_unique:
  assumes "chained a t z" "e \<in> set t" "e' \<in> set t" "matches p e" "matches p e'"
  shows "e = e'"
  using assms
proof (induction a t z rule: chained.induct)
  case (2 a b n s t z)
  have False if x: "(b', n', s') \<in> set t" "matches p (b', n', s')" "matches p (b, n, s)" for b' n' s'
  proof -
    have "a + 2 ^ (30 - n) \<le> unat b' * 2 ^ (30 - n')" "n' \<le> 30" using chained_bounds[of _ t z b' n' s'] 2 x(1) by auto
    then show False using matches_interval(1)[OF x(2)] matches_interval(2)[OF x(3)] 2 by simp
  qed
  then show ?case using 2 by (cases e; cases e') auto
qed simp

lemma find_SomeD: "find P xs = Some x \<Longrightarrow> x \<in> set xs \<and> P x"
  by (induction xs) (auto split: if_splits)

section \<open>Decoding\<close>

text \<open>The pending bits of the decoder stand for a bit string.\<close>

definition holds_bits :: "u64 \<Rightarrow> nat \<Rightarrow> bool list \<Rightarrow> bool" where
  "holds_bits bits nbits p \<longleftrightarrow> nbits = length p \<and> unat bits = bval p"

lemma unat_low_mask: "unat (w AND (push_bit n 1 - 1) :: u64) = unat w mod 2 ^ n"
proof -
  have "w AND (push_bit n 1 - 1) = take_bit n w" by (simp add: take_bit_eq_mask mask_eq_exp_minus_1 push_bit_of_1)
  then show ?thesis by (simp only: unsigned_take_bit_eq) (simp add: take_bit_eq_mod)
qed

lemma code_bits:
  assumes h: "holds_bits bits nbits p" and len: "len \<le> length p" "len \<le> 30"
  shows "unat (ucast (drop_bit (nbits - len) bits AND (push_bit len 1 - 1)) :: u32) = bval (take len p)"
proof -
  let ?x = "drop_bit (nbits - len) bits AND (push_bit len 1 - 1) :: u64"
  have d: "unat (drop_bit (nbits - len) bits) = bval (take len p)"
    using h len by (simp only: unat_drop_bit_eq) (simp add: holds_bits_def drop_bit_eq_div bval_take)
  have less: "bval (take len p) < 2 ^ len" using bval_less[of "take len p"] len by simp
  then have x: "unat ?x = bval (take len p)" by (simp only: unat_low_mask d) simp
  have "(2 :: nat) ^ len \<le> 2 ^ 32" using len by (intro power_increasing) auto
  then have "take_bit 32 (unat ?x) = unat ?x" using x less by (intro take_bit_nat_eq_self) linarith
  then show ?thesis using x by (simp add: unsigned_ucast_eq del: push_bit_of_1)
qed

lemma huffman_search_Some:
  assumes h: "holds_bits bits nbits p" "length p \<le> 64" and e: "(b, n, s) \<in> set huffman_table" "matches p (b, n, s)"
    and len: "n \<le> len" "len \<le> length p" "len \<le> 30"
  shows "huffman_search bits nbits len = Some (n, s)"
  using len
proof (induction len)
  case 0
  then show ?case using chained_bounds[OF huffman_chained e(1)] by simp
next
  case (Suc len)
  let ?P = "\<lambda>(b, m, s). m = Suc len \<and> b = (ucast (drop_bit (nbits - Suc len) bits AND (push_bit (Suc len) 1 - 1)) :: u32)"
  have n5: "5 \<le> n" using chained_bounds[OF huffman_chained e(1)] by simp
  have uniq: "e' = (b, n, s)" if "e' \<in> set huffman_table" "?P e'" for e'
  proof -
    have "matches p e'" using that(2) code_bits[OF h(1), of "Suc len"] Suc.prems by (cases e') (auto simp: matches_def)
    then show ?thesis using chained_unique[OF huffman_chained that(1) e(1)] e(2) by simp
  qed
  show ?case
  proof (cases "find ?P huffman_table")
    case None
    then have "\<not> ?P (b, n, s)" using e(1) by (auto simp: find_None_iff)
    moreover have "?P (b, n, s)" if "n = Suc len"
      using code_bits[OF h(1), of "Suc len"] e(2) Suc.prems that by (simp add: matches_def word_unat_eq_iff)
    ultimately have "n \<le> len" using Suc.prems by (cases "n = Suc len") auto
    then show ?thesis using Suc None n5 by (subst huffman_search.simps) (simp add: Let_def)
  next
    case (Some e')
    then have "e' \<in> set huffman_table" "?P e'" using find_SomeD[OF Some] by auto
    then have "e' = (b, n, s)" "n = Suc len" using uniq[of e'] by auto
    then show ?thesis using Some n5 by (subst huffman_search.simps) (simp add: Let_def)
  qed
qed

lemma huffman_search_None:
  assumes h: "holds_bits bits nbits p" "length p \<le> 64" and e: "\<forall>e\<in>set huffman_table. \<not> matches p e"
    and len: "len \<le> length p" "len \<le> 30"
  shows "huffman_search bits nbits len = None"
  using len
proof (induction len)
  case 0
  then show ?case by (simp add: huffman_search.simps)
next
  case (Suc len)
  let ?P = "\<lambda>(b, m, s). m = Suc len \<and> b = (ucast (drop_bit (nbits - Suc len) bits AND (push_bit (Suc len) 1 - 1)) :: u32)"
  have "matches p e'" if "?P e'" for e'
    using that code_bits[OF h(1), of "Suc len"] Suc.prems by (cases e') (auto simp: matches_def)
  then have "find ?P huffman_table = None" using e by (auto simp: find_None_iff)
  then show ?case using Suc by (subst huffman_search.simps) (simp add: Let_def)
qed

section \<open>The decoder inverts the encoding by the table\<close>

fun symbol_mask :: "huffman_decode_entry list \<Rightarrow> int" where
  "symbol_mask [] = 0"
| "symbol_mask ((b, n, s) # t) = 2 ^ unat s OR symbol_mask t"

lemma bit_symbol_mask: "bit (symbol_mask t) i \<longleftrightarrow> (\<exists>b n s. (b, n, s) \<in> set t \<and> unat s = i)"
  by (induction t rule: symbol_mask.induct) (auto simp: bit_simps)

lemma huffman_mask: "symbol_mask huffman_table = 2 ^ 256 - 1"
  by (simp add: huffman_table_def huffman_short_def huffman_long_def)

lemma huffman_complete: "\<exists>b n. (b, n, s) \<in> set huffman_table"
proof -
  have "symbol_mask huffman_table = mask 256" by (simp only: huffman_mask mask_eq_exp_minus_1)
  moreover have "unat s < 256" using unsigned_less[of s] by simp
  ultimately have "bit (symbol_mask huffman_table) (unat s)" by (simp only: bit_mask_iff) (simp add: possible_bit_def)
  then obtain b n t where "(b, n, t) \<in> set huffman_table" "unat t = unat s" by (auto simp: bit_symbol_mask)
  moreover from this have "t = s" by (simp add: word_unat_eq_iff)
  ultimately show ?thesis by blast
qed

definition huffman_code :: "u8 \<Rightarrow> bool list" where
  "huffman_code s = (case find (\<lambda>(b, n, t). t = s) huffman_table of None \<Rightarrow> [] | Some (b, n, t) \<Rightarrow> bits_of n (unat b))"

definition codes :: "bytes \<Rightarrow> bool list" where
  "codes ss = concat (map huffman_code ss)"

lemma codes_simps [simp]: "codes [] = []" "codes (s # ss) = huffman_code s @ codes ss"
  by (simp_all add: codes_def)

lemma huffman_code_entry:
  obtains b n where "(b, n, s) \<in> set huffman_table" "length (huffman_code s) = n" "bval (huffman_code s) = unat b" "5 \<le> n" "n \<le> 30"
proof -
  obtain e where e: "find (\<lambda>(b, n, t). t = s) huffman_table = Some e"
    using huffman_complete[of s] by (cases "find (\<lambda>(b, n, t). t = s) huffman_table") (auto simp: find_None_iff)
  obtain b n where bn: "e = (b, n, s)" "(b, n, s) \<in> set huffman_table" using find_SomeD[OF e] by (cases e) auto
  have n: "5 \<le> n" "n \<le> 30" and up: "unat b * 2 ^ (30 - n) + 2 ^ (30 - n) \<le> 2 ^ 30 - 1"
    using chained_bounds[OF huffman_chained bn(2)] by auto
  have "unat b * 2 ^ (30 - n) < 2 ^ n * 2 ^ (30 - n)" using up n(2) by (simp flip: power_add)
  then have "unat b < 2 ^ n" by simp
  then show ?thesis using that[of b n] bn n e by (simp add: huffman_code_def bval_bits_of)
qed

lemma matches_code: "(b, n, s) \<in> set huffman_table \<Longrightarrow> length c = n \<Longrightarrow> bval c = unat b \<Longrightarrow> matches (c @ r) (b, n, s)"
  by (simp add: matches_def)

lemma matches_append: "matches p e \<Longrightarrow> matches (p @ r) e"
  by (auto simp: matches_def)

lemma ones_match_none:
  assumes "p @ r = replicate k True" "e \<in> set huffman_table"
  shows "\<not> matches p e"
proof
  assume m: "matches p e"
  obtain b n s where e: "e = (b, n, s)" by (cases e)
  have b: "n \<le> 30" "unat b * 2 ^ (30 - n) + 2 ^ (30 - n) \<le> 2 ^ 30 - 1"
    using chained_bounds[OF huffman_chained assms(2)[unfolded e]] by auto
  have "take n p = replicate n True"
    using m e assms(1) by (intro replicate_eqI) (auto simp: matches_def dest!: in_set_takeD, metis Un_iff in_set_replicate set_append)
  then have "unat b = 2 ^ n - 1" using m e by (simp add: matches_def bval_ones)
  then have "unat b * 2 ^ (30 - n) + 2 ^ (30 - n) = 2 ^ n * 2 ^ (30 - n)" by (simp add: diff_mult_distrib)
  also have "\<dots> = 2 ^ 30" using b(1) by (simp flip: power_add)
  finally show False using b(2) by simp
qed

lemma holds_drop:
  assumes "holds_bits bits nbits p" "n \<le> length p"
  shows "holds_bits (bits AND (push_bit (nbits - n) 1 - 1)) (nbits - n) (drop n p)"
  using assms by (simp only: holds_bits_def unat_low_mask) (simp add: bval_drop)

lemma symbols_stop:
  assumes "holds_bits bits nbits p" "length p \<le> 64" "\<forall>e\<in>set huffman_table. \<not> matches p e"
  shows "huffman_symbols dst dst_len bits nbits = Some (dst, bits, nbits)"
  using huffman_search_None[OF assms, of "if nbits > 30 then 30 else nbits"] assms(1)
  by (subst huffman_symbols.simps) (auto simp: holds_bits_def)

lemma symbols_step:
  assumes h: "holds_bits bits nbits p" "length p \<le> 64" and p: "p = huffman_code s @ q" and room: "length dst < dst_len"
  shows "\<exists>bits'. huffman_symbols dst dst_len bits nbits = huffman_symbols (dst @ [s]) dst_len bits' (length q) \<and>
     holds_bits bits' (length q) q"
proof -
  obtain b n where e: "(b, n, s) \<in> set huffman_table" "length (huffman_code s) = n" "bval (huffman_code s) = unat b" "5 \<le> n" "n \<le> 30"
    by (rule huffman_code_entry)
  have np: "nbits = length p" "n \<le> length p" using h e(2) by (auto simp: holds_bits_def p)
  let ?len = "if nbits > 30 then 30 else nbits"
  have "huffman_search bits nbits ?len = Some (n, s)"
    using matches_code[OF e(1-3), of q] np e(4,5) by (intro huffman_search_Some[OF h e(1)]) (auto simp: p)
  moreover have "drop n p = q" "nbits - n = length q" using np e(2) by (auto simp: p)
  ultimately show ?thesis
    using holds_drop[OF h(1) np(2)] np e(4) room by (subst huffman_symbols.simps) (auto intro!: exI)
qed

text \<open>When the bits of a stream of codes with its padding are pending, no code is, or the next one.\<close>

lemma stream_next:
  assumes st: "p @ r = codes ss @ replicate k True"
  obtains "\<forall>e\<in>set huffman_table. \<not> matches p e" "length p \<le> max 29 k" "r = [] \<longrightarrow> ss = []"
  | s ss' q where "ss = s # ss'" "p = huffman_code s @ q" "q @ r = codes ss' @ replicate k True"
proof (cases ss)
  case Nil
  then have "length p + length r = k" using st by (metis codes_simps(1) length_append length_replicate append_Nil)
  then show ?thesis using that(1) ones_match_none[of p r k] st Nil by auto
next
  case (Cons s ss')
  obtain b n where e: "(b, n, s) \<in> set huffman_table" "length (huffman_code s) = n" "bval (huffman_code s) = unat b" "5 \<le> n" "n \<le> 30"
    by (rule huffman_code_entry)
  show ?thesis
  proof (cases "n \<le> length p")
    case True
    then have "take n p = huffman_code s" using st Cons e(2) by (metis append_eq_append_conv_if append_eq_conv_conj codes_simps(2) append.assoc)
    then have p: "p = huffman_code s @ drop n p" by (metis append_take_drop_id)
    then have "drop n p @ r = codes ss' @ replicate k True" using st Cons by (metis append.assoc codes_simps(2) same_append_eq)
    then show ?thesis using that(2) Cons p by blast
  next
    case False
    have m: "matches (p @ r) (b, n, s)" using matches_code[OF e(1-3)] st Cons by simp
    have "\<not> matches p e'" if "e' \<in> set huffman_table" for e'
    proof
      assume "matches p e'"
      then have "e' = (b, n, s)" using chained_unique[OF huffman_chained that e(1) matches_append m] by blast
      then show False using \<open>matches p e'\<close> False by (simp add: matches_def)
    qed
    moreover have "r \<noteq> []" using False e(2) st Cons by (metis append_Nil2 codes_simps(2) le_add1 length_append append.assoc)
    ultimately show ?thesis using that(1) False e(5) by auto
  qed
qed

lemma huffman_drain:
  assumes "holds_bits bits nbits p" "length p \<le> 64" "p @ r = codes ss @ replicate k True" "length dst + length ss \<le> dst_len"
  shows "\<exists>ss1 ss2 p' bits'. ss = ss1 @ ss2 \<and> huffman_symbols dst dst_len bits nbits = Some (dst @ ss1, bits', length p') \<and>
     holds_bits bits' (length p') p' \<and> p' @ r = codes ss2 @ replicate k True \<and> length p' \<le> max 29 k \<and> (r = [] \<longrightarrow> ss2 = [])"
  using assms
proof (induction ss arbitrary: dst bits nbits p)
  case Nil
  have "\<forall>e\<in>set huffman_table. \<not> matches p e" "length p \<le> k"
    using ones_match_none[of p r k] Nil(3)
    by (auto, metis Nil(3) append_Nil codes_simps(1) le_add1 length_append length_replicate)
  then show ?case using symbols_stop[OF Nil(1,2)] Nil by (intro exI[of _ "[]"] exI[of _ p] exI[of _ bits]) (auto simp: holds_bits_def)
next
  case (Cons s ss)
  from Cons.prems(3) show ?case
  proof (cases rule: stream_next)
    case 1
    have "nbits = length p" using Cons.prems(1) by (simp add: holds_bits_def)
    then show ?thesis using symbols_stop[OF Cons.prems(1,2) 1(1)] Cons.prems(1,3) 1
      by (intro exI[of _ "[]"] exI[of _ "s # ss"] exI[of _ p] exI[of _ bits]) simp
  next
    case (2 s' ss' q)
    obtain bits' where b: "huffman_symbols dst dst_len bits nbits = huffman_symbols (dst @ [s]) dst_len bits' (length q)"
      "holds_bits bits' (length q) q" using symbols_step[OF Cons.prems(1,2), of s q dst dst_len] 2 Cons.prems(4) by auto
    have q: "length q \<le> 64" "q @ r = codes ss @ replicate k True" "length (dst @ [s]) + length ss \<le> dst_len"
      using 2 Cons.prems by auto
    obtain ss1 ss2 p' bits'' where i: "ss = ss1 @ ss2" "huffman_symbols (dst @ [s]) dst_len bits' (length q) = Some ((dst @ [s]) @ ss1, bits'', length p')"
      "holds_bits bits'' (length p') p'" "p' @ r = codes ss2 @ replicate k True" "length p' \<le> max 29 k" "r = [] \<longrightarrow> ss2 = []"
      using Cons.IH[OF b(2) q] by blast
    show ?thesis using b(1) i by (intro exI[of _ "s # ss1"] exI[of _ ss2] exI[of _ p'] exI[of _ bits'']) simp
  qed
qed

definition byte_bits :: "bytes \<Rightarrow> bool list" where
  "byte_bits src = concat (map (\<lambda>b. bits_of 8 (unat b)) src)"

lemma holds_shift:
  assumes "holds_bits bits nbits p" "length p \<le> 56"
  shows "holds_bits (push_bit 8 bits OR ucast (b :: u8)) (nbits + 8) (p @ bits_of 8 (unat b))"
proof -
  have b: "unat b < 256" using unsigned_less[of b] by simp
  have "bval p < 2 ^ length p" by (rule bval_less)
  moreover have "(2 :: nat) ^ length p \<le> 2 ^ 56" using assms(2) by (intro power_increasing) auto
  ultimately have p: "bval p * 256 + 256 \<le> 2 ^ 64" by simp
  have "push_bit 8 bits AND ucast b = (0 :: u64)"
    by (rule bit_word_eqI) (auto simp: bit_simps dest!: bit_imp_le_length)
  then have "push_bit 8 bits OR ucast b = push_bit 8 bits + (ucast b :: u64)" by (rule disjunctive_add_eq_or[symmetric])
  also have "unat \<dots> = unat bits * 256 + unat b"
  proof -
    have "unat (push_bit 8 bits) = unat bits * 256"
      using p assms(1) by (simp only: unsigned_push_bit_eq) (simp add: push_bit_eq_mult take_bit_nat_eq_self holds_bits_def)
    moreover have "unat (ucast b :: u64) = unat b" using b by (simp add: unsigned_ucast_eq take_bit_nat_eq_self)
    ultimately show ?thesis
      using unat_add_lem[of "push_bit 8 bits" "ucast b :: u64"] p b assms(1) by (simp add: holds_bits_def)
  qed
  finally show ?thesis using assms b by (simp add: holds_bits_def bval_append bval_bits_of)
qed

lemma huffman_bytes_codes:
  assumes "holds_bits bits nbits p" "length p \<le> 29" "k < 8" "p @ byte_bits src = codes ss @ replicate k True"
    "length dst + length ss \<le> dst_len" "src = [] \<longrightarrow> ss = []"
  shows "\<exists>bits'. huffman_bytes src dst dst_len bits nbits = Some (dst @ ss, bits', k) \<and> holds_bits bits' k (replicate k True)"
  using assms
proof (induction src arbitrary: dst bits nbits p ss)
  case Nil
  then show ?case by (auto simp: byte_bits_def holds_bits_def)
next
  case (Cons b src)
  let ?p = "p @ bits_of 8 (unat b)" and ?bits = "push_bit 8 bits OR ucast b"
  have h: "holds_bits ?bits (nbits + 8) ?p" using holds_shift[OF Cons.prems(1)] Cons.prems(2) by simp
  have st: "?p @ byte_bits src = codes ss @ replicate k True" using Cons.prems(4) by (simp add: byte_bits_def)
  have "length ?p \<le> 64" using Cons.prems(2) by simp
  from huffman_drain[OF h this st Cons.prems(5)] obtain ss1 ss2 p' bits' where
    i: "ss = ss1 @ ss2" "huffman_symbols dst dst_len ?bits (nbits + 8) = Some (dst @ ss1, bits', length p')"
      "holds_bits bits' (length p') p'" "p' @ byte_bits src = codes ss2 @ replicate k True" "length p' \<le> max 29 k"
      "byte_bits src = [] \<longrightarrow> ss2 = []" by blast
  have "length p' \<le> 29" "length (dst @ ss1) + length ss2 \<le> dst_len" "src = [] \<longrightarrow> ss2 = []"
    using i Cons.prems(3,5) by (auto simp: byte_bits_def)
  from Cons.IH[OF i(3) this(1) Cons.prems(3) i(4) this(2,3)] show ?case
    using i(1,2) Cons.prems(1,2) by (auto simp: holds_bits_def)
qed

text \<open>The encoding of a string: its codes, filled up with ones to full bytes.\<close>

fun pack :: "bool list \<Rightarrow> bytes" where
  "pack bs = (if bs = [] then [] else of_nat (bval (take 8 bs)) # pack (drop 8 bs))"

declare pack.simps [simp del]

definition huffman_pad :: "bytes \<Rightarrow> nat" where
  "huffman_pad ss = (8 - length (codes ss) mod 8) mod 8"

definition huffman_encode :: "bytes \<Rightarrow> bytes" where
  "huffman_encode ss = pack (codes ss @ replicate (huffman_pad ss) True)"

lemma byte_bits_pack: "8 dvd length bs \<Longrightarrow> byte_bits (pack bs) = bs"
proof (induction bs rule: pack.induct)
  case (1 bs)
  show ?case
  proof (cases "bs = []")
    case False
    then have l: "8 \<le> length bs" using 1(2) by (auto dest: dvd_imp_le)
    then have "bval (take 8 bs) < 256" using bval_less[of "take 8 bs"] by simp
    then have u: "unat (of_nat (bval (take 8 bs)) :: u8) = bval (take 8 bs)" by (simp add: of_nat_inverse)
    have "bits_of 8 (bval (take 8 bs)) = take 8 bs"
      using l \<open>bval (take 8 bs) < 256\<close> by (intro bval_inject) (simp_all add: bval_bits_of)
    moreover have "byte_bits (pack (drop 8 bs)) = drop 8 bs" using 1 False l by simp
    ultimately show ?thesis using False u by (subst pack.simps) (simp add: byte_bits_def)
  qed (simp add: pack.simps byte_bits_def)
qed

lemma pad_dvd: "8 dvd (n :: nat) + (8 - n mod 8) mod 8"
proof -
  have "n mod 8 < 8" by simp
  then have "(n mod 8 + (8 - n mod 8) mod 8) mod 8 = 0" by (cases "n mod 8 = 0") simp_all
  then show ?thesis by (metis dvd_eq_mod_eq_0 mod_add_left_eq)
qed

lemma codes_length: "5 * length ss \<le> length (codes ss)"
proof (induction ss)
  case (Cons s ss)
  obtain b n where "length (huffman_code s) = n" "5 \<le> n" by (rule huffman_code_entry[of s]) blast
  then show ?case using Cons by simp
qed simp

lemma decode_huffman_encode:
  assumes "length ss \<le> dst_len"
  shows "hpack_decode_huffman (huffman_encode ss) dst_len = Some ss"
proof -
  let ?k = "huffman_pad ss"
  have k: "?k < 8" by (simp add: huffman_pad_def)
  have "8 dvd length (codes ss @ replicate ?k True)" using pad_dvd[of "length (codes ss)"] by (simp add: huffman_pad_def)
  from byte_bits_pack[OF this] have st: "[] @ byte_bits (huffman_encode ss) = codes ss @ replicate ?k True"
    by (simp add: huffman_encode_def)
  moreover have "huffman_encode ss = [] \<longrightarrow> ss = []" using st codes_length[of ss] by (auto simp: byte_bits_def)
  ultimately obtain bits where "huffman_bytes (huffman_encode ss) [] dst_len 0 0 = Some (ss, bits, ?k)"
    "holds_bits bits ?k (replicate ?k True)"
    using huffman_bytes_codes[of 0 0 "[]" ?k "huffman_encode ss" ss "[]" dst_len] k assms by (auto simp: holds_bits_def)
  moreover from this(2) have "bits = push_bit ?k 1 - 1"
  proof -
    have "unat (push_bit ?k 1 - 1 :: u64) = 2 ^ ?k - 1" using unat_max_prefix[of ?k] k by simp
    then show ?thesis using \<open>holds_bits bits ?k (replicate ?k True)\<close> by (simp add: holds_bits_def bval_ones word_unat_eq_iff)
  qed
  ultimately show ?thesis using k by (simp add: hpack_decode_huffman_def)
qed

lemma huffman_encode_length: "length ss \<le> 2 * length (huffman_encode ss)"
proof -
  let ?bs = "codes ss @ replicate (huffman_pad ss) True"
  have "length (byte_bits src) = 8 * length src" for src by (induction src) (auto simp: byte_bits_def)
  moreover have "byte_bits (huffman_encode ss) = ?bs"
    using byte_bits_pack[of ?bs] pad_dvd[of "length (codes ss)"] by (simp add: huffman_encode_def huffman_pad_def)
  ultimately have "length (codes ss) \<le> 8 * length (huffman_encode ss)" by (metis length_append le_add1)
  then show ?thesis using codes_length[of ss] by simp
qed

text \<open>
  C11: Huffman round trip. The table of \<^verbatim>\<open>hpack.c\<close> decodes the encoding of every string of bytes, padded with
  ones to whole bytes, to that string, whatever the string is, as soon as the destination has room for it. The
  decoder's search over the lengths of the codes therefore finds the code that was written, for all 256 bytes.
\<close>

theorem huffman_roundtrip:
  assumes "length ss \<le> dst_len"
  shows "hpack_decode_huffman (huffman_encode ss) dst_len = Some ss"
  by (rule decode_huffman_encode[OF assms])

theorem huffman_roundtrip_witness: "hpack_decode_huffman (huffman_encode [119, 0, 255]) 3 = Some [119, 0, 255]"
  by (rule huffman_roundtrip) simp

end
