(* ===== verification/Hpack.thy ===== *)
theory Hpack
  imports Hpack_Huffman
begin

text \<open>
  HPACK header compression (\<^verbatim>\<open>http_parse/hpack.c\<close>, \<^verbatim>\<open>http_parse/hpack.h\<close>): strings, the static and the
  dynamic table, \<^verbatim>\<open>hpack_encode_header\<close> and \<^verbatim>\<open>hpack_decode_headers\<close>. The outer option is a memory fault.
  Allocations succeed. A string in memory is the bytes before its first NUL, which is all that its readers see,
  and has fewer than 2 GiB.
\<close>

section \<open>Strings\<close>

definition hpack_encode_string :: "cstring \<Rightarrow> bytes \<Rightarrow> nat \<Rightarrow> int \<Rightarrow> (int \<times> bytes) option" where
  "hpack_encode_string str buf pos buf_size =
     (let len = length str in
      if buf_size < 1 then Some (-1, buf)
      else do {
        buf \<leftarrow> wr buf pos 0;
        (ret, buf) \<leftarrow> hpack_encode_integer (of_nat len) 7 buf pos buf_size;
        if ret < 0 then Some (-1, buf)
        else if ret + int len > buf_size then Some (-1, buf)
        else do {
          buf \<leftarrow> wrs buf (pos + nat ret) str;
          Some (ret + int len, buf) } })"

text \<open>The result is the number of bytes read and the string.\<close>

definition hpack_decode_string :: "bytes \<Rightarrow> int \<Rightarrow> (nat \<times> cstring) parsed" where
  "hpack_decode_string d data_len =
     (if data_len < 1 then Some None
      else
        andthen (got (rd d 0)) (\<lambda>b.
        andthen (hpack_decode_integer d data_len 7) (\<lambda>(offset, len).
        if int offset > data_len \<or> len > of_int (data_len - int offset) \<or> len > -1 - 1 then Some None
        else if b AND 0x80 \<noteq> 0 then
          if unat len > (2147483647 - 1) div 2 \<or> unat len > (2 ^ 64 - 1 - 1) div 2 then Some None
          else
            andthen (got (rds d offset (unat len))) (\<lambda>src.
            andthen (Some (hpack_decode_huffman src (unat len * 2))) (\<lambda>decoded.
            Some (Some (offset + unat len, cstr decoded))))
        else
          andthen (got (rds d offset (unat len))) (\<lambda>src.
          Some (Some (offset + unat len, cstr src))))))"

section \<open>The tables\<close>

definition hpack_static_table :: "(cstring \<times> cstring) list" where
  "hpack_static_table = map (\<lambda>(n, v). (bytes_of n, bytes_of v))
     [('':authority'', ''''), ('':method'', ''GET''), ('':method'', ''POST''), ('':path'', ''/''),
      ('':path'', ''/index.html''), ('':scheme'', ''http''), ('':scheme'', ''https''), ('':status'', ''200''),
      ('':status'', ''204''), ('':status'', ''206''), ('':status'', ''304''), ('':status'', ''400''),
      ('':status'', ''404''), ('':status'', ''500''), (''accept-charset'', ''''),
      (''accept-encoding'', ''gzip, deflate''), (''accept-language'', ''''), (''accept-ranges'', ''''),
      (''accept'', ''''), (''access-control-allow-origin'', ''''), (''age'', ''''), (''allow'', ''''),
      (''authorization'', ''''), (''cache-control'', ''''), (''content-disposition'', ''''),
      (''content-encoding'', ''''), (''content-language'', ''''), (''content-length'', ''''),
      (''content-location'', ''''), (''content-range'', ''''), (''content-type'', ''''), (''cookie'', ''''),
      (''date'', ''''), (''etag'', ''''), (''expect'', ''''), (''expires'', ''''), (''from'', ''''), (''host'', ''''),
      (''if-match'', ''''), (''if-modified-since'', ''''), (''if-none-match'', ''''), (''if-range'', ''''),
      (''if-unmodified-since'', ''''), (''last-modified'', ''''), (''link'', ''''), (''location'', ''''),
      (''max-forwards'', ''''), (''proxy-authenticate'', ''''), (''proxy-authorization'', ''''), (''range'', ''''),
      (''referer'', ''''), (''refresh'', ''''), (''retry-after'', ''''), (''server'', ''''), (''set-cookie'', ''''),
      (''strict-transport-security'', ''''), (''transfer-encoding'', ''''), (''user-agent'', ''''), (''vary'', ''''),
      (''via'', ''''), (''www-authenticate'', '''')]"

abbreviation (input) HPACK_MAX_DYNAMIC_TABLE_SIZE :: nat where "HPACK_MAX_DYNAMIC_TABLE_SIZE \<equiv> 65536"

record hpack_dynamic_entry =
  hd_name :: cstring
  hd_value :: cstring
  hd_size :: nat

text \<open>The dynamic table is its linked list, newest entry first.\<close>

record hpack_context =
  hp_table :: "hpack_dynamic_entry list"
  hp_size :: nat
  hp_max :: nat
  hp_count :: int

definition hpack_init_context :: hpack_context where
  "hpack_init_context = \<lparr>hp_table = [], hp_size = 0, hp_max = 65536, hp_count = 0\<rparr>"

definition hpack_free_context :: "hpack_context \<Rightarrow> hpack_context" where
  "hpack_free_context h = h\<lparr>hp_table := [], hp_size := 0, hp_count := 0\<rparr>"

text \<open>The eviction loop of the last entries while the table with \<open>need\<close> more bytes exceeds its limit.\<close>

function hpack_evict :: "nat \<Rightarrow> hpack_context \<Rightarrow> hpack_context" where
  "hpack_evict need h =
     (if hp_size h + need > hp_max h \<and> hp_table h \<noteq> [] then
        hpack_evict need (h\<lparr>hp_table := butlast (hp_table h), hp_size := hp_size h - hd_size (last (hp_table h)),
          hp_count := hp_count h - 1\<rparr>)
      else h)"
  by pat_completeness auto
termination
  by (relation "measure (\<lambda>(need, h). length (hp_table h))") auto

declare hpack_evict.simps [simp del]

definition hpack_add_dynamic_entry :: "hpack_context \<Rightarrow> cstring \<Rightarrow> cstring \<Rightarrow> int \<times> hpack_context" where
  "hpack_add_dynamic_entry h name value =
     (let entry_size = length name + length value + 32;
          h = hpack_evict entry_size h
      in if entry_size > hp_max h then (0, h)
         else (0, h\<lparr>hp_table := \<lparr>hd_name = name, hd_value = value, hd_size = entry_size\<rparr> # hp_table h,
                hp_size := hp_size h + entry_size, hp_count := hp_count h + 1\<rparr>))"

definition hpack_get_entry :: "hpack_context \<Rightarrow> u64 \<Rightarrow> (cstring \<times> cstring) option" where
  "hpack_get_entry h index =
     (if index = 0 then None
      else if unat index \<le> length hpack_static_table then Some (hpack_static_table ! (unat index - 1))
      else
        let i = unat index - length hpack_static_table - 1 in
        if i < length (hp_table h) then Some (hd_name (hp_table h ! i), hd_value (hp_table h ! i)) else None)"

text \<open>The searches of both tables: the index of the pair and of the first entry with the name, or 0.\<close>

fun hpack_find_loop :: "nat \<Rightarrow> (cstring \<times> cstring) list \<Rightarrow> cstring \<Rightarrow> cstring \<Rightarrow> nat \<Rightarrow> nat \<times> nat" where
  "hpack_find_loop i [] name value name_only = (0, name_only)"
| "hpack_find_loop i ((n, v) # t) name value name_only =
     (if n = name then
        let name_only = (if name_only = 0 then i else name_only) in
        if v = value then (i, name_only) else hpack_find_loop (i + 1) t name value name_only
      else hpack_find_loop (i + 1) t name value name_only)"

definition hpack_find_index :: "hpack_context \<Rightarrow> cstring \<Rightarrow> cstring \<Rightarrow> nat \<times> nat" where
  "hpack_find_index h name value =
     (let (index, name_only) = hpack_find_loop 1 hpack_static_table name value 0
      in if index > 0 then (index, name_only)
         else hpack_find_loop (length hpack_static_table + 1)
                (map (\<lambda>e. (hd_name e, hd_value e)) (hp_table h)) name value name_only)"

section \<open>Encoding\<close>

definition hpack_encode_header ::
  "hpack_context \<Rightarrow> cstring \<Rightarrow> cstring \<Rightarrow> bytes \<Rightarrow> nat \<Rightarrow> int \<Rightarrow> (int \<times> bytes \<times> hpack_context) option" where
  "hpack_encode_header h name value buf pos buf_size =
     (let (index, name_only_index) = hpack_find_index h name value in
      if index > 0 then
        if buf_size < 1 then Some (-1, buf, h)
        else do {
          buf \<leftarrow> wr buf pos 0x80;
          (ret, buf) \<leftarrow> hpack_encode_integer (of_nat index) 7 buf pos buf_size;
          if ret < 0 then Some (-1, buf, h) else Some (ret, buf, h) }
      else if name_only_index > 0 then
        if buf_size < 1 then Some (-1, buf, h)
        else do {
          buf \<leftarrow> wr buf pos 0x40;
          (ret, buf) \<leftarrow> hpack_encode_integer (of_nat name_only_index) 6 buf pos buf_size;
          if ret < 0 then Some (-1, buf, h)
          else do {
            let offset = ret;
            (ret, buf) \<leftarrow> hpack_encode_string value buf (pos + nat offset) (buf_size - offset);
            if ret < 0 then Some (-1, buf, h)
            else Some (offset + ret, buf, snd (hpack_add_dynamic_entry h name value)) } }
      else if buf_size < 1 then Some (-1, buf, h)
      else do {
        buf \<leftarrow> wr buf pos 0x40;
        (ret, buf) \<leftarrow> hpack_encode_string name buf (pos + 1) (buf_size - 1);
        if ret < 0 then Some (-1, buf, h)
        else do {
          let offset = 1 + ret;
          (ret, buf) \<leftarrow> hpack_encode_string value buf (pos + nat offset) (buf_size - offset);
          if ret < 0 then Some (-1, buf, h)
          else Some (offset + ret, buf, snd (hpack_add_dynamic_entry h name value)) } })"

section \<open>Decoding\<close>

definition hpack_resize_dynamic_table :: "hpack_context \<Rightarrow> nat \<Rightarrow> hpack_context" where
  "hpack_resize_dynamic_table h new_size = hpack_evict 0 (h\<lparr>hp_max := new_size\<rparr>)"

text \<open>
  The name of a literal, which is the name of the entry \<open>index\<close> or a string behind the index. The
  result is the number of bytes of the string and the name.
\<close>

definition hpack_decode_name :: "hpack_context \<Rightarrow> u64 \<Rightarrow> bytes \<Rightarrow> int \<Rightarrow> (nat \<times> cstring) parsed" where
  "hpack_decode_name h index d data_len =
     (if index > 0 then andthen (Some (hpack_get_entry h index)) (\<lambda>(name, value). Some (Some (0, name)))
      else hpack_decode_string d data_len)"

text \<open>A literal header: the number of bytes, the name and the value.\<close>

definition hpack_decode_literal :: "hpack_context \<Rightarrow> nat \<Rightarrow> bytes \<Rightarrow> int \<Rightarrow> (nat \<times> cstring \<times> cstring) parsed" where
  "hpack_decode_literal h prefix d data_len =
     andthen (hpack_decode_integer d data_len prefix) (\<lambda>(off1, index).
     andthen (hpack_decode_name h index (drop off1 d) (data_len - int off1)) (\<lambda>(off2, name).
     andthen (hpack_decode_string (drop (off1 + off2) d) (data_len - int (off1 + off2))) (\<lambda>(off3, value).
     Some (Some (off1 + off2 + off3, name, value)))))"

text \<open>
  One round of the loop of \<^verbatim>\<open>hpack_decode_headers\<close> up to the callback, on the data that is left: the
  number of bytes read, the header unless it was a size update, and the table. After an error return the
  table is unchanged.
\<close>

definition hpack_decode_field ::
  "hpack_context \<Rightarrow> bytes \<Rightarrow> int \<Rightarrow> bool \<Rightarrow> (nat \<times> (cstring \<times> cstring) option \<times> hpack_context) parsed" where
  "hpack_decode_field h d data_len header_field_seen =
     andthen (got (rd d 0)) (\<lambda>b.
     if b AND 0x80 \<noteq> 0 then
       andthen (hpack_decode_integer d data_len 7) (\<lambda>(ret, index).
       andthen (Some (hpack_get_entry h index)) (\<lambda>nv.
       Some (Some (ret, Some nv, h))))
     else if b AND 0x40 \<noteq> 0 then
       andthen (hpack_decode_literal h 6 d data_len) (\<lambda>(n, name, value).
       Some (Some (n, Some (name, value), snd (hpack_add_dynamic_entry h name value))))
     else if b AND 0x20 \<noteq> 0 then
       if header_field_seen then Some None
       else
         andthen (hpack_decode_integer d data_len 5) (\<lambda>(ret, new_size).
         if unat new_size > HPACK_MAX_DYNAMIC_TABLE_SIZE then Some None
         else Some (Some (ret, None, hpack_resize_dynamic_table h (unat new_size))))
     else
       andthen (hpack_decode_literal h 4 d data_len) (\<lambda>(n, name, value).
       Some (Some (n, Some (name, value), h))))"

lemma decode_string_offset: "hpack_decode_string d n = Some (Some (j, v)) \<Longrightarrow> 1 \<le> j"
  by (auto simp: hpack_decode_string_def parsed_eq_Some split: if_splits dest!: decode_integer_offset)

lemma decode_literal_offset: "hpack_decode_literal h k d n = Some (Some (j, v)) \<Longrightarrow> 1 \<le> j"
  by (auto simp: hpack_decode_literal_def parsed_eq_Some dest!: decode_integer_offset)

lemma decode_field_offset: "hpack_decode_field h d n seen = Some (Some (j, r)) \<Longrightarrow> 1 \<le> j"
  by (auto simp: hpack_decode_field_def parsed_eq_Some split: if_splits
      dest!: decode_integer_offset decode_literal_offset)

text \<open>
  The loop; \<open>on_header\<close> is the callback with its context \<open>ctx\<close>. The result is the return value, the
  table and the callback's context.
\<close>

function hpack_decode_headers_loop ::
  "('c \<Rightarrow> cstring \<Rightarrow> cstring \<Rightarrow> int \<times> 'c) \<Rightarrow> bytes \<Rightarrow> int \<Rightarrow> nat \<Rightarrow> bool \<Rightarrow> hpack_context \<Rightarrow> 'c \<Rightarrow>
     (int \<times> hpack_context \<times> 'c) option" where
  "hpack_decode_headers_loop on_header d data_len offset header_field_seen h ctx =
     (if int offset < data_len then
        (case hpack_decode_field h (drop offset d) (data_len - int offset) header_field_seen of
           None \<Rightarrow> None
         | Some None \<Rightarrow> Some (-1, h, ctx)
         | Some (Some (n, None, h)) \<Rightarrow>
             hpack_decode_headers_loop on_header d data_len (offset + n) header_field_seen h ctx
         | Some (Some (n, Some (name, value), h)) \<Rightarrow>
             let (ret, ctx) = on_header ctx name value in
             if ret < 0 then Some (-1, h, ctx)
             else hpack_decode_headers_loop on_header d data_len (offset + n) True h ctx)
      else Some (0, h, ctx))"
  by pat_completeness auto
termination
  by (relation "measure (\<lambda>(_, _, data_len, offset, _). nat (data_len - int offset))") (auto dest!: decode_field_offset)

declare hpack_decode_headers_loop.simps [simp del]

definition hpack_decode_headers ::
  "hpack_context \<Rightarrow> bytes \<Rightarrow> int \<Rightarrow> ('c \<Rightarrow> cstring \<Rightarrow> cstring \<Rightarrow> int \<times> 'c) \<Rightarrow> 'c \<Rightarrow> (int \<times> hpack_context \<times> 'c) option" where
  "hpack_decode_headers h d data_len on_header ctx = hpack_decode_headers_loop on_header d data_len 0 False h ctx"

end
