(* ===== verification/Hpack_Safe.thy ===== *)
theory Hpack_Safe
  imports Hpack
begin

text \<open>
  The decoder on arbitrary bytes: it reads only the data it was given, ends, and keeps the table's
  accounting. The encoder: what it writes, and that it keeps the table's accounting.
\<close>

section \<open>The table\<close>

definition table_size :: "hpack_dynamic_entry list \<Rightarrow> nat" where
  "table_size t = sum_list (map hd_size t)"

definition hpack_inv :: "hpack_context \<Rightarrow> bool" where
  "hpack_inv h \<longleftrightarrow> hp_size h = table_size (hp_table h) \<and> hp_count h = int (length (hp_table h)) \<and>
     (\<forall>e\<in>set (hp_table h). hd_size e = length (hd_name e) + length (hd_value e) + 32) \<and>
     hp_size h \<le> hp_max h \<and> hp_max h \<le> HPACK_MAX_DYNAMIC_TABLE_SIZE"

lemma table_size_simps [simp]:
  "table_size [] = 0" "table_size (e # t) = hd_size e + table_size t" "table_size (t @ u) = table_size t + table_size u"
  by (simp_all add: table_size_def)

lemma table_size_butlast: "t \<noteq> [] \<Longrightarrow> table_size (butlast t) = table_size t - hd_size (last t)"
  by (induction t rule: rev_induct) simp_all

text \<open>The accounting that eviction keeps, whatever the limit is.\<close>

definition accounted :: "hpack_context \<Rightarrow> bool" where
  "accounted h \<longleftrightarrow> hp_size h = table_size (hp_table h) \<and> hp_count h = int (length (hp_table h)) \<and>
     (\<forall>e\<in>set (hp_table h). hd_size e = length (hd_name e) + length (hd_value e) + 32)"

lemma hpack_evict_post:
  assumes "accounted h"
  shows "accounted (hpack_evict need h) \<and> hp_max (hpack_evict need h) = hp_max h \<and>
     (hp_size (hpack_evict need h) + need \<le> hp_max h \<or> hp_table (hpack_evict need h) = []) \<and>
     (\<exists>old. hp_table h = hp_table (hpack_evict need h) @ old)"
  using assms
proof (induction need h rule: hpack_evict.induct)
  case (1 need h)
  show ?case
  proof (cases "hp_size h + need > hp_max h \<and> hp_table h \<noteq> []")
    case True
    let ?h = "h\<lparr>hp_table := butlast (hp_table h), hp_size := hp_size h - hd_size (last (hp_table h)), hp_count := hp_count h - 1\<rparr>"
    have "accounted ?h" using "1.prems" True by (auto simp: accounted_def table_size_butlast of_nat_diff Suc_leI dest: in_set_butlastD)
    with 1 True have "accounted (hpack_evict need ?h) \<and> hp_max (hpack_evict need ?h) = hp_max h \<and>
       (hp_size (hpack_evict need ?h) + need \<le> hp_max h \<or> hp_table (hpack_evict need ?h) = []) \<and>
       (\<exists>old. butlast (hp_table h) = hp_table (hpack_evict need ?h) @ old)" by simp
    moreover have "hpack_evict need h = hpack_evict need ?h" using True by (subst hpack_evict.simps) simp
    moreover have "hp_table h = butlast (hp_table h) @ [last (hp_table h)]" using True by simp
    ultimately show ?thesis by (metis append.assoc)
  next
    case False
    moreover have "hpack_evict need h = h" using False by (subst hpack_evict.simps) auto
    ultimately show ?thesis using "1.prems" by auto
  qed
qed

lemma hpack_add_inv:
  assumes "hpack_inv h"
  shows "hpack_inv (snd (hpack_add_dynamic_entry h name value))"
    "hp_max (snd (hpack_add_dynamic_entry h name value)) = hp_max h"
proof -
  let ?n = "length name + length value + 32"
  have "accounted h" "hp_max h \<le> 65536" using assms by (auto simp: hpack_inv_def accounted_def)
  note e = hpack_evict_post[OF this(1), of ?n]
  show "hpack_inv (snd (hpack_add_dynamic_entry h name value))"
    "hp_max (snd (hpack_add_dynamic_entry h name value)) = hp_max h"
    using e \<open>hp_max h \<le> 65536\<close> by (auto simp: hpack_add_dynamic_entry_def Let_def hpack_inv_def accounted_def)
qed

lemma hpack_resize_inv: "hpack_inv h \<Longrightarrow> n \<le> 65536 \<Longrightarrow> hpack_inv (hpack_resize_dynamic_table h n)"
  using hpack_evict_post[of "h\<lparr>hp_max := n\<rparr>" 0]
  by (auto simp: hpack_resize_dynamic_table_def hpack_inv_def accounted_def)

section \<open>Reading inside the data\<close>

lemma len_check:
  fixes n :: int and w :: u64
  assumes "\<not> of_int n - of_nat offset < w" "\<not> n < int offset"
  shows "int offset + int (unat w) \<le> n"
proof -
  obtain k where k: "n = int offset + int k" using assms(2) by (metis not_less zle_iff_zadd)
  have "unat w \<le> unat (of_nat k :: u64)" using assms(1) by (simp add: k word_le_nat_alt not_less)
  also have "\<dots> \<le> k" by (simp add: unsigned_of_nat take_bit_nat_less_eq_self)
  finally show ?thesis by (simp add: k)
qed

lemma decode_string_bound:
  assumes "hpack_decode_string d n = Some (Some (j, v))"
  shows "int j \<le> n"
proof -
  obtain a w where "\<not> of_int n - of_nat a < (w :: u64)" "\<not> n < int a" "j = a + unat w"
    using assms by (auto simp: hpack_decode_string_def parsed_eq_Some split: if_splits)
  then show ?thesis using len_check by fastforce
qed

lemma decode_string_safe:
  assumes "n \<le> int (length d)"
  shows "safe (hpack_decode_string d n)"
proof (cases "n < 1")
  case False
  have r: "safe (rds d a (unat w))" if "\<not> of_int n - of_nat a < (w :: u64)" "\<not> n < int a" for a w
    using len_check[OF that] assms by simp
  have "0 < length d" using False assms by linarith
  then show ?thesis using False decode_integer_safe[OF assms, of 7]
    unfolding hpack_decode_string_def by (intro safe_intros) (auto simp del: safe_rds intro!: r)
qed (simp add: hpack_decode_string_def)

lemma decode_name_post:
  assumes "n \<le> int (length d)" "0 \<le> n"
  shows "safe (hpack_decode_name h i d n)" "hpack_decode_name h i d n = Some (Some (j, v)) \<Longrightarrow> int j \<le> n"
  using assms decode_string_bound[of d n j v] unfolding hpack_decode_name_def
  by (intro safe_intros decode_string_safe, auto simp: parsed_eq_Some split: if_splits)

lemma decode_literal_post:
  assumes n: "n \<le> int (length d)"
  shows "safe (hpack_decode_literal h k d n)" "hpack_decode_literal h k d n = Some (Some (j, r)) \<Longrightarrow> int j \<le> n"
proof -
  have d: "n - int m \<le> int (length (drop m d))" for m using n by simp
  show "safe (hpack_decode_literal h k d n)"
    unfolding hpack_decode_literal_def
    by (intro safe_intros decode_integer_safe[OF n] decode_name_post(1)[OF d] decode_string_safe[OF d]) (auto dest: decode_integer_offset)
  show "int j \<le> n" if "hpack_decode_literal h k d n = Some (Some (j, r))"
    using that by (auto simp: hpack_decode_literal_def parsed_eq_Some dest!: decode_string_bound)
qed

lemma decode_field_safe:
  assumes n: "n \<le> int (length d)" "0 < n"
  shows "safe (hpack_decode_field h d n seen)"
  using n unfolding hpack_decode_field_def
  by (intro safe_intros decode_integer_safe[OF n(1)] decode_literal_post(1)[OF n(1)]) auto

lemma decode_field_post:
  assumes "hpack_decode_field h d n seen = Some (Some (j, hdr, h'))" "n \<le> int (length d)"
  shows "int j \<le> n" "hpack_inv h \<Longrightarrow> hpack_inv h'"
  using assms decode_literal_post(2)[OF assms(2)]
  by (auto simp: hpack_decode_field_def parsed_eq_Some hpack_add_inv hpack_resize_inv split: if_splits
      dest!: decode_integer_offset)

lemma decode_headers_loop_post:
  assumes "n \<le> int (length d)" "hpack_inv h"
  shows "\<exists>ret h' ctx'. hpack_decode_headers_loop on_header d n offset seen h ctx = Some (ret, h', ctx') \<and>
     (ret = 0 \<or> ret = -1) \<and> hpack_inv h'"
  using assms
proof (induction on_header d n offset seen h ctx rule: hpack_decode_headers_loop.induct)
  case (1 on_header d n offset seen h ctx)
  show ?case
  proof (cases "int offset < n")
    case True
    let ?r = "hpack_decode_field h (drop offset d) (n - int offset) seen"
    have "n - int offset \<le> int (length (drop offset d))" "0 < n - int offset" using True "1.prems"(1) by auto
    note f = decode_field_safe[OF this, of h seen] and post = decode_field_post[OF _ this(1)]
    consider "?r = Some None" | j h' where "?r = Some (Some (j, None, h'))" "hpack_inv h'"
      | j nm v h' where "?r = Some (Some (j, Some (nm, v), h'))" "hpack_inv h'"
      using f post(2)[OF _ "1.prems"(2)] by (cases ?r) (auto simp: safe_def, metis not_Some_eq surj_pair)
    then show ?thesis
    proof cases
      case 1
      then show ?thesis using True "1.prems" by (subst hpack_decode_headers_loop.simps) simp
    next
      case (2 j h')
      then show ?thesis using True "1.prems" "1.IH"(1)[OF True 2(1) refl refl refl refl]
        by (subst hpack_decode_headers_loop.simps) simp
    next
      case (3 j nm v h')
      obtain ret ctx' where o: "on_header ctx nm v = (ret, ctx')" by fastforce
      then show ?thesis using True "1.prems" 3 "1.IH"(2)[OF True 3(1) refl refl refl refl refl o[symmetric] refl]
        by (subst hpack_decode_headers_loop.simps) simp
    qed
  next
    case False
    then show ?thesis using "1.prems" by (subst hpack_decode_headers_loop.simps) simp
  qed
qed

text \<open>
  C9: HPACK decoding is memory-safe on every input. Whatever the \<open>n\<close> bytes are, the decoder reads only inside them, ends, returns 0
  or -1, and leaves a table that keeps its invariant: the size is the sum of the entries' sizes and within
  the limit, which is at most 64 KiB.
\<close>

theorem decode_headers_safe:
  assumes "n \<le> int (length d)" "hpack_inv h"
  shows "\<exists>ret h' ctx'. hpack_decode_headers h d n on_header ctx = Some (ret, h', ctx') \<and> (ret = 0 \<or> ret = -1) \<and> hpack_inv h'"
  unfolding hpack_decode_headers_def by (rule decode_headers_loop_post[OF assms])

theorem decode_headers_safe_witness:
  "\<exists>ret h' ctx'. hpack_decode_headers hpack_init_context [0x82, 0x3F, 0xFF] 3 (\<lambda>c n v. (0, c + 1)) (0 :: nat) = Some (ret, h', ctx') \<and>
     (ret = 0 \<or> ret = -1) \<and> hpack_inv h'"
proof (rule decode_headers_safe)
  show "hpack_inv hpack_init_context" by (simp add: hpack_inv_def hpack_init_context_def)
qed simp

end
