(* ===== verification/Hpack_Roundtrip.thy ===== *)
theory Hpack_Roundtrip
  imports Hpack_Safe
begin

text \<open>
  What \<^verbatim>\<open>hpack_encode_header\<close> writes, \<^verbatim>\<open>hpack_decode_headers\<close> reads back, and the tables of both sides stay
  equal.
\<close>

section \<open>Strings\<close>

definition string_bytes :: "cstring \<Rightarrow> bytes" where
  "string_bytes s = integer_bytes 7 0 (length s) @ s"

lemma integer_bytes_not_Nil [simp]: "integer_bytes k hi n \<noteq> []"
  by (simp add: integer_bytes_def)

lemma put_bytes_over: "i < length d \<Longrightarrow> bs \<noteq> [] \<Longrightarrow> put_bytes i bs (d[i := v]) = put_bytes i bs d"
  by (cases bs) (simp_all add: put_bytes_def)

lemma same_outside_before: "same_outside pos hi buf buf' \<Longrightarrow> i < pos \<Longrightarrow> i < length buf \<Longrightarrow> buf' ! i = buf ! i"
  by (simp add: same_outside_def)

text \<open>A writer that first stores one byte.\<close>

lemma writes_first:
  assumes w: "writes (buf[pos := b]) pos n bs r" and len: "pos < length buf" "bs \<noteq> []" "1 \<le> n"
  shows "writes buf pos n bs r"
proof -
  have "same_outside pos (pos + nat n) buf (buf[pos := b])" using len by (intro same_outside_update) auto
  then show ?thesis using w len by (auto simp: writes_def put_bytes_over split: if_splits intro: same_outside_trans)
qed

lemma encode_string_writes:
  assumes room: "int pos + n \<le> int (length buf)" and s: "length s < 2 ^ 64"
  shows "writes buf pos n (string_bytes s) (hpack_encode_string s buf pos n)"
proof (cases "n < 1")
  case True
  have "0 < length (string_bytes s)" by (simp add: string_bytes_def)
  then have "\<not> int (length (string_bytes s)) \<le> n" using True by linarith
  then show ?thesis using True by (simp add: hpack_encode_string_def writes_def)
next
  case False
  let ?i = "integer_bytes 7 0 (length s)"
  have len: "pos < length buf" using room False by simp
  have u: "unat (of_nat (length s) :: u64) = length s" by (rule of_nat_inverse) (use s in simp_all)
  have w0: "writes (buf[pos := 0]) pos n (integer_bytes 7 0 (unat (of_nat (length s) :: u64)))
      (hpack_encode_integer (of_nat (length s)) 7 (buf[pos := 0]) pos n)"
    using room len by (intro encode_integer_writes) simp_all
  have w: "writes buf pos n ?i (hpack_encode_integer (of_nat (length s)) 7 (buf[pos := 0]) pos n)"
    using len False by (intro writes_first[OF w0[unfolded u]]) simp_all
  show ?thesis
  proof (cases "int (length ?i) \<le> n")
    case True
    then have e: "hpack_encode_integer (of_nat (length s)) 7 (buf[pos := 0]) pos n = Some (int (length ?i), put_bytes pos ?i buf)"
      using w by (simp add: writes_def)
    have so: "same_outside pos (pos + nat n) buf (put_bytes pos ?i buf)"
      using True room by (intro same_outside_put) auto
    have code: "hpack_encode_string s buf pos n =
      (if int (length ?i) + int (length s) > n then Some (-1, put_bytes pos ?i buf)
       else do { b \<leftarrow> wrs (put_bytes pos ?i buf) (pos + length ?i) s; Some (int (length ?i) + int (length s), b) })"
      using False len e by (simp add: hpack_encode_string_def Let_def)
    show ?thesis
    proof (cases "int (length ?i) + int (length s) \<le> n")
      case fit: True
      then have "pos + length ?i + length s \<le> length buf" using room by linarith
      then show ?thesis using fit put_bytes_adjacent[of pos ?i s buf]
        by (simp add: code writes_def string_bytes_def length_put_bytes)
    next
      case False
      then show ?thesis using so by (simp add: code writes_def string_bytes_def)
    qed
  next
    case fits: False
    then obtain b where "hpack_encode_integer (of_nat (length s)) 7 (buf[pos := 0]) pos n = Some (-1, b)"
      "same_outside pos (pos + nat n) buf b" using w by (auto simp: writes_def)
    then show ?thesis using False fits len by (simp add: hpack_encode_string_def writes_def string_bytes_def)
  qed
qed

lemma byte_or_and: "(a OR b) AND c = 0 \<longleftrightarrow> a AND c = 0 \<and> b AND (c :: u8) = 0"
  by (simp only: bit.conj_disj_distrib2 or_eq_0_iff)

lemma prefix_and:
  assumes "m < 2 ^ k" "k \<le> i" "i < 8"
  shows "of_nat m AND (2 ^ i :: u8) = 0"
proof -
  have "\<not> bit m i" using assms(1,2) by (metis bit_take_bit_iff not_less take_bit_nat_eq_self)
  then show ?thesis by (simp add: and_exp_eq_0_iff_not_bit bit_simps)
qed

lemma integer_bytes_hd:
  assumes "k \<le> i" "i < 8"
  shows "hd (integer_bytes k hi n) AND 2 ^ i = 0 \<longleftrightarrow> hi AND (2 ^ i) = 0"
proof (cases "n < 2 ^ k - 1")
  case True
  then have "n < 2 ^ k" by simp
  then show ?thesis using True prefix_and[OF _ assms, of n] by (simp add: integer_bytes_def byte_or_and)
next
  case False
  have "(2 :: nat) ^ k - 1 < 2 ^ k" by simp
  from prefix_and[OF this assms] show ?thesis using False
    by (simp only: integer_bytes_def if_False list.sel byte_or_and simp_thms)
qed

lemma cstr_id [simp]: "0 \<notin> set s \<Longrightarrow> cstr s = s"
  by (auto simp: cstr_def)

lemma decode_string_bytes:
  assumes d: "d = string_bytes s @ rest" and n: "int (length (string_bytes s)) \<le> n" "n \<le> int (length d)" "n < 2 ^ 31"
    and s: "0 \<notin> set s"
  shows "hpack_decode_string d n = Some (Some (length (string_bytes s), s))"
proof -
  let ?i = "integer_bytes 7 0 (length s)"
  obtain k where k: "n = int (length ?i) + int (length s + k)"
    using n(1) by (metis (no_types) length_append of_nat_add string_bytes_def zle_iff_zadd add.assoc)
  have i: "0 < length ?i" by simp
  have n1: "\<not> n < 1" using k i by linarith
  have small: "length s + k < 2 ^ 64" using n(3) k by simp
  have d0: "rd d 0 = Some (hd ?i)" by (simp add: d string_bytes_def hd_conv_nth nth_append)
  have b: "hd ?i AND 0x80 = 0" using integer_bytes_hd[of 7 7 0 "length s"] by simp
  have dec: "hpack_decode_integer d n 7 = Some (Some (length ?i, of_nat (length s)))"
    by (rule decode_integer_bytes[where rest = "s @ rest"]) (use d n k small in \<open>auto simp: string_bytes_def\<close>)
  have u: "unat (of_nat (length s) :: u64) = length s" "unat (of_nat (length s + k) :: u64) = length s + k"
    using small by (auto intro!: of_nat_inverse)
  have c: "of_int n - of_nat (length ?i) = (of_nat (length s + k) :: u64)" by (simp add: k)
  have "\<not> of_int n - of_nat (length ?i) < (of_nat (length s) :: u64)"
    using u by (simp only: c word_less_nat_alt)
  moreover have "\<not> (-2 :: u64) < of_nat (length s)"
    using u small n(3) k by (simp add: word_less_nat_alt)
  moreover have "rds d (length ?i) (length s) = Some s" by (simp add: d string_bytes_def sub_bytes_def)
  ultimately show ?thesis using n1 d0 b dec u(1) s k
    by (simp add: hpack_decode_string_def string_bytes_def)
qed

section \<open>The searches\<close>

lemma find_loop_index:
  assumes "hpack_find_loop i t name val no = (index, no')" "0 < i" "0 < index"
  shows "i \<le> index \<and> index < i + length t \<and> t ! (index - i) = (name, val)"
  using assms
proof (induction i t name val no rule: hpack_find_loop.induct)
  case (2 i n v t name val no)
  then show ?case by (auto simp: Let_def nth_Cons' split: if_splits)
qed simp

lemma find_loop_name:
  assumes "hpack_find_loop i t name val no = (0, no')" "0 < i"
  shows "no' = no \<or> no = 0 \<and> i \<le> no' \<and> no' < i + length t \<and> fst (t ! (no' - i)) = name"
  using assms
proof (induction i t name val no rule: hpack_find_loop.induct)
  case (2 i n v t name val no)
  then show ?case by (auto simp: Let_def nth_Cons' split: if_splits)
qed simp

lemma table_length: "hpack_inv h \<Longrightarrow> length (hp_table h) \<le> 2048"
proof -
  have "(\<forall>e\<in>set t. 32 \<le> hd_size e) \<Longrightarrow> 32 * length t \<le> table_size t" for t by (induction t) auto
  then show "hpack_inv h \<Longrightarrow> ?thesis" by (fastforce simp: hpack_inv_def)
qed

lemma length_static: "length hpack_static_table = 61"
  by (simp add: hpack_static_table_def)

lemma unat_small: "i < 10000 \<Longrightarrow> unat (of_nat i :: u64) = i"
  by (rule of_nat_inverse) simp_all

lemma get_entry_static: "1 \<le> i \<Longrightarrow> i \<le> 61 \<Longrightarrow> hpack_get_entry h (of_nat i) = Some (hpack_static_table ! (i - 1))"
  by (simp add: hpack_get_entry_def length_static unat_small word_unat_eq_iff)

lemma get_entry_dynamic:
  assumes "hpack_inv h" "62 \<le> i" "i < 62 + length (hp_table h)"
  shows "hpack_get_entry h (of_nat i) = Some (map (\<lambda>e. (hd_name e, hd_value e)) (hp_table h) ! (i - 62))"
  using assms table_length[OF assms(1)]
  by (simp add: hpack_get_entry_def length_static unat_small word_unat_eq_iff Let_def)

lemma find_index_sound:
  assumes "hpack_find_index h name val = (index, no)" "hpack_inv h"
  shows "0 < index \<Longrightarrow> index < 3000 \<and> hpack_get_entry h (of_nat index) = Some (name, val)"
    "index = 0 \<Longrightarrow> 0 < no \<Longrightarrow> no < 3000 \<and> (\<exists>v. hpack_get_entry h (of_nat no) = Some (name, v))"
proof -
  let ?t = "map (\<lambda>e. (hd_name e, hd_value e)) (hp_table h)"
  have len: "length (hp_table h) \<le> 2048" "length hpack_static_table = 61" "length hpack_static_table + 1 = 62"
    using table_length[OF assms(2)] length_static by auto
  obtain i1 n1 where 1: "hpack_find_loop 1 hpack_static_table name val 0 = (i1, n1)" by fastforce
  obtain i2 n2 where 2: "hpack_find_loop 62 ?t name val n1 = (i2, n2)" by fastforce
  have f: "(index, no) = (if 0 < i1 then (i1, n1) else (i2, n2))"
    using assms(1) 1 2 by (auto simp: hpack_find_index_def len split: if_splits)
  show "index < 3000 \<and> hpack_get_entry h (of_nat index) = Some (name, val)" if "0 < index"
  proof (cases "0 < i1")
    case True
    then show ?thesis using f find_loop_index[OF 1 _ True] len get_entry_static[of i1 h] by auto
  next
    case False
    then show ?thesis using f that find_loop_index[OF 2] len get_entry_dynamic[OF assms(2), of i2] by auto
  qed
  show "no < 3000 \<and> (\<exists>v. hpack_get_entry h (of_nat no) = Some (name, v))" if z: "index = 0" "0 < no"
  proof -
    have i: "i1 = 0" "i2 = 0" "no = n2" using f z by (auto split: if_splits)
    note a = find_loop_name[OF 1[unfolded i]] and b = find_loop_name[OF 2[unfolded i]]
    show ?thesis
    proof (cases "n1 = 0")
      case True
      then have "62 \<le> no" "no < 62 + length ?t" "fst (?t ! (no - 62)) = name" using b z i by auto
      then show ?thesis using get_entry_dynamic[OF assms(2), of no] len(1) by (cases "?t ! (no - 62)") auto
    next
      case False
      then have "no = n1" "1 \<le> n1" "n1 < 1 + length hpack_static_table" "fst (hpack_static_table ! (n1 - 1)) = name" using a b i by auto
      then show ?thesis using get_entry_static[of n1 h] len(2) by (cases "hpack_static_table ! (n1 - 1)") auto
    qed
  qed
qed

section \<open>Headers\<close>

definition header_bytes :: "hpack_context \<Rightarrow> cstring \<Rightarrow> cstring \<Rightarrow> bytes" where
  "header_bytes h name val =
     (let (index, no) = hpack_find_index h name val in
      if index > 0 then integer_bytes 7 0x80 index
      else integer_bytes 6 0x40 no @ (if no > 0 then [] else string_bytes name) @ string_bytes val)"

definition next_table :: "hpack_context \<Rightarrow> cstring \<Rightarrow> cstring \<Rightarrow> hpack_context" where
  "next_table h name val =
     (if fst (hpack_find_index h name val) > 0 then h else snd (hpack_add_dynamic_entry h name val))"

lemma writes_cases:
  assumes "writes buf pos n bs r"
  obtains "int (length bs) \<le> n" "r = Some (int (length bs), put_bytes pos bs buf)"
  | b where "n < int (length bs)" "r = Some (-1, b)" "same_outside pos (pos + nat n) buf b"
  using assms by (auto simp: writes_def split: if_splits)

text \<open>A string behind bytes that were written.\<close>

lemma string_behind:
  assumes room: "int pos + n \<le> int (length buf)" and a: "int (length a) \<le> n" and s: "length s < 2 ^ 64"
  obtains "int (length (a @ string_bytes s)) \<le> n"
    "hpack_encode_string s (put_bytes pos a buf) (pos + length a) (n - int (length a)) =
       Some (int (length (string_bytes s)), put_bytes pos (a @ string_bytes s) buf)"
  | b where "n < int (length (a @ string_bytes s))"
    "hpack_encode_string s (put_bytes pos a buf) (pos + length a) (n - int (length a)) = Some (-1, b)"
    "same_outside pos (pos + nat n) buf b"
proof -
  let ?b = "put_bytes pos a buf"
  have l: "pos + length a \<le> length buf" using room a by linarith
  have w: "writes ?b (pos + length a) (n - int (length a)) (string_bytes s)
      (hpack_encode_string s ?b (pos + length a) (n - int (length a)))"
    using room a l s by (intro encode_string_writes) (auto simp: length_put_bytes)
  have so: "same_outside pos (pos + nat n) buf ?b" using a l by (intro same_outside_put) auto
  from w show thesis
  proof (cases rule: writes_cases)
    case 1
    then have "pos + length a + length (string_bytes s) \<le> length buf" using room by linarith
    then show ?thesis using that(1) 1 put_bytes_adjacent[of pos a "string_bytes s" buf] by simp
  next
    case (2 b)
    have "same_outside pos (pos + nat n) ?b b" using 2(3) a by (rule_tac same_outside_mono) auto
    then show ?thesis using that(2)[of b] 2 same_outside_trans[OF so] by simp
  qed
qed

lemma encode_header_index:
  assumes f: "hpack_find_index h name val = (index, no)" "0 < index" "index < 3000" and room: "int pos + n \<le> int (length buf)"
  shows "if int (length (header_bytes h name val)) \<le> n
     then hpack_encode_header h name val buf pos n =
        Some (int (length (header_bytes h name val)), put_bytes pos (header_bytes h name val) buf, next_table h name val)
     else \<exists>b. hpack_encode_header h name val buf pos n = Some (-1, b, h) \<and> same_outside pos (pos + nat n) buf b"
proof (cases "n < 1")
  case True
  have "0 < length (header_bytes h name val)" using f by (auto simp: header_bytes_def)
  then have "\<not> int (length (header_bytes h name val)) \<le> n" using True by linarith
  then show ?thesis using True f by (simp add: hpack_encode_header_def)
next
  case False
  let ?i = "integer_bytes 7 0x80 index" and ?r = "hpack_encode_integer (of_nat index) 7 (buf[pos := 0x80]) pos n"
  have len: "pos < length buf" using room False by simp
  have u: "unat (of_nat index :: u64) = index" using f(3) by (intro unat_small) simp
  have "writes (buf[pos := 0x80]) pos n (integer_bytes 7 0x80 (unat (of_nat index :: u64))) ?r"
    using room len by (intro encode_integer_writes) simp_all
  then have "writes buf pos n ?i ?r" unfolding u using len False by (rule_tac writes_first) simp_all
  then show ?thesis
    by (cases rule: writes_cases) (use False len f in \<open>auto simp: header_bytes_def next_table_def hpack_encode_header_def\<close>)
qed

lemma encode_header_named:
  assumes f: "hpack_find_index h name val = (0, no)" "0 < no" "no < 3000" and room: "int pos + n \<le> int (length buf)"
    and val: "length val < 2 ^ 64" and n: "1 \<le> n"
  shows "if int (length (header_bytes h name val)) \<le> n
     then hpack_encode_header h name val buf pos n =
        Some (int (length (header_bytes h name val)), put_bytes pos (header_bytes h name val) buf, next_table h name val)
     else \<exists>b. hpack_encode_header h name val buf pos n = Some (-1, b, h) \<and> same_outside pos (pos + nat n) buf b"
proof -
  let ?i = "integer_bytes 6 0x40 no" and ?r = "hpack_encode_integer (of_nat no) 6 (buf[pos := 0x40]) pos n"
  have len: "pos < length buf" using room n by simp
  have u: "unat (of_nat no :: u64) = no" using f(3) by (intro unat_small) simp
  have "writes (buf[pos := 0x40]) pos n (integer_bytes 6 0x40 (unat (of_nat no :: u64))) ?r"
    using room len by (intro encode_integer_writes) simp_all
  then have "writes buf pos n ?i ?r" unfolding u using len n by (rule_tac writes_first) simp_all
  then show ?thesis
  proof (cases rule: writes_cases)
    case 1
    show ?thesis
      by (rule string_behind[OF room 1(1) val])
        (use 1 n len f in \<open>auto simp: header_bytes_def next_table_def hpack_encode_header_def Let_def\<close>)
  next
    case (2 b)
    then show ?thesis using n len f by (auto simp: header_bytes_def hpack_encode_header_def)
  qed
qed

lemma encode_header_new:
  assumes f: "hpack_find_index h name val = (0, 0)" and room: "int pos + n \<le> int (length buf)"
    and val: "length name < 2 ^ 64" "length val < 2 ^ 64" and n: "1 \<le> n"
  shows "if int (length (header_bytes h name val)) \<le> n
     then hpack_encode_header h name val buf pos n =
        Some (int (length (header_bytes h name val)), put_bytes pos (header_bytes h name val) buf, next_table h name val)
     else \<exists>b. hpack_encode_header h name val buf pos n = Some (-1, b, h) \<and> same_outside pos (pos + nat n) buf b"
proof -
  have len: "pos < length buf" using room n by simp
  have u: "buf[pos := 0x40] = put_bytes pos [0x40] buf" using len by (simp add: list_update_put_bytes)
  have i: "integer_bytes 6 0x40 0 = [0x40]" by (simp add: integer_bytes_def)
  have one: "int (length [0x40 :: u8]) \<le> n" using n by simp
  show ?thesis
  proof (rule string_behind[OF room one val(1)], goal_cases)
    case 1
    show ?case
      by (rule string_behind[OF room 1(1) val(2)])
        (use 1 n len f u i in \<open>auto simp: header_bytes_def next_table_def hpack_encode_header_def Let_def nat_add_distrib add.assoc\<close>)
  next
    case (2 b)
    then show ?case using n len f u i by (auto simp: header_bytes_def hpack_encode_header_def)
  qed
qed

text \<open>
  The encoder writes \<^const>\<open>header_bytes\<close> and moves its table on when they fit in the \<open>n\<close> bytes it has; otherwise it returns -1,
  keeps its table and writes no byte outside its \<open>n\<close>.
\<close>

lemma encode_header_writes:
  assumes inv: "hpack_inv h" and room: "int pos + n \<le> int (length buf)" and len: "length name < 2 ^ 64" "length val < 2 ^ 64"
  shows "if int (length (header_bytes h name val)) \<le> n
     then hpack_encode_header h name val buf pos n =
        Some (int (length (header_bytes h name val)), put_bytes pos (header_bytes h name val) buf, next_table h name val)
     else \<exists>b. hpack_encode_header h name val buf pos n = Some (-1, b, h) \<and> same_outside pos (pos + nat n) buf b"
proof -
  obtain index no where f: "hpack_find_index h name val = (index, no)" by fastforce
  note s = find_index_sound[OF f inv]
  consider "0 < index" | "index = 0" "n < 1" | "index = 0" "0 < no" "1 \<le> n" | "index = 0" "no = 0" "1 \<le> n" by linarith
  then show ?thesis
  proof cases
    case 1
    show ?thesis using encode_header_index[OF f 1 _ room] s(1)[OF 1] by blast
  next
    case 2
    have "0 < length (header_bytes h name val)" using f by (auto simp: header_bytes_def)
    then have "\<not> int (length (header_bytes h name val)) \<le> n" using 2 by linarith
    then show ?thesis using 2 f by (simp add: hpack_encode_header_def)
  next
    case 3
    show ?thesis using encode_header_named[of h name val no, OF _ 3(2) _ room len(2) 3(3)] f s(2)[OF 3(1,2)] 3 by blast
  next
    case 4
    show ?thesis using encode_header_new[OF _ room len 4(3)] f 4 by blast
  qed
qed

text \<open>Decoding an integer whose flag bits are \<open>hi\<close> in front of other bytes.\<close>

lemma decode_index_bytes:
  assumes "d = integer_bytes k hi i @ rest" "int (length (integer_bytes k hi i)) \<le> n" "n \<le> int (length d)"
    "hi AND mask k = 0" "k \<le> 8" "i < 3000"
  shows "hpack_decode_integer d n k = Some (Some (length (integer_bytes k hi i), of_nat i))"
  using assms by (intro decode_integer_bytes) auto

lemma rd_integer_bytes: "rd (integer_bytes k hi i @ rest) 0 = Some (hd (integer_bytes k hi i))"
  by (simp add: hd_conv_nth nth_append)

lemma decode_literal_bytes:
  assumes d: "d = integer_bytes 6 0x40 no @ (if no > 0 then [] else string_bytes name) @ string_bytes val @ rest"
    and L: "L = length (integer_bytes 6 0x40 no @ (if no > 0 then [] else string_bytes name) @ string_bytes val)"
    and n: "int L \<le> n" "n \<le> int (length d)" "n < 2 ^ 31" and no: "no < 3000"
    and e: "0 < no \<Longrightarrow> \<exists>v. hpack_get_entry h (of_nat no) = Some (name, v)" and z: "0 \<notin> set name" "0 \<notin> set val"
  shows "hpack_decode_literal h 6 d n = Some (Some (L, name, val))"
proof -
  let ?i = "integer_bytes 6 0x40 no" and ?s = "if no > 0 then [] else string_bytes name"
  let ?d1 = "?s @ string_bytes val @ rest" and ?n1 = "n - int (length ?i)"
  have i: "hpack_decode_integer d n 6 = Some (Some (length ?i, of_nat no))"
    using d L n no by (intro decode_index_bytes) (auto simp: mask_eq_exp_minus_1)
  have d1: "drop (length ?i) d = ?d1" "drop (length ?i + length ?s) d = string_bytes val @ rest" by (auto simp: d)
  have u: "(0 :: u64) < of_nat no \<longleftrightarrow> 0 < no" using no by (simp add: word_less_nat_alt unat_small)
  have name: "hpack_decode_name h (of_nat no) ?d1 ?n1 = Some (Some (length ?s, name))"
  proof (cases "0 < no")
    case True
    then show ?thesis using e u by (auto simp: hpack_decode_name_def)
  next
    case False
    have "hpack_decode_string (string_bytes name @ string_bytes val @ rest) ?n1 = Some (Some (length (string_bytes name), name))"
      using False n d L z by (intro decode_string_bytes[OF refl]) auto
    then show ?thesis using False by (simp add: hpack_decode_name_def)
  qed
  have "hpack_decode_string (string_bytes val @ rest) (n - int (length ?i + length ?s)) = Some (Some (length (string_bytes val), val))"
    using n d L z by (intro decode_string_bytes[OF refl]) (auto split: if_splits)
  then show ?thesis using i name d1 L by (simp add: hpack_decode_literal_def)
qed

lemma decode_field_bytes:
  assumes inv: "hpack_inv h" and d: "d = header_bytes h name val @ rest" and n: "int (length (header_bytes h name val)) \<le> n"
    "n \<le> int (length d)" "n < 2 ^ 31" and z: "0 \<notin> set name" "0 \<notin> set val"
  shows "hpack_decode_field h d n seen = Some (Some (length (header_bytes h name val), Some (name, val), next_table h name val))"
proof -
  obtain index no where f: "hpack_find_index h name val = (index, no)" by fastforce
  note s = find_index_sound[OF f inv]
  show ?thesis
  proof (cases "0 < index")
    case True
    let ?i = "integer_bytes 7 0x80 index"
    have h: "header_bytes h name val = ?i" "next_table h name val = h" using f True by (auto simp: header_bytes_def next_table_def)
    have "hd ?i AND 0x80 \<noteq> 0" using integer_bytes_hd[of 7 7 "0x80" index] by simp
    moreover have "hpack_decode_integer d n 7 = Some (Some (length ?i, of_nat index))"
      using d h n s(1)[OF True] by (intro decode_index_bytes) (auto simp: mask_eq_exp_minus_1)
    ultimately show ?thesis using s(1)[OF True] h by (simp add: hpack_decode_field_def d rd_integer_bytes)
  next
    case False
    let ?i = "integer_bytes 6 0x40 no"
    have h: "header_bytes h name val = ?i @ (if no > 0 then [] else string_bytes name) @ string_bytes val"
      "next_table h name val = snd (hpack_add_dynamic_entry h name val)" using f False by (auto simp: header_bytes_def next_table_def)
    have b: "hd ?i AND 0x80 = 0" "hd ?i AND 0x40 \<noteq> 0"
      using integer_bytes_hd[of 6 7 "0x40" no] integer_bytes_hd[of 6 6 "0x40" no] by simp_all
    have no: "no < 3000" using s(2) False by (cases "no = 0") auto
    have "hpack_decode_literal h 6 d n = Some (Some (length (header_bytes h name val), name, val))"
      by (rule decode_literal_bytes) (use d h n s(2) False no z in auto)
    moreover have "rd d 0 = Some (hd ?i)" by (simp add: d h rd_integer_bytes)
    ultimately show ?thesis using b h(2) by (simp add: hpack_decode_field_def)
  qed
qed

section \<open>Header blocks\<close>

text \<open>
  Headers encoded one after the other into a buffer of \<open>buf_size\<close> bytes, the way \<^verbatim>\<open>_http2_send_headers_frame\<close> calls
  the encoder; that function also enlarges the buffer before a call, which is left out here.
\<close>

fun encode_headers ::
  "hpack_context \<Rightarrow> (cstring \<times> cstring) list \<Rightarrow> bytes \<Rightarrow> nat \<Rightarrow> int \<Rightarrow> (int \<times> bytes \<times> hpack_context) option" where
  "encode_headers h [] buf header_block_len buf_size = Some (int header_block_len, buf, h)"
| "encode_headers h ((name, val) # hs) buf header_block_len buf_size = do {
     (encode_ret, buf, h) \<leftarrow> hpack_encode_header h name val buf header_block_len (buf_size - int header_block_len);
     if encode_ret < 0 then Some (-1, buf, h)
     else encode_headers h hs buf (header_block_len + nat encode_ret) buf_size }"

fun block_bytes :: "hpack_context \<Rightarrow> (cstring \<times> cstring) list \<Rightarrow> bytes" where
  "block_bytes h [] = []"
| "block_bytes h ((name, val) # hs) = header_bytes h name val @ block_bytes (next_table h name val) hs"

fun last_table :: "hpack_context \<Rightarrow> (cstring \<times> cstring) list \<Rightarrow> hpack_context" where
  "last_table h [] = h"
| "last_table h ((name, val) # hs) = last_table (next_table h name val) hs"

definition sendable :: "cstring \<times> cstring \<Rightarrow> bool" where
  "sendable nv \<longleftrightarrow> 0 \<notin> set (fst nv) \<and> 0 \<notin> set (snd nv) \<and> length (fst nv) < 2 ^ 31 \<and> length (snd nv) < 2 ^ 31"

definition collect_header :: "(cstring \<times> cstring) list \<Rightarrow> cstring \<Rightarrow> cstring \<Rightarrow> int \<times> (cstring \<times> cstring) list" where
  "collect_header ctx name val = (0, ctx @ [(name, val)])"

lemma next_table_inv: "hpack_inv h \<Longrightarrow> hpack_inv (next_table h name val)"
  by (simp add: next_table_def hpack_add_inv)

lemma encode_headers_writes:
  assumes "hpack_inv h" "list_all sendable hs" "int pos + int (length (block_bytes h hs)) \<le> buf_size" "buf_size \<le> int (length buf)"
  shows "encode_headers h hs buf pos buf_size =
    Some (int pos + int (length (block_bytes h hs)), put_bytes pos (block_bytes h hs) buf, last_table h hs)"
  using assms
proof (induction hs arbitrary: h buf pos)
  case (Cons nv hs)
  obtain name val where nv: "nv = (name, val)" by fastforce
  let ?b = "header_bytes h name val" and ?h = "next_table h name val"
  have s: "length name < 2 ^ 64" "length val < 2 ^ 64" using Cons.prems(2) by (auto simp: nv sendable_def)
  have l: "int pos + int (length ?b) + int (length (block_bytes ?h hs)) \<le> buf_size" using Cons.prems(3) by (simp add: nv)
  then have "int (length ?b) \<le> buf_size - int pos" by simp
  then have e: "hpack_encode_header h name val buf pos (buf_size - int pos) = Some (int (length ?b), put_bytes pos ?b buf, ?h)"
    using encode_header_writes[OF Cons.prems(1) _ s, of pos "buf_size - int pos" buf] Cons.prems(4) by simp
  have fits: "pos + length ?b + length (block_bytes ?h hs) \<le> length buf" using l Cons.prems(4) by linarith
  have "encode_headers ?h hs (put_bytes pos ?b buf) (pos + length ?b) buf_size =
    Some (int (pos + length ?b) + int (length (block_bytes ?h hs)), put_bytes (pos + length ?b) (block_bytes ?h hs) (put_bytes pos ?b buf), last_table ?h hs)"
    using Cons.prems l fits by (intro Cons.IH) (auto simp: next_table_inv length_put_bytes)
  then show ?case using e put_bytes_adjacent[of pos ?b "block_bytes ?h hs" buf] fits by (simp add: nv)
qed simp

lemma encode_headers_full:
  assumes "hpack_inv h" "list_all sendable hs" "buf_size < int pos + int (length (block_bytes h hs))" "buf_size \<le> int (length buf)" "int pos \<le> buf_size"
  shows "\<exists>b h'. encode_headers h hs buf pos buf_size = Some (-1, b, h')"
  using assms
proof (induction hs arbitrary: h buf pos)
  case (Cons nv hs)
  obtain name val where nv: "nv = (name, val)" by fastforce
  let ?b = "header_bytes h name val" and ?h = "next_table h name val"
  have s: "length name < 2 ^ 64" "length val < 2 ^ 64" using Cons.prems(2) by (auto simp: nv sendable_def)
  note e = encode_header_writes[OF Cons.prems(1) _ s, of pos "buf_size - int pos" buf]
  show ?case
  proof (cases "int (length ?b) \<le> buf_size - int pos")
    case True
    then have "hpack_encode_header h name val buf pos (buf_size - int pos) = Some (int (length ?b), put_bytes pos ?b buf, ?h)"
      using e Cons.prems(4) by simp
    moreover have "\<exists>b h'. encode_headers ?h hs (put_bytes pos ?b buf) (pos + length ?b) buf_size = Some (-1, b, h')"
      using Cons.prems True by (intro Cons.IH) (auto simp: nv next_table_inv length_put_bytes)
    ultimately show ?thesis by (simp add: nv)
  next
    case False
    then show ?thesis using e Cons.prems(4) by (auto simp: nv)
  qed
qed simp

lemma decode_headers_bytes:
  assumes "hpack_inv h" "list_all sendable hs" "d = pre @ block_bytes h hs" "length d < 2 ^ 31"
  shows "hpack_decode_headers_loop collect_header d (int (length d)) (length pre) seen h ctx = Some (0, last_table h hs, ctx @ hs)"
  using assms
proof (induction hs arbitrary: h pre seen ctx)
  case Nil
  then show ?case by (simp add: hpack_decode_headers_loop.simps)
next
  case (Cons nv hs)
  obtain name val where nv: "nv = (name, val)" by fastforce
  let ?b = "header_bytes h name val" and ?h = "next_table h name val"
  have z: "0 \<notin> set name" "0 \<notin> set val" using Cons.prems(2) by (auto simp: nv sendable_def)
  have d: "d = pre @ ?b @ block_bytes ?h hs" using Cons.prems(3) by (simp add: nv)
  have f: "hpack_decode_field h (drop (length pre) d) (int (length d) - int (length pre)) seen = Some (Some (length ?b, Some (name, val), ?h))"
    using Cons.prems(1,4) z d by (intro decode_field_bytes[where rest = "block_bytes ?h hs"]) auto
  have "0 < length ?b" by (auto simp: header_bytes_def split: prod.split)
  then have "length pre < length d" using d by simp
  then have ne: "int (length pre) < int (length d)" by simp
  have "hpack_decode_headers_loop collect_header d (int (length d)) (length (pre @ ?b)) True ?h (ctx @ [nv]) =
      Some (0, last_table ?h hs, (ctx @ [nv]) @ hs)"
    using Cons.prems(1,2,4) d by (intro Cons.IH) (auto simp: next_table_inv)
  then show ?case using f ne by (subst hpack_decode_headers_loop.simps) (simp add: nv collect_header_def)
qed

text \<open>
  C5: HPACK round trip. Headers without NUL bytes, encoded one after the other into a buffer of \<open>buf_size\<close> bytes with a table \<open>h\<close>
  that keeps its invariant, are either refused with -1, exactly when their encoding does not fit, or give a block that a
  decoder with the same table accepts: it hands the callback the same headers in the same order, and ends with
  the encoder's new table.
\<close>

theorem headers_roundtrip:
  assumes "hpack_inv h" "list_all sendable hs" "int buf_size \<le> int (length buf)" "buf_size < 2 ^ 31"
  shows "\<exists>len buf' h'. encode_headers h hs buf 0 (int buf_size) = Some (len, buf', h') \<and>
    (len < 0 \<longleftrightarrow> buf_size < length (block_bytes h hs)) \<and>
    (0 \<le> len \<longrightarrow> hpack_decode_headers h (take (nat len) buf') len collect_header [] = Some (0, h', hs))"
proof (cases "length (block_bytes h hs) \<le> buf_size")
  case True
  let ?b = "block_bytes h hs"
  have "encode_headers h hs buf 0 (int buf_size) = Some (int (length ?b), put_bytes 0 ?b buf, last_table h hs)"
    using encode_headers_writes[OF assms(1,2), of 0 "int buf_size" buf] True assms(3) by simp
  moreover have "take (length ?b) (put_bytes 0 ?b buf) = ?b" using True assms(3) by (simp add: put_bytes_def)
  moreover have "hpack_decode_headers h ?b (int (length ?b)) collect_header [] = Some (0, last_table h hs, hs)"
    using decode_headers_bytes[OF assms(1,2), of ?b "[]" False "[]"] True assms(4) by (simp add: hpack_decode_headers_def)
  ultimately show ?thesis using True by simp
next
  case False
  then show ?thesis using encode_headers_full[OF assms(1,2), of "int buf_size" 0 buf] assms(3) by auto
qed

theorem headers_roundtrip_witness:
  "\<exists>len buf' h'. encode_headers hpack_init_context [([58, 112], [97]), ([58, 112], [98])] (replicate 16 0) 0 (int 16) = Some (len, buf', h') \<and>
    (len < 0 \<longleftrightarrow> 16 < length (block_bytes hpack_init_context [([58, 112], [97]), ([58, 112], [98])])) \<and>
    (0 \<le> len \<longrightarrow> hpack_decode_headers hpack_init_context (take (nat len) buf') len collect_header [] =
       Some (0, h', [([58, 112], [97]), ([58, 112], [98])]))"
proof (rule headers_roundtrip)
  show "hpack_inv hpack_init_context" by (simp add: hpack_inv_def hpack_init_context_def)
qed (simp_all add: sendable_def)

end
