(* ===== verification/Timer_Wheel.thy ===== *)
theory Timer_Wheel
  imports Prelude
begin

text \<open>
  The timer wheel (\<^verbatim>\<open>lib/timer_wheel.c\<close>, \<^verbatim>\<open>timer.c\<close>). A timer object is named by a number that stands for
  its address. The five arrays of list heads \<^verbatim>\<open>tv1\<close> to \<^verbatim>\<open>tv5\<close> are one function from the level and the index to the
  list of the timers linked there; every index is masked to the size of its array. The list \<^verbatim>\<open>work_list\<close> of
  \<^verbatim>\<open>run_timers\<close> is part of the state, since a callback can unlink a timer from it. Each operation runs
  under the spin lock, so it is one step.
\<close>

section \<open>State\<close>

type_synonym tid = nat

datatype tw_slot = TV nat nat

record tw_timer_list =
  tt_data :: nat
  tt_expires :: u64
  tt_function :: "nat option"
  tt_linked :: bool

text \<open>\<^const>\<open>tt_linked\<close> says that \<^verbatim>\<open>entry.next\<close> is not \<^verbatim>\<open>NULL\<close>.\<close>

record tw_base =
  tw_jiffies :: u64
  tw_tv :: "tw_slot \<Rightarrow> tid list"
  tw_work :: "tid list"
  tw_timers :: "tid \<Rightarrow> tw_timer_list"
  tw_runner_alive :: bool
  tw_stop :: bool

definition expires_of :: "tw_base \<Rightarrow> tid \<Rightarrow> u64" where
  "expires_of base t = tt_expires (tw_timers base t)"

definition set_expires :: "tid \<Rightarrow> u64 \<Rightarrow> tw_base \<Rightarrow> tw_base" where
  "set_expires t expires base = base\<lparr>tw_timers := (tw_timers base)(t := (tw_timers base t)\<lparr>tt_expires := expires\<rparr>)\<rparr>"

definition set_linked :: "tid \<Rightarrow> bool \<Rightarrow> tw_base \<Rightarrow> tw_base" where
  "set_linked t b base = base\<lparr>tw_timers := (tw_timers base)(t := (tw_timers base t)\<lparr>tt_linked := b\<rparr>)\<rparr>"

section \<open>Linking and unlinking\<close>

definition TVR_SIZE :: u64 where "TVR_SIZE = 1024"
definition TVR_MASK :: u64 where "TVR_MASK = 1023"
definition TVN_MASK :: u64 where "TVN_MASK = 63"
definition MAX_TVAL :: u64 where "MAX_TVAL = 2 ^ 34 - 1"

lemmas tv_consts = TVR_SIZE_def TVR_MASK_def TVN_MASK_def MAX_TVAL_def

text \<open>The level and the index of the list that \<^verbatim>\<open>_tw_add_timer\<close> appends to.\<close>

definition tw_vec :: "u64 \<Rightarrow> u64 \<Rightarrow> tw_slot" where
  "tw_vec jiffies expires =
     (let idx = expires - jiffies in
      if idx < TVR_SIZE then TV 1 (unat (expires AND TVR_MASK))
      else if idx < 2 ^ 16 then TV 2 (unat (drop_bit 10 expires AND TVN_MASK))
      else if idx < 2 ^ 22 then TV 3 (unat (drop_bit 16 expires AND TVN_MASK))
      else if idx < 2 ^ 28 then TV 4 (unat (drop_bit 22 expires AND TVN_MASK))
      else if sint idx < 0 then TV 1 (unat (jiffies AND TVR_MASK))
      else
        let expires = (if idx > MAX_TVAL then MAX_TVAL + jiffies else expires)
        in TV 5 (unat (drop_bit 28 expires AND TVN_MASK)))"

definition tw_link_timer :: "tw_base \<Rightarrow> tid \<Rightarrow> tw_base" where
  "tw_link_timer base t =
     (let vec = tw_vec (tw_jiffies base) (expires_of base t)
      in set_linked t True (base\<lparr>tw_tv := (tw_tv base)(vec := tw_tv base vec @ [t])\<rparr>))"

text \<open>\<^verbatim>\<open>list_del\<close> takes the timer out of the one list it is linked in.\<close>

definition tw_detach_timer :: "tw_base \<Rightarrow> tid \<Rightarrow> tw_base" where
  "tw_detach_timer base t =
     set_linked t False (base\<lparr>tw_tv := (\<lambda>k. removeAll t (tw_tv base k)), tw_work := removeAll t (tw_work base)\<rparr>)"

definition tw_cascade :: "nat \<Rightarrow> nat \<Rightarrow> tw_base \<Rightarrow> tw_base" where
  "tw_cascade level index base =
     foldl tw_link_timer (base\<lparr>tw_tv := (tw_tv base)(TV level index := [])\<rparr>) (tw_tv base (TV level index))"

definition timer_pending :: "tw_base \<Rightarrow> tid \<Rightarrow> bool" where
  "timer_pending base t = tt_linked (tw_timers base t)"

definition detach_if_pending :: "tw_base \<Rightarrow> tid \<Rightarrow> bool \<times> tw_base" where
  "detach_if_pending base t =
     (if \<not> timer_pending base t then (False, base) else (True, tw_detach_timer base t))"

definition do_mod_timer :: "tw_base \<Rightarrow> tid \<Rightarrow> bool \<Rightarrow> bool \<times> tw_base" where
  "do_mod_timer base t pending_only =
     (let (ret, base) = detach_if_pending base t in
      if \<not> ret \<and> pending_only then (ret, base)
      else (True, tw_link_timer base t))"

section \<open>The operations\<close>

definition tw_add_timer :: "tw_base \<Rightarrow> tid \<Rightarrow> tw_base" where
  "tw_add_timer base t =
     (if tt_function (tw_timers base t) = None then base
      else tw_link_timer (set_expires t (expires_of base t + (tw_jiffies base - 1)) base) t)"

definition tw_del_timer :: "tw_base \<Rightarrow> tid \<Rightarrow> bool \<times> tw_base" where
  "tw_del_timer base t = (if timer_pending base t then (True, tw_detach_timer base t) else (False, base))"

definition tw_mod_timer_pending :: "tw_base \<Rightarrow> tid \<Rightarrow> u64 \<Rightarrow> bool \<times> tw_base" where
  "tw_mod_timer_pending base t expires =
     do_mod_timer (set_expires t (expires + tw_jiffies base - 1) base) t True"

definition tw_mod_timer :: "tw_base \<Rightarrow> tid \<Rightarrow> u64 \<Rightarrow> bool \<times> tw_base" where
  "tw_mod_timer base t expires =
     (if timer_pending base t \<and> expires_of base t = expires then (True, base)
      else do_mod_timer (set_expires t (expires + tw_jiffies base - 1) base) t False)"

section \<open>Running\<close>

text \<open>
  What other code does to the wheel while the lock is free: a client fills in a timer object that it
  owns, or calls an operation.
\<close>

datatype tw_op =
    Op_set tid nat u64 "nat option"
  | Op_add tid
  | Op_del tid
  | Op_mod tid u64
  | Op_mod_pending tid u64

fun tw_exec :: "tw_op \<Rightarrow> tw_base \<Rightarrow> tw_base" where
  "tw_exec (Op_set t data expires fn) base =
     base\<lparr>tw_timers := (tw_timers base)(t :=
       (tw_timers base t)\<lparr>tt_data := data, tt_expires := expires, tt_function := fn\<rparr>)\<rparr>"
| "tw_exec (Op_add t) base = tw_add_timer base t"
| "tw_exec (Op_del t) base = snd (tw_del_timer base t)"
| "tw_exec (Op_mod t expires) base = snd (tw_mod_timer base t expires)"
| "tw_exec (Op_mod_pending t expires) base = snd (tw_mod_timer_pending base t expires)"

fun tw_ops :: "tw_op list \<Rightarrow> tw_base \<Rightarrow> tw_base" where
  "tw_ops [] base = base"
| "tw_ops (a # as) base = tw_ops as (tw_exec a base)"

text \<open>The locked part at the start of \<^verbatim>\<open>run_timers\<close>: the cascade and the list to work on.\<close>

definition tw_index :: "tw_base \<Rightarrow> nat \<Rightarrow> nat" where
  "tw_index base n = unat (drop_bit (10 + n * 6) (tw_jiffies base) AND TVN_MASK)"

definition run_cascades :: "tw_base \<Rightarrow> tw_base" where
  "run_cascades base =
     (if unat (tw_jiffies base AND TVR_MASK) \<noteq> 0 then base
      else
        let base = tw_cascade 2 (tw_index base 0) base in
        if tw_index base 0 \<noteq> 0 then base
        else
          let base = tw_cascade 3 (tw_index base 1) base in
          if tw_index base 1 \<noteq> 0 then base
          else
            let base = tw_cascade 4 (tw_index base 2) base in
            if tw_index base 2 \<noteq> 0 then base
            else tw_cascade 5 (tw_index base 3) base)"

definition run_begin :: "tw_base \<Rightarrow> tw_base" where
  "run_begin base =
     (let index = unat (tw_jiffies base AND TVR_MASK);
          base = run_cascades base
      in base\<lparr>tw_jiffies := tw_jiffies base + 1, tw_work := tw_tv base (TV 1 index),
           tw_tv := (tw_tv base)(TV 1 index := [])\<rparr>)"

lemma length_work_op: "length (tw_work (tw_exec a base)) \<le> length (tw_work base)"
  by (cases a) (auto simp: tw_add_timer_def tw_del_timer_def tw_mod_timer_def tw_mod_timer_pending_def do_mod_timer_def
      detach_if_pending_def tw_detach_timer_def tw_link_timer_def set_linked_def set_expires_def Let_def length_removeAll_less_eq)

lemma length_work_ops: "length (tw_work (tw_ops as base)) \<le> length (tw_work base)"
  by (induction as arbitrary: base) (use length_work_op le_trans in \<open>fastforce+\<close>)

text \<open>
  The loop over the work list. The parameter \<open>call\<close> is what a callback, and any other thread, does while
  the lock is released for \<open>fn(base, timer, data, call_time)\<close>. The result also lists the timers
  whose callback ran.
\<close>

function run_work :: "(tw_base \<Rightarrow> tid \<Rightarrow> u64 \<Rightarrow> tw_op list) \<Rightarrow> u64 \<Rightarrow> tw_base \<Rightarrow> tid list \<times> tw_base" where
  "run_work call call_time base =
     (case tw_work base of
        [] \<Rightarrow> ([], base)
      | t # _ \<Rightarrow>
          let base = tw_detach_timer base t;
              base = tw_ops (call base t call_time) base;
              (fired, base) = run_work call call_time base
          in (t # fired, base))"
  by pat_completeness auto
termination
proof (relation "measure (\<lambda>(call, call_time, base). length (tw_work base))")
  fix call :: "tw_base \<Rightarrow> tid \<Rightarrow> u64 \<Rightarrow> tw_op list" and call_time base t ts b b'
  assume w: "tw_work base = t # ts" and b: "b = tw_detach_timer base t" and b': "b' = tw_ops (call b t call_time) b"
  have "length (tw_work b') \<le> length (tw_work b)" unfolding b' by (rule length_work_ops)
  also have "\<dots> < length (tw_work base)"
    using w by (simp add: b tw_detach_timer_def set_linked_def le_imp_less_Suc length_removeAll_less_eq)
  finally show "((call, call_time, b'), call, call_time, base) \<in> measure (\<lambda>(call, call_time, base). length (tw_work base))" by simp
qed simp

declare run_work.simps [simp del]

definition run_timers :: "(tw_base \<Rightarrow> tid \<Rightarrow> u64 \<Rightarrow> tw_op list) \<Rightarrow> tw_base \<Rightarrow> tid list \<times> tw_base" where
  "run_timers call base = run_work call (tw_jiffies base) (run_begin base)"

section \<open>The runner\<close>

text \<open>
  The times of \<^verbatim>\<open>timer_work\<close> in milliseconds: the next expected time, a whole number of periods after the
  start, and the time to sleep, which is computed in \<^verbatim>\<open>int\<close>.
\<close>

definition timer_expect :: "u64 \<Rightarrow> u64 \<Rightarrow> u64 \<Rightarrow> u64" where
  "timer_expect start_time expect_time now =
     (if now \<ge> expect_time then
        let elapsed_from_start = now - start_time;
            next_period = elapsed_from_start div 1000 + 1
        in start_time + next_period * 1000
      else expect_time)"

definition timer_sleep_time :: "u64 \<Rightarrow> u64 \<Rightarrow> int" where
  "timer_sleep_time expect_time now =
     (let sleep_time = sint (ucast (expect_time - now) :: 32 word)
      in if sleep_time < 0 then 0 else sleep_time)"

definition timer_deadline :: "int \<times> int \<Rightarrow> int \<Rightarrow> int \<times> int" where
  "timer_deadline ts sleep_time =
     (let tv_sec = fst ts + sleep_time div 1000;
          tv_nsec = snd ts + sleep_time mod 1000 * 1000000
      in if tv_nsec \<ge> 1000000000 then (tv_sec + 1, tv_nsec - 1000000000) else (tv_sec, tv_nsec))"

text \<open>
  The loop of \<^verbatim>\<open>timer_work\<close>, for the clock readings and the observed values of \<^verbatim>\<open>stop\<close> at the end of each round;
  it lists the timers that each round ran. The list of readings is as long as the loop is watched.
\<close>

fun timer_work :: "(tw_base \<Rightarrow> tid \<Rightarrow> u64 \<Rightarrow> tw_op list) \<Rightarrow> u64 \<Rightarrow> u64 \<Rightarrow> (u64 \<times> bool) list \<Rightarrow> tw_base \<Rightarrow>
    (tid list \<times> int) list \<times> tw_base" where
  "timer_work call start_time expect_time [] base = ([], base)"
| "timer_work call start_time expect_time ((now, stop) # turns) base =
     (let (fired, base) = run_timers call base;
          expect_time = timer_expect start_time expect_time now;
          sleep_time = timer_sleep_time expect_time now
      in if stop then ([(fired, sleep_time)], base)
         else let (rest, base) = timer_work call start_time expect_time turns base in ((fired, sleep_time) # rest, base))"

text \<open>
  \<^verbatim>\<open>tw_init_timers\<close>, with the results of the library calls: the allocation, \<^verbatim>\<open>pthread_spin_init\<close>,
  \<^verbatim>\<open>gettimeofday\<close>, \<^verbatim>\<open>pthread_cond_init\<close>, \<^verbatim>\<open>pthread_create\<close>; \<open>timers\<close> are the timer objects of the clients.
\<close>

definition tw_init_timers ::
  "bool \<Rightarrow> int \<Rightarrow> int \<times> u64 \<Rightarrow> int \<Rightarrow> int \<Rightarrow> (tid \<Rightarrow> tw_timer_list) \<Rightarrow> tw_base option" where
  "tw_init_timers allocated spin_init time_of_day cond_init create timers =
     (if \<not> allocated then None
      else if spin_init \<noteq> 0 then None
      else if fst time_of_day < 0 then None
      else if cond_init \<noteq> 0 then None
      else if create \<noteq> 0 then None
      else Some \<lparr>tw_jiffies = snd time_of_day, tw_tv = (\<lambda>_. []), tw_work = [], tw_timers = timers,
             tw_runner_alive = True, tw_stop = False\<rparr>)"

text \<open>\<^verbatim>\<open>pthread_join\<close> returns when the runner has seen \<^verbatim>\<open>stop\<close>.\<close>

definition tw_stop_timers :: "tw_base \<Rightarrow> tw_base" where
  "tw_stop_timers base =
     (if \<not> tw_runner_alive base then base else base\<lparr>tw_stop := True, tw_runner_alive := False\<rparr>)"

section \<open>The timer of the program (timer.c)\<close>

text \<open>The global \<^verbatim>\<open>dns_timer_base\<close>; \<^verbatim>\<open>tw_cleanup_timers\<close> stops the runner and frees the base.\<close>

type_synonym dns_timer = "tw_base option"

definition dns_timer_init :: "tw_base option \<Rightarrow> dns_timer \<Rightarrow> int \<times> dns_timer" where
  "dns_timer_init tw g = (case tw of None \<Rightarrow> (-1, g) | Some base \<Rightarrow> (0, Some base))"

definition dns_timer_stop :: "dns_timer \<Rightarrow> dns_timer" where
  "dns_timer_stop g = (case g of None \<Rightarrow> None | Some base \<Rightarrow> Some (tw_stop_timers base))"

definition dns_timer_destroy :: "dns_timer \<Rightarrow> dns_timer" where
  "dns_timer_destroy g = None"

definition dns_timer_add :: "dns_timer \<Rightarrow> tid \<Rightarrow> dns_timer" where
  "dns_timer_add g t = (case g of None \<Rightarrow> None | Some base \<Rightarrow> Some (tw_add_timer base t))"

definition dns_timer_del :: "dns_timer \<Rightarrow> tid \<Rightarrow> bool \<times> dns_timer" where
  "dns_timer_del g t =
     (case g of None \<Rightarrow> (False, None) | Some base \<Rightarrow> let (ret, base) = tw_del_timer base t in (ret, Some base))"

definition dns_timer_mod :: "dns_timer \<Rightarrow> tid \<Rightarrow> u64 \<Rightarrow> bool \<times> dns_timer" where
  "dns_timer_mod g t expires =
     (case g of None \<Rightarrow> (False, None)
      | Some base \<Rightarrow> let (ret, base) = tw_mod_timer_pending base t expires in (ret, Some base))"

end
