(* ===== verification/Timer_Wheel_Inv.thy ===== *)
theory Timer_Wheel_Inv
  imports Timer_Wheel
begin

text \<open>
  The invariant of the timer wheel, that every operation keeps it, and that the start of \<^verbatim>\<open>run_timers\<close> takes
  exactly the timers that are due: the five levels behave like one set of timers.
\<close>

section \<open>Where a timer is linked\<close>

text \<open>
  A timer that expires at \<open>X\<close> is in the right place at time \<open>j\<close> when it is in the slot of the first
  level that is processed at \<open>X\<close>, or at once if \<open>X\<close> is over, or in a slot of a higher level that is cascaded at a time \<open>c\<close> not
  before \<open>lim\<close> and not after \<open>X\<close>.
\<close>

definition lev_bits :: "nat \<Rightarrow> nat" where
  "lev_bits l = 10 + (l - 2) * 6"

fun placed :: "nat \<Rightarrow> nat \<Rightarrow> nat \<Rightarrow> tw_slot \<Rightarrow> bool" where
  "placed lim j X (TV l i) \<longleftrightarrow>
     l = 1 \<and> max X j < j + 1024 \<and> i = max X j mod 1024 \<or>
     2 \<le> l \<and> l \<le> 5 \<and> (\<exists>c. lim \<le> c \<and> c \<le> X \<and> 2 ^ lev_bits l dvd c \<and> i = c div 2 ^ lev_bits l mod 64)"

lemma unat_slot: "unat (drop_bit n (w :: u64) AND TVN_MASK) = unat w div 2 ^ n mod 64"
proof -
  have "drop_bit n w AND TVN_MASK = take_bit 6 (drop_bit n w)" by (simp add: TVN_MASK_def take_bit_eq_mask mask_eq_exp_minus_1)
  then show ?thesis by (simp only: unsigned_take_bit_eq unat_drop_bit_eq) (simp add: take_bit_eq_mod drop_bit_eq_div)
qed

lemma unat_root_slot: "unat ((w :: u64) AND TVR_MASK) = unat w mod 1024"
proof -
  have "w AND TVR_MASK = take_bit 10 w" by (simp add: TVR_MASK_def take_bit_eq_mask mask_eq_exp_minus_1)
  then show ?thesis by (simp only: unsigned_take_bit_eq) (simp add: take_bit_eq_mod)
qed

lemma sint_negative: "sint (w :: u64) < 0 \<longleftrightarrow> 2 ^ 63 \<le> unat w"
proof -
  have u: "unat w < 2 ^ 64" using unsigned_less[of w] by simp
  have "sint w < 0 \<longleftrightarrow> bit (unat w) 63" by (simp add: sint_uint signed_take_bit_negative_iff bit_unsigned_iff)
  also have "\<dots> \<longleftrightarrow> odd (unat w div 2 ^ 63)" by (simp add: bit_nat_def)
  also have "unat w div 2 ^ 63 = (if unat w < 2 ^ 63 then 0 else 1)" using u by (auto intro!: div_nat_eqI)
  finally show ?thesis by simp
qed

lemma placed_high:
  assumes "2 \<le> l" "l \<le> 5" "j + 2 ^ lev_bits l \<le> Y" "Y \<le> X"
  shows "placed (j + 1) j X (TV l (Y div 2 ^ lev_bits l mod 64))"
proof -
  let ?p = "2 ^ lev_bits l :: nat" let ?c = "Y div ?p * ?p"
  have "Y < ?c + ?p" by (metis add.commute dividend_less_div_times zero_less_numeral zero_less_power)
  then have "j + 1 \<le> ?c" using assms(3) by linarith
  moreover have "?c \<le> X" using assms(4) div_times_less_eq_dividend le_trans by blast
  ultimately show ?thesis using assms(1,2) by (auto intro!: exI[of _ ?c])
qed

lemma tw_vec_future:
  assumes "unat jiffies \<le> unat expires" "unat expires < 2 ^ 63"
  shows "tw_vec jiffies expires =
     (let j = unat jiffies; X = unat expires; d = X - j in
      if d < 1024 then TV 1 (X mod 1024)
      else if d < 2 ^ 16 then TV 2 (X div 2 ^ 10 mod 64)
      else if d < 2 ^ 22 then TV 3 (X div 2 ^ 16 mod 64)
      else if d < 2 ^ 28 then TV 4 (X div 2 ^ 22 mod 64)
      else TV 5 (min X (j + (2 ^ 34 - 1)) div 2 ^ 28 mod 64))"
proof -
  let ?idx = "expires - jiffies"
  have idx: "unat ?idx = unat expires - unat jiffies" using assms(1) by (simp add: unat_sub word_le_nat_alt)
  have pos: "\<not> sint ?idx < 0" unfolding sint_negative idx using assms(2) by simp
  have m: "unat MAX_TVAL = 2 ^ 34 - 1" by (simp add: MAX_TVAL_def)
  have e: "unat (if ?idx > MAX_TVAL then MAX_TVAL + jiffies else expires) = min (unat expires) (unat jiffies + (2 ^ 34 - 1))"
  proof (cases "?idx > MAX_TVAL")
    case True
    then have l: "2 ^ 34 - 1 < unat expires - unat jiffies" by (simp add: word_less_nat_alt idx m)
    then have "unat MAX_TVAL + unat jiffies < 2 ^ 64" using assms(2) by (simp add: m)
    then have "unat (MAX_TVAL + jiffies) = unat MAX_TVAL + unat jiffies" using unat_add_lem[of MAX_TVAL jiffies] by simp
    then show ?thesis using True l m by simp
  next
    case False
    then have "unat expires - unat jiffies \<le> 2 ^ 34 - 1" by (simp add: word_less_nat_alt idx m)
    then show ?thesis using False by simp
  qed
  show ?thesis
    unfolding tw_vec_def Let_def by (simp only: pos if_False unat_slot unat_root_slot e) (simp add: word_less_nat_alt idx TVR_SIZE_def)
qed

lemma tw_vec_over:
  assumes "unat expires < unat jiffies" "unat jiffies < 2 ^ 62"
  shows "tw_vec jiffies expires = TV 1 (unat jiffies mod 1024)"
proof -
  let ?idx = "expires - jiffies"
  have u: "unat ?idx = 2 ^ 64 - (unat jiffies - unat expires)"
    using assms by (simp add: unat_sub_if')
  then have big: "2 ^ 63 \<le> unat ?idx" using assms by simp
  then have "\<not> ?idx < TVR_SIZE" "\<not> ?idx < 2 ^ 16" "\<not> ?idx < 2 ^ 22" "\<not> ?idx < 2 ^ 28"
    by (simp_all add: word_less_nat_alt TVR_SIZE_def)
  moreover have "sint ?idx < 0" using big by (simp add: sint_negative)
  ultimately show ?thesis by (simp only: tw_vec_def Let_def if_False if_True unat_root_slot)
qed

lemma vec_placed:
  assumes j: "unat jiffies < 2 ^ 62" and X: "unat expires < 2 ^ 63"
  shows "placed (unat jiffies + 1) (unat jiffies) (unat expires) (tw_vec jiffies expires)"
proof (cases "unat jiffies \<le> unat expires")
  case True
  define j X where jX: "j = unat jiffies" "X = unat expires"
  have le: "j \<le> X" using True by (simp add: jX)
  have b: "lev_bits 2 = 10" "lev_bits 3 = 16" "lev_bits 4 = 22" "lev_bits 5 = 28" by (simp_all add: lev_bits_def)
  note high = placed_high[of 2 j X X] placed_high[of 3 j X X] placed_high[of 4 j X X] placed_high[of 5 j "min X (j + (2 ^ 34 - 1))" X]
  consider "X - j < 1024" | "1024 \<le> X - j" "X - j < 2 ^ 16" | "2 ^ 16 \<le> X - j" "X - j < 2 ^ 22"
    | "2 ^ 22 \<le> X - j" "X - j < 2 ^ 28" | "2 ^ 28 \<le> X - j" by linarith
  then show ?thesis
    unfolding tw_vec_future[OF True X, folded jX] jX[symmetric] Let_def
    by cases (use le high in \<open>simp_all add: b del: placed.simps\<close>, simp add: max_absorb1)
next
  case False
  then show ?thesis using tw_vec_over[OF _ j] by simp
qed

section \<open>The invariant\<close>

definition pending_in :: "tw_base \<Rightarrow> tid set" where
  "pending_in base = (\<Union>k. set (tw_tv base k))"

lemma pending_iff: "t \<in> pending_in base \<longleftrightarrow> (\<exists>k. t \<in> set (tw_tv base k))"
  by (simp add: pending_in_def)

text \<open>Every timer is linked in at most one place, and its mark says whether it is.\<close>

definition links_ok :: "tw_base \<Rightarrow> bool" where
  "links_ok base \<longleftrightarrow> (\<forall>k. distinct (tw_tv base k)) \<and> distinct (tw_work base) \<and>
     (\<forall>t k k'. t \<in> set (tw_tv base k) \<and> t \<in> set (tw_tv base k') \<longrightarrow> k = k') \<and>
     pending_in base \<inter> set (tw_work base) = {} \<and>
     (\<forall>t. tt_linked (tw_timers base t) \<longleftrightarrow> t \<in> pending_in base \<or> t \<in> set (tw_work base))"

definition wheel_ok :: "nat \<Rightarrow> tw_base \<Rightarrow> bool" where
  "wheel_ok lim base \<longleftrightarrow> (\<forall>k. \<forall>t\<in>set (tw_tv base k). placed lim (unat (tw_jiffies base)) (unat (expires_of base t)) k)"

definition times_ok :: "tw_base \<Rightarrow> bool" where
  "times_ok base \<longleftrightarrow> 0 < unat (tw_jiffies base) \<and> unat (tw_jiffies base) < 2 ^ 62 \<and>
     (\<forall>t\<in>pending_in base. unat (expires_of base t) < 2 ^ 63)"

definition tw_inv :: "tw_base \<Rightarrow> bool" where
  "tw_inv base \<longleftrightarrow> links_ok base \<and> wheel_ok (unat (tw_jiffies base)) base \<and> times_ok base"

lemma placed_mono: "placed lim j X k \<Longrightarrow> lim' \<le> lim \<Longrightarrow> placed lim' j X k"
  by (cases k) (auto intro: order_trans)

section \<open>Linking\<close>

lemma link_timer_sel [simp]:
  "tw_tv (tw_link_timer base t) k = tw_tv base k @ (if k = tw_vec (tw_jiffies base) (expires_of base t) then [t] else [])"
  "tw_jiffies (tw_link_timer base t) = tw_jiffies base" "tw_work (tw_link_timer base t) = tw_work base"
  "tw_timers (tw_link_timer base t) = (tw_timers base)(t := (tw_timers base t)\<lparr>tt_linked := True\<rparr>)"
  "expires_of (tw_link_timer base t) u = expires_of base u"
  by (simp_all add: tw_link_timer_def set_linked_def expires_of_def Let_def)

lemma set_expires_sel [simp]:
  "tw_tv (set_expires t e base) = tw_tv base" "tw_jiffies (set_expires t e base) = tw_jiffies base"
  "tw_work (set_expires t e base) = tw_work base" "expires_of (set_expires t e base) u = (if u = t then e else expires_of base u)"
  "tt_linked (tw_timers (set_expires t e base) u) = tt_linked (tw_timers base u)"
  by (simp_all add: set_expires_def expires_of_def)

lemma detach_timer_sel [simp]:
  "tw_tv (tw_detach_timer base t) k = removeAll t (tw_tv base k)" "tw_jiffies (tw_detach_timer base t) = tw_jiffies base"
  "tw_work (tw_detach_timer base t) = removeAll t (tw_work base)" "expires_of (tw_detach_timer base t) u = expires_of base u"
  "tw_timers (tw_detach_timer base t) = (tw_timers base)(t := (tw_timers base t)\<lparr>tt_linked := False\<rparr>)"
  by (simp_all add: tw_detach_timer_def set_linked_def expires_of_def)

lemma pending_link [simp]: "pending_in (tw_link_timer base t) = insert t (pending_in base)"
  by (auto simp: pending_in_def split: if_splits)

lemma pending_detach [simp]: "pending_in (tw_detach_timer base t) = pending_in base - {t}"
  by (auto simp: pending_in_def)

lemma pending_set_expires [simp]: "pending_in (set_expires t e base) = pending_in base"
  by (simp add: pending_in_def)

lemma link_timer_inv:
  assumes "tw_inv base" "\<not> timer_pending base t" "unat (expires_of base t) < 2 ^ 63"
  shows "tw_inv (tw_link_timer base t)"
proof -
  have n: "t \<notin> pending_in base" "t \<notin> set (tw_work base)" using assms(1,2) by (auto simp: tw_inv_def links_ok_def timer_pending_def)
  then have nt: "t \<notin> set (tw_tv base k)" for k by (auto simp: pending_in_def)
  have "links_ok (tw_link_timer base t)" using assms(1) n nt by (auto simp: tw_inv_def links_ok_def)
  moreover have "placed (unat (tw_jiffies base) + 1) (unat (tw_jiffies base)) (unat (expires_of base t)) (tw_vec (tw_jiffies base) (expires_of base t))"
    using assms by (intro vec_placed) (auto simp: tw_inv_def times_ok_def)
  then have "wheel_ok (unat (tw_jiffies base)) (tw_link_timer base t)"
    using assms(1) placed_mono[of "unat (tw_jiffies base) + 1"] by (auto simp: tw_inv_def wheel_ok_def)
  ultimately show ?thesis using assms(1,3) by (auto simp: tw_inv_def times_ok_def)
qed

lemma detach_timer_inv:
  assumes "tw_inv base"
  shows "tw_inv (tw_detach_timer base t)"
proof -
  have "links_ok (tw_detach_timer base t)" using assms by (auto simp: tw_inv_def links_ok_def distinct_removeAll)
  moreover have "wheel_ok (unat (tw_jiffies base)) (tw_detach_timer base t)" using assms by (simp add: tw_inv_def wheel_ok_def)
  ultimately show ?thesis using assms by (simp add: tw_inv_def times_ok_def)
qed

lemma not_pending: "tw_inv base \<Longrightarrow> \<not> timer_pending base t \<Longrightarrow> t \<notin> set (tw_tv base k)"
  unfolding tw_inv_def links_ok_def timer_pending_def pending_in_def by blast

lemma set_expires_inv:
  assumes "tw_inv base" "\<not> timer_pending base t"
  shows "tw_inv (set_expires t e base)"
proof -
  note nt = not_pending[OF assms]
  have "links_ok (set_expires t e base)" using assms by (simp add: tw_inv_def links_ok_def)
  moreover have "wheel_ok (unat (tw_jiffies base)) (set_expires t e base)" using assms nt by (auto simp: tw_inv_def wheel_ok_def)
  ultimately show ?thesis using assms nt by (auto simp: tw_inv_def times_ok_def pending_in_def)
qed

section \<open>Cascading\<close>

lemma foldl_link:
  assumes "\<forall>t\<in>set ts. tt_linked (tw_timers base t)"
  shows "foldl tw_link_timer base ts =
    base\<lparr>tw_tv := (\<lambda>k. tw_tv base k @ filter (\<lambda>t. tw_vec (tw_jiffies base) (expires_of base t) = k) ts)\<rparr>"
  using assms
proof (induction ts arbitrary: base)
  case (Cons t ts)
  have "(tw_timers base)(t := (tw_timers base t)\<lparr>tt_linked := True\<rparr>) = tw_timers base" using Cons.prems by auto
  then have "tw_link_timer base t = base\<lparr>tw_tv := (\<lambda>k. tw_tv base k @ (if k = tw_vec (tw_jiffies base) (expires_of base t) then [t] else []))\<rparr>"
    by (auto simp: tw_link_timer_def set_linked_def Let_def fun_eq_iff)
  then show ?case using Cons by (auto simp: expires_of_def fun_eq_iff)
qed simp

text \<open>The cascade moves the timers of one slot to where they belong now and touches nothing else.\<close>

lemma tw_cascade_eq:
  assumes "links_ok base"
  shows "tw_cascade l i base = base\<lparr>tw_tv := (\<lambda>k. (if k = TV l i then [] else tw_tv base k) @
    filter (\<lambda>t. tw_vec (tw_jiffies base) (expires_of base t) = k) (tw_tv base (TV l i)))\<rparr>"
proof -
  have "\<forall>t\<in>set (tw_tv base (TV l i)). tt_linked (tw_timers base t)" using assms by (auto simp: links_ok_def pending_in_def)
  then show ?thesis unfolding tw_cascade_def by (subst foldl_link) (auto simp: expires_of_def fun_eq_iff)
qed

lemma cascade_sel:
  assumes "links_ok base"
  shows "tw_jiffies (tw_cascade l i base) = tw_jiffies base" "tw_work (tw_cascade l i base) = tw_work base"
    "tw_timers (tw_cascade l i base) = tw_timers base" "expires_of (tw_cascade l i base) = expires_of base"
    "tw_index (tw_cascade l i base) = tw_index base"
    "t \<in> set (tw_tv (tw_cascade l i base) k) \<longleftrightarrow> (if t \<in> set (tw_tv base (TV l i)) then k = tw_vec (tw_jiffies base) (expires_of base t) else t \<in> set (tw_tv base k))"
    "pending_in (tw_cascade l i base) = pending_in base"
    "links_ok (tw_cascade l i base)"
proof -
  note e = tw_cascade_eq[OF assms]
  show "tw_jiffies (tw_cascade l i base) = tw_jiffies base" "tw_work (tw_cascade l i base) = tw_work base"
    "tw_timers (tw_cascade l i base) = tw_timers base" "expires_of (tw_cascade l i base) = expires_of base"
    "tw_index (tw_cascade l i base) = tw_index base"
    unfolding e by (simp_all add: expires_of_def fun_eq_iff tw_index_def)
  show m: "t \<in> set (tw_tv (tw_cascade l i base) k) \<longleftrightarrow> (if t \<in> set (tw_tv base (TV l i)) then k = tw_vec (tw_jiffies base) (expires_of base t) else t \<in> set (tw_tv base k))" for t k
    unfolding e using assms by (auto simp: links_ok_def)
  show p: "pending_in (tw_cascade l i base) = pending_in base"
    unfolding pending_in_def by (auto simp: m split: if_splits) metis
  have "distinct (tw_tv (tw_cascade l i base) k)" for k
    unfolding e using assms by (auto simp: links_ok_def)
  then show "links_ok (tw_cascade l i base)"
    using assms unfolding links_ok_def p by (auto simp: m e split: if_splits)
qed

text \<open>The slots of a level are cascaded in time.\<close>

definition fresh :: "nat \<Rightarrow> tw_base \<Rightarrow> bool" where
  "fresh l base \<longleftrightarrow> (\<forall>i. \<forall>t\<in>set (tw_tv base (TV l i)).
     placed (unat (tw_jiffies base) + 1) (unat (tw_jiffies base)) (unat (expires_of base t)) (TV l i))"

lemma moved_placed:
  assumes "times_ok base" "t \<in> set (tw_tv base k)"
  shows "placed (unat (tw_jiffies base) + 1) (unat (tw_jiffies base)) (unat (expires_of base t)) (tw_vec (tw_jiffies base) (expires_of base t))"
  using assms by (intro vec_placed) (auto simp: times_ok_def pending_in_def)

lemma cascade_inv:
  assumes "tw_inv base"
  shows "tw_inv (tw_cascade l i base)"
proof -
  have l: "links_ok base" and t: "times_ok base" using assms by (auto simp: tw_inv_def)
  note c = cascade_sel[OF l]
  have "wheel_ok (unat (tw_jiffies base)) (tw_cascade l i base)"
    unfolding wheel_ok_def using assms placed_mono[OF moved_placed[OF t]]
    by (auto simp: c tw_inv_def wheel_ok_def split: if_splits simp del: placed.simps)
  then show ?thesis using t c by (auto simp: tw_inv_def times_ok_def)
qed

lemma cascade_fresh:
  assumes "tw_inv base" "fresh l' base"
  shows "fresh l' (tw_cascade l i base)"
proof -
  have l: "links_ok base" and t: "times_ok base" using assms by (auto simp: tw_inv_def)
  show ?thesis unfolding fresh_def
    using assms(2) moved_placed[OF t] by (auto simp: cascade_sel[OF l] fresh_def split: if_splits simp del: placed.simps)
qed

lemma cascade_fresh_self:
  assumes "tw_inv base" "2 \<le> l" and i: "i = unat (tw_jiffies base) div 2 ^ lev_bits l mod 64"
  shows "fresh l (tw_cascade l i base)"
proof -
  have l: "links_ok base" and t: "times_ok base" and w: "wheel_ok (unat (tw_jiffies base)) base" using assms by (auto simp: tw_inv_def)
  have "placed (unat (tw_jiffies base) + 1) (unat (tw_jiffies base)) (unat (expires_of base u)) (TV l i')"
    if u: "u \<in> set (tw_tv base (TV l i'))" and "u \<notin> set (tw_tv base (TV l i))" for u i'
  proof -
    have "i' \<noteq> i" using that by auto
    moreover have "placed (unat (tw_jiffies base)) (unat (tw_jiffies base)) (unat (expires_of base u)) (TV l i')"
      using w u unfolding wheel_ok_def by blast
    then obtain c where c: "unat (tw_jiffies base) \<le> c" "c \<le> unat (expires_of base u)" "2 ^ lev_bits l dvd c" "i' = c div 2 ^ lev_bits l mod 64" "l \<le> 5"
      using assms(2) by auto
    ultimately have "unat (tw_jiffies base) + 1 \<le> c" using i by (metis Suc_eq_plus1 not_less_eq_eq le_antisym)
    then show ?thesis using c assms(2) by auto
  qed
  then show ?thesis unfolding fresh_def
    using moved_placed[OF t] by (auto simp: cascade_sel[OF l] split: if_splits simp del: placed.simps)
qed

lemma fresh_between:
  assumes "tw_inv base" "\<not> 2 ^ lev_bits l dvd unat (tw_jiffies base)" "2 \<le> l"
  shows "fresh l base"
  unfolding fresh_def
proof (intro allI ballI)
  fix i t assume "t \<in> set (tw_tv base (TV l i))"
  then have "placed (unat (tw_jiffies base)) (unat (tw_jiffies base)) (unat (expires_of base t)) (TV l i)"
    using assms(1) unfolding tw_inv_def wheel_ok_def by blast
  then obtain c where c: "unat (tw_jiffies base) \<le> c" "c \<le> unat (expires_of base t)" "2 ^ lev_bits l dvd c" "i = c div 2 ^ lev_bits l mod 64" "l \<le> 5"
    using assms(3) by auto
  then have "unat (tw_jiffies base) + 1 \<le> c" using assms(2) by (metis Suc_eq_plus1 not_less_eq_eq le_antisym)
  then show "placed (unat (tw_jiffies base) + 1) (unat (tw_jiffies base)) (unat (expires_of base t)) (TV l i)" using c assms(3) by auto
qed


lemma lev_bits_simps [simp]: "lev_bits 2 = 10" "lev_bits 3 = 16" "lev_bits 4 = 22" "lev_bits 5 = 28"
  by (simp_all add: lev_bits_def)

lemma index_eq: "tw_index base n = unat (tw_jiffies base) div 2 ^ lev_bits (n + 2) mod 64"
  by (simp add: tw_index_def unat_slot lev_bits_def)

text \<open>The time is a multiple of the next power when it is one of the last and the index between is 0.\<close>

lemma dvd_next: "2 ^ m dvd (j :: nat) \<Longrightarrow> 2 ^ (m + 6) dvd j \<longleftrightarrow> j div 2 ^ m mod 64 = 0"
  by (auto simp: power_add mod_eq_0_iff_dvd elim!: dvdE)

lemma run_cascades_sel:
  assumes "links_ok base"
  shows "tw_jiffies (run_cascades base) = tw_jiffies base" "tw_work (run_cascades base) = tw_work base"
    "tw_timers (run_cascades base) = tw_timers base" "expires_of (run_cascades base) = expires_of base"
    "pending_in (run_cascades base) = pending_in base" "links_ok (run_cascades base)"
  using assms by (simp_all add: run_cascades_def Let_def cascade_sel)

lemma run_cascades_inv: "tw_inv base \<Longrightarrow> tw_inv (run_cascades base)"
  by (auto simp: run_cascades_def Let_def intro!: cascade_inv)

lemma run_cascades_fresh:
  assumes "tw_inv base" "2 \<le> l" "l \<le> 5"
  shows "fresh l (run_cascades base)"
proof -
  define j where "j = unat (tw_jiffies base)"
  define b2 where "b2 = tw_cascade 2 (j div 2 ^ 10 mod 64) base"
  define b3 where "b3 = tw_cascade 3 (j div 2 ^ 16 mod 64) b2"
  define b4 where "b4 = tw_cascade 4 (j div 2 ^ 22 mod 64) b3"
  define b5 where "b5 = tw_cascade 5 (j div 2 ^ 28 mod 64) b4"
  have i: "tw_inv b2" "tw_inv b3" "tw_inv b4" using assms(1) by (auto simp: b2_def b3_def b4_def intro: cascade_inv)
  then have "links_ok base" "links_ok b2" "links_ok b3" "links_ok b4" using assms(1) by (auto simp: tw_inv_def)
  then have jif: "tw_jiffies b2 = tw_jiffies base" "tw_jiffies b3 = tw_jiffies base" "tw_jiffies b4 = tw_jiffies base"
    by (auto simp: b2_def b3_def b4_def cascade_sel)
  have ix: "tw_index b 0 = unat (tw_jiffies b) div 2 ^ 10 mod 64" "tw_index b 1 = unat (tw_jiffies b) div 2 ^ 16 mod 64"
    "tw_index b 2 = unat (tw_jiffies b) div 2 ^ 22 mod 64" "tw_index b 3 = unat (tw_jiffies b) div 2 ^ 28 mod 64" for b
    by (simp_all add: index_eq lev_bits_def)
  have r: "run_cascades base = (if j mod 1024 \<noteq> 0 then base else if j div 2 ^ 10 mod 64 \<noteq> 0 then b2
      else if j div 2 ^ 16 mod 64 \<noteq> 0 then b3 else if j div 2 ^ 22 mod 64 \<noteq> 0 then b4 else b5)"
    by (simp only: run_cascades_def Let_def ix unat_root_slot j_def[symmetric] b2_def[symmetric] b3_def[symmetric] b4_def[symmetric]
        b5_def[symmetric] jif)
  define D where "D n \<longleftrightarrow> 2 ^ lev_bits n dvd j" for n
  have d: "j mod 1024 = 0 \<longleftrightarrow> D 2" "D 2 \<Longrightarrow> j div 2 ^ 10 mod 64 = 0 \<longleftrightarrow> D 3" "D 3 \<Longrightarrow> j div 2 ^ 16 mod 64 = 0 \<longleftrightarrow> D 4"
    "D 4 \<Longrightarrow> j div 2 ^ 22 mod 64 = 0 \<longleftrightarrow> D 5"
    using dvd_next[of 10 j] dvd_next[of 16 j] dvd_next[of 22 j] by (auto simp: D_def mod_eq_0_iff_dvd)
  have m: "D 3 \<Longrightarrow> D 2" "D 4 \<Longrightarrow> D 3" "D 5 \<Longrightarrow> D 4" unfolding D_def by (simp_all, (erule dvd_trans[rotated], simp)+)
  have r': "run_cascades base = (if \<not> D 2 then base else if \<not> D 3 then b2 else if \<not> D 4 then b3 else if \<not> D 5 then b4 else b5)"
    unfolding r using d by (cases "D 2"; cases "D 3"; cases "D 4") simp_all
  have f: "fresh 2 b2" "fresh 3 b3" "fresh 4 b4" "fresh 5 b5"
    using cascade_fresh_self[OF assms(1), of 2 "j div 2 ^ 10 mod 64", folded b2_def]
      cascade_fresh_self[OF i(1), of 3 "j div 2 ^ 16 mod 64", folded b3_def]
      cascade_fresh_self[OF i(2), of 4 "j div 2 ^ 22 mod 64", folded b4_def]
      cascade_fresh_self[OF i(3), of 5 "j div 2 ^ 28 mod 64", folded b5_def] by (simp_all add: jif j_def)
  note keep = cascade_fresh[OF assms(1), of _ 2 "j div 2 ^ 10 mod 64", folded b2_def]
    cascade_fresh[OF i(1), of _ 3 "j div 2 ^ 16 mod 64", folded b3_def]
    cascade_fresh[OF i(2), of _ 4 "j div 2 ^ 22 mod 64", folded b4_def]
    cascade_fresh[OF i(3), of _ 5 "j div 2 ^ 28 mod 64", folded b5_def]
  have btw: "\<not> D n \<Longrightarrow> 2 \<le> n \<Longrightarrow> fresh n base" for n using fresh_between[OF assms(1)] by (simp add: D_def j_def)
  have "l = 2 \<or> l = 3 \<or> l = 4 \<or> l = 5" using assms(2,3) by auto
  then show ?thesis unfolding r' using m f btw[of 2] btw[of 3] btw[of 4] btw[of 5] by (elim disjE) (auto intro: keep)
qed

section \<open>One tick\<close>

lemma mod_1024_unique:
  assumes "j \<le> x" "x < j + 1024" "x mod 1024 = (j :: nat) mod 1024"
  shows "x = j"
proof (rule ccontr)
  assume "x \<noteq> j"
  then have "0 < x - j" "x - j < 1024" using assms by auto
  moreover have "1024 dvd x - j" using assms(1,3) by (metis mod_eq_dvd_iff_nat)
  ultimately show False using nat_dvd_not_less by blast
qed

lemma due_slot:
  assumes "tw_inv base" "t \<in> pending_in base" and j: "j = unat (tw_jiffies base)" and X: "X = unat (expires_of base t)"
  shows "t \<in> set (tw_tv (run_cascades base) (TV 1 (j mod 1024))) \<longleftrightarrow> X \<le> j"
    and "t \<in> set (tw_tv (run_cascades base) k) \<Longrightarrow> j < X \<Longrightarrow> placed (j + 1) (j + 1) X k"
proof -
  let ?b = "run_cascades base"
  have l: "links_ok base" using assms(1) by (simp add: tw_inv_def)
  note sel = run_cascades_sel[OF l]
  have w: "wheel_ok j ?b" using run_cascades_inv[OF assms(1)] sel j by (simp add: tw_inv_def)
  have pl: "placed (j + 1) j X k" if t: "t \<in> set (tw_tv ?b k)" for k
  proof (cases k)
    case (TV l i)
    have p: "placed j j X (TV l i)" using w t unfolding wheel_ok_def sel j[symmetric] X TV by blast
    show ?thesis
    proof (cases "l = 1")
      case False
      then have "2 \<le> l" "l \<le> 5" using p by auto
      then show ?thesis using run_cascades_fresh[OF assms(1)] t unfolding TV fresh_def sel j[symmetric] X by blast
    qed (use p TV in simp)
  qed
  obtain k where k: "t \<in> set (tw_tv ?b k)" using assms(2) sel(5) pending_iff by metis
  show "t \<in> set (tw_tv ?b (TV 1 (j mod 1024))) \<longleftrightarrow> X \<le> j"
  proof
    assume "t \<in> set (tw_tv ?b (TV 1 (j mod 1024)))"
    from pl[OF this] have a: "max X j < j + 1024" "max X j mod 1024 = j mod 1024" by auto
    have "max X j = j" by (rule mod_1024_unique[OF _ a]) simp
    then show "X \<le> j" by simp
  next
    assume "X \<le> j"
    then have "k = TV 1 (j mod 1024)" using pl[OF k] by (cases k) (auto simp: max_absorb2)
    then show "t \<in> set (tw_tv ?b (TV 1 (j mod 1024)))" using k by simp
  qed
  show "placed (j + 1) (j + 1) X k" if "t \<in> set (tw_tv ?b k)" "j < X" for k
    using pl[OF that(1)] that(2) by (cases k) (auto simp: max_absorb1)
qed

lemma run_begin_post:
  assumes inv: "tw_inv base" and work: "tw_work base = []" and j: "j = unat (tw_jiffies base)" and bound: "j + 1 < 2 ^ 62"
  shows "set (tw_work (run_begin base)) = {t \<in> pending_in base. unat (expires_of base t) \<le> j}"
    "pending_in (run_begin base) = {t \<in> pending_in base. j < unat (expires_of base t)}"
    "tw_timers (run_begin base) = tw_timers base" "unat (tw_jiffies (run_begin base)) = j + 1" "tw_inv (run_begin base)"
proof -
  let ?b = "run_cascades base" and ?r = "run_begin base"
  have l: "links_ok base" using inv by (simp add: tw_inv_def)
  note sel = run_cascades_sel[OF l] and due = due_slot[OF inv _ j refl]
  have r: "tw_work ?r = tw_tv ?b (TV 1 (j mod 1024))" "tw_tv ?r = (tw_tv ?b)(TV 1 (j mod 1024) := [])" "tw_jiffies ?r = tw_jiffies base + 1"
    "tw_timers ?r = tw_timers base" "expires_of ?r = expires_of base"
    by (simp_all add: run_begin_def Let_def unat_root_slot j sel expires_of_def fun_eq_iff)
  have sub: "t \<in> pending_in base" if "t \<in> set (tw_tv ?b k)" for t k using that sel(5) pending_iff by metis
  show work': "set (tw_work ?r) = {t \<in> pending_in base. unat (expires_of base t) \<le> j}" using due(1) sub by (auto simp: r)
  have once: "t \<in> set (tw_tv ?b k) \<Longrightarrow> t \<in> set (tw_tv ?b k') \<Longrightarrow> k = k'" for t k k' using sel(6) unfolding links_ok_def by blast
  show pend: "pending_in ?r = {t \<in> pending_in base. j < unat (expires_of base t)}"
  proof (rule set_eqI)
    fix t
    have "t \<in> pending_in ?r \<longleftrightarrow> t \<in> pending_in base \<and> t \<notin> set (tw_tv ?b (TV 1 (j mod 1024)))"
      using once sel(5) pending_iff[of t ?r] pending_iff[of t ?b] unfolding r by (metis empty_iff fun_upd_apply list.set(1))
    then show "t \<in> pending_in ?r \<longleftrightarrow> t \<in> {t \<in> pending_in base. j < unat (expires_of base t)}" using due(1)[of t] by auto
  qed
  show "tw_timers ?r = tw_timers base" by (rule r)
  show j': "unat (tw_jiffies ?r) = j + 1" using bound unat_add_lem[of "tw_jiffies base" 1] by (simp add: r j)
  have "links_ok ?r"
    unfolding links_ok_def
  proof (intro conjI allI impI)
    show "distinct (tw_tv ?r k)" "distinct (tw_work ?r)" for k using sel(6) by (auto simp: r links_ok_def)
    show "k = k'" if "t \<in> set (tw_tv ?r k) \<and> t \<in> set (tw_tv ?r k')" for t k k'
      using that once[of t k k'] by (auto simp: r split: if_splits)
    show "pending_in ?r \<inter> set (tw_work ?r) = {}" unfolding pend work' by auto
    show "tt_linked (tw_timers ?r t) \<longleftrightarrow> t \<in> pending_in ?r \<or> t \<in> set (tw_work ?r)" for t
      using l work unfolding pend work' r(4) links_ok_def by auto
  qed
  moreover have "wheel_ok (j + 1) ?r"
    unfolding wheel_ok_def j' r(2,5)
  proof (intro allI ballI)
    fix k t assume t: "t \<in> set (((tw_tv ?b)(TV 1 (j mod 1024) := [])) k)"
    then have k: "t \<in> set (tw_tv ?b k)" "k \<noteq> TV 1 (j mod 1024)" by (auto split: if_splits)
    then have "j < unat (expires_of base t)" using due(1)[OF sub[OF k(1)]] once[OF k(1)] by (meson not_le)
    then show "placed (j + 1) (j + 1) (unat (expires_of base t)) k" by (rule due(2)[OF sub[OF k(1)] k(1)])
  qed
  moreover have "times_ok ?r" using inv bound pend unfolding times_ok_def j' tw_inv_def r(5) by auto
  ultimately show "tw_inv ?r" by (simp add: tw_inv_def j')
qed

end
