(* ===== verification/Timer_Fires.thy ===== *)
theory Timer_Fires
  imports Timer_Wheel_Inv
begin

text \<open>
  Timers fire on time. The contract of a timer queue is a locale; the wheel together with its callbacks and
  the operations of other threads is an instance.
\<close>

section \<open>Operations keep the invariant\<close>

text \<open>
  What a client must respect: an object that is linked is not written and not added again, and delays are
  below $2^{62}$ seconds.
\<close>

fun op_ok :: "tw_op \<Rightarrow> tw_base \<Rightarrow> bool" where
  "op_ok (Op_set t data expires fn) base \<longleftrightarrow> \<not> timer_pending base t"
| "op_ok (Op_add t) base \<longleftrightarrow> \<not> timer_pending base t \<and> expires_of base t < 2 ^ 62"
| "op_ok (Op_del t) base \<longleftrightarrow> True"
| "op_ok (Op_mod t expires) base \<longleftrightarrow> expires < 2 ^ 62"
| "op_ok (Op_mod_pending t expires) base \<longleftrightarrow> expires < 2 ^ 62"

fun ops_ok :: "tw_op list \<Rightarrow> tw_base \<Rightarrow> bool" where
  "ops_ok [] base \<longleftrightarrow> True"
| "ops_ok (a # as) base \<longleftrightarrow> op_ok a base \<and> ops_ok as (tw_exec a base)"

fun op_timer :: "tw_op \<Rightarrow> tid" where
  "op_timer (Op_set t data expires fn) = t"
| "op_timer (Op_add t) = t"
| "op_timer (Op_del t) = t"
| "op_timer (Op_mod t expires) = t"
| "op_timer (Op_mod_pending t expires) = t"

lemma new_expires:
  assumes "tw_inv base" "e < 2 ^ 62"
  shows "unat (e + tw_jiffies base - 1) = unat e + unat (tw_jiffies base) - 1" "unat e + unat (tw_jiffies base) - 1 < 2 ^ 63"
    "e + (tw_jiffies base - 1) = e + tw_jiffies base - 1"
proof -
  let ?j = "tw_jiffies base"
  have j: "0 < unat ?j" "unat ?j < 2 ^ 62" using assms(1) by (auto simp: tw_inv_def times_ok_def)
  have e: "unat e < 2 ^ 62" using assms(2) by (simp add: word_less_nat_alt)
  have s: "unat (e + ?j) = unat e + unat ?j" using j e unat_add_lem[of e ?j] by simp
  then have "(1 :: u64) \<le> e + ?j" using j by (simp add: word_le_nat_alt)
  then show "unat (e + ?j - 1) = unat e + unat ?j - 1" using unat_sub[of 1 "e + ?j"] s by simp
  show "unat e + unat ?j - 1 < 2 ^ 63" using j e by simp
qed simp

lemma mod_timer_inv:
  assumes "tw_inv base" "e < 2 ^ 62"
  shows "tw_inv (snd (do_mod_timer (set_expires t (e + tw_jiffies base - 1) base) t po))"
proof -
  let ?e = "e + tw_jiffies base - 1"
  have n: "unat ?e < 2 ^ 63" using new_expires[OF assms] by simp
  have c: "tw_detach_timer (set_expires t ?e base) t = set_expires t ?e (tw_detach_timer base t)"
    by (cases "tw_timers base t") (simp add: tw_detach_timer_def set_expires_def set_linked_def)
  have np: "\<not> timer_pending (tw_detach_timer base t) t" "timer_pending (set_expires t ?e base) u = timer_pending base u" for u base
    by (simp_all add: timer_pending_def)
  have d: "tw_inv (set_expires t ?e (tw_detach_timer base t))" using detach_timer_inv[OF assms(1)] np(1) by (intro set_expires_inv)
  show ?thesis
  proof (cases "timer_pending base t")
    case True
    have "tw_inv (tw_link_timer (set_expires t ?e (tw_detach_timer base t)) t)"
      using d n np by (intro link_timer_inv) simp_all
    then show ?thesis using True by (simp add: do_mod_timer_def detach_if_pending_def np c)
  next
    case False
    then have i: "tw_inv (set_expires t ?e base)" using assms(1) by (intro set_expires_inv)
    then have "tw_inv (tw_link_timer (set_expires t ?e base) t)" using False n np by (intro link_timer_inv) simp_all
    then show ?thesis using False i by (simp add: do_mod_timer_def detach_if_pending_def np)
  qed
qed

lemma exec_inv:
  assumes "tw_inv base" "op_ok a base"
  shows "tw_inv (tw_exec a base)"
proof (cases a)
  case (Op_set t data e fn)
  let ?b = "tw_exec a base"
  have nt: "t \<notin> set (tw_tv base k)" for k
    using assms Op_set by (simp add: not_pending)
  have s: "tw_tv ?b = tw_tv base" "tw_work ?b = tw_work base" "tw_jiffies ?b = tw_jiffies base" "pending_in ?b = pending_in base"
    "tt_linked (tw_timers ?b u) = tt_linked (tw_timers base u)" "u \<noteq> t \<Longrightarrow> expires_of ?b u = expires_of base u" for u
    by (simp_all add: Op_set pending_in_def expires_of_def)
  have ne: "u \<noteq> t" if "u \<in> set (tw_tv base k)" for u k using that nt by auto
  then have np: "u \<noteq> t" if "u \<in> pending_in base" for u using that by (auto simp: pending_in_def)
  show ?thesis using assms(1) unfolding tw_inv_def links_ok_def wheel_ok_def times_ok_def s(1-5) by (simp add: s(6)[OF ne] s(6)[OF np])
next
  case (Op_add t)
  let ?e = "expires_of base t + tw_jiffies base - 1"
  have p: "\<not> timer_pending base t" "expires_of base t < 2 ^ 62" using assms(2) Op_add by auto
  then have "tw_inv (tw_link_timer (set_expires t ?e base) t)"
    using assms(1) new_expires[OF assms(1) p(2)] by (intro link_timer_inv set_expires_inv) (auto simp: timer_pending_def)
  then show ?thesis using assms(1) Op_add by (simp add: tw_add_timer_def new_expires(3)[OF assms(1) p(2)])
next
  case (Op_del t)
  then show ?thesis using assms detach_timer_inv by (auto simp: tw_del_timer_def)
next
  case (Op_mod t e)
  then show ?thesis using assms mod_timer_inv by (auto simp: tw_mod_timer_def)
next
  case (Op_mod_pending t e)
  then show ?thesis using assms mod_timer_inv by (auto simp: tw_mod_timer_pending_def)
qed

lemma ops_inv: "tw_inv base \<Longrightarrow> ops_ok as base \<Longrightarrow> tw_inv (tw_ops as base)"
  by (induction as arbitrary: base) (auto intro: exec_inv)

section \<open>Operations on other timers\<close>

definition same_timer :: "tid \<Rightarrow> tw_base \<Rightarrow> tw_base \<Rightarrow> bool" where
  "same_timer t base base' \<longleftrightarrow> tw_timers base' t = tw_timers base t \<and> tw_jiffies base' = tw_jiffies base \<and>
     (t \<in> pending_in base' \<longleftrightarrow> t \<in> pending_in base) \<and> (t \<in> set (tw_work base') \<longleftrightarrow> t \<in> set (tw_work base))"

lemma same_timer_trans: "same_timer t a b \<Longrightarrow> same_timer t b c \<Longrightarrow> same_timer t a c"
  by (simp add: same_timer_def)

lemma same_set_expires: "u \<noteq> t \<Longrightarrow> same_timer t base (set_expires u e base)"
  by (simp add: same_timer_def set_expires_def pending_in_def)

lemma same_link: "u \<noteq> t \<Longrightarrow> same_timer t base (tw_link_timer base u)"
  by (simp add: same_timer_def)

lemma same_detach: "u \<noteq> t \<Longrightarrow> same_timer t base (tw_detach_timer base u)"
  by (simp add: same_timer_def)

lemma same_refl: "same_timer t base base"
  by (simp add: same_timer_def)

lemma same_mod: "u \<noteq> t \<Longrightarrow> same_timer t base (snd (do_mod_timer base u po))"
  by (auto simp: do_mod_timer_def detach_if_pending_def intro: same_refl same_link same_detach same_timer_trans)

lemma same_exec:
  assumes "op_timer a \<noteq> t"
  shows "same_timer t base (tw_exec a base)"
  using assms same_timer_trans[OF same_set_expires same_mod]
  by (cases a) (auto simp: tw_add_timer_def tw_del_timer_def tw_mod_timer_def tw_mod_timer_pending_def
      intro: same_refl same_detach same_timer_trans[OF same_set_expires same_link],
      simp add: same_timer_def pending_in_def)

lemma same_ops: "\<forall>a\<in>set as. op_timer a \<noteq> t \<Longrightarrow> same_timer t base (tw_ops as base)"
  by (induction as arbitrary: base) (auto intro: same_refl same_timer_trans[OF same_exec])

section \<open>The work list\<close>

definition calls_ok :: "(tw_base \<Rightarrow> tid \<Rightarrow> u64 \<Rightarrow> tw_op list) \<Rightarrow> bool" where
  "calls_ok call \<longleftrightarrow> (\<forall>base t call_time. tw_inv base \<longrightarrow> ops_ok (call base t call_time) base)"

definition calls_leave :: "(tw_base \<Rightarrow> tid \<Rightarrow> u64 \<Rightarrow> tw_op list) \<Rightarrow> tid \<Rightarrow> bool" where
  "calls_leave call t \<longleftrightarrow> (\<forall>base u call_time. u \<noteq> t \<longrightarrow> (\<forall>a\<in>set (call base u call_time). op_timer a \<noteq> t))"

lemma exec_jiffies: "tw_jiffies (tw_exec a base) = tw_jiffies base"
  by (cases a) (auto simp: tw_add_timer_def tw_del_timer_def tw_mod_timer_def tw_mod_timer_pending_def do_mod_timer_def
      detach_if_pending_def)

lemma ops_jiffies: "tw_jiffies (tw_ops as base) = tw_jiffies base"
  by (induction as arbitrary: base) (simp_all add: exec_jiffies)

lemma run_work_Nil: "tw_work base = [] \<Longrightarrow> run_work call ct base = ([], base)"
  by (subst run_work.simps) simp

lemma run_work_Cons:
  assumes "tw_work base = u # us"
  shows "run_work call ct base = (let b = tw_ops (call (tw_detach_timer base u) u ct) (tw_detach_timer base u);
      (fired, b') = run_work call ct b in (u # fired, b'))"
  using assms by (subst run_work.simps) (simp add: Let_def)

lemma run_work_inv:
  assumes "tw_inv base" "calls_ok call"
  shows "tw_inv (snd (run_work call ct base))" "tw_work (snd (run_work call ct base)) = []"
    "tw_jiffies (snd (run_work call ct base)) = tw_jiffies base"
  using assms
proof (induction call ct base rule: run_work.induct)
  case (1 call ct base)
  have goal: "tw_inv (snd (run_work call ct base)) \<and> tw_work (snd (run_work call ct base)) = [] \<and>
      tw_jiffies (snd (run_work call ct base)) = tw_jiffies base" if inv: "tw_inv base" and ok: "calls_ok call"
  proof (cases "tw_work base")
    case Nil
    then show ?thesis using inv by (simp add: run_work_Nil)
  next
    case (Cons u us)
    let ?d = "tw_detach_timer base u" let ?b = "tw_ops (call ?d u ct) ?d"
    have "tw_inv ?b" using detach_timer_inv[OF inv] ok by (intro ops_inv) (auto simp: calls_ok_def)
    then have "tw_inv (snd (run_work call ct ?b)) \<and> tw_work (snd (run_work call ct ?b)) = [] \<and> tw_jiffies (snd (run_work call ct ?b)) = tw_jiffies base"
      using 1(1-3)[OF Cons refl refl _ ok] by (simp add: ops_jiffies)
    then show ?thesis by (auto simp: run_work_Cons[OF Cons] Let_def split: prod.splits)
  qed
  { case 1 then show ?case using goal by blast }
  { case 2 then show ?case using goal by blast }
  { case 3 then show ?case using goal by blast }
qed

lemma run_work_timer:
  assumes "calls_leave call t"
  shows "t \<in> set (tw_work base) \<Longrightarrow> t \<in> set (fst (run_work call ct base))"
    "t \<notin> set (tw_work base) \<Longrightarrow> t \<notin> set (fst (run_work call ct base)) \<and> same_timer t base (snd (run_work call ct base))"
  using assms
proof (induction call ct base rule: run_work.induct)
  case (1 call ct base)
  have goal: "if t \<in> set (tw_work base) then t \<in> set (fst (run_work call ct base))
      else t \<notin> set (fst (run_work call ct base)) \<and> same_timer t base (snd (run_work call ct base))" if ok: "calls_leave call t"
  proof (cases "tw_work base")
    case Nil
    then show ?thesis by (simp add: run_work_Nil same_refl)
  next
    case (Cons u us)
    let ?d = "tw_detach_timer base u" let ?b = "tw_ops (call ?d u ct) ?d"
    show ?thesis
    proof (cases "u = t")
      case True
      then show ?thesis by (simp add: Cons run_work_Cons[OF Cons] Let_def split: prod.splits)
    next
      case False
      then have s: "same_timer t base ?b" using ok same_timer_trans[OF same_detach same_ops] by (simp add: calls_leave_def)
      then have w: "t \<in> set (tw_work ?b) \<longleftrightarrow> t \<in> set (tw_work base)" by (simp add: same_timer_def)
      note IH = 1(1,2)[OF Cons refl refl _ ok]
      show ?thesis using IH w False same_timer_trans[OF s]
        by (auto simp: run_work_Cons[OF Cons] Let_def split: prod.splits)
    qed
  qed
  { case 1 then show ?case using goal by (meson) }
  { case 2 then show ?case using goal by (meson) }
qed

section \<open>Rounds\<close>

text \<open>
  A round is what happens between two ticks: operations of other threads, then \<^verbatim>\<open>run_timers\<close> with its callbacks.
\<close>

type_synonym tw_event = "tw_op list \<times> (tw_base \<Rightarrow> tid \<Rightarrow> u64 \<Rightarrow> tw_op list)"

fun tw_round :: "tw_event \<Rightarrow> tw_base \<Rightarrow> tid list \<times> tw_base" where
  "tw_round (as, call) base = run_timers call (tw_ops as base)"

fun rounds :: "('e \<Rightarrow> 's \<Rightarrow> 'a \<times> 's) \<Rightarrow> 'e list \<Rightarrow> 's \<Rightarrow> 'a list \<times> 's" where
  "rounds step [] s = ([], s)"
| "rounds step (e # es) s = (let (a, s) = step e s; (as, s) = rounds step es s in (a # as, s))"

fun all_along :: "('e \<Rightarrow> 's \<Rightarrow> 'a \<times> 's) \<Rightarrow> ('e \<Rightarrow> 's \<Rightarrow> bool) \<Rightarrow> 'e list \<Rightarrow> 's \<Rightarrow> bool" where
  "all_along step P [] s \<longleftrightarrow> True"
| "all_along step P (e # es) s \<longleftrightarrow> P e s \<and> all_along step P es (snd (step e s))"

lemma length_rounds [simp]: "length (fst (rounds step es s)) = length es"
  by (induction es arbitrary: s) (auto simp: Let_def split: prod.splits, metis fst_conv)

text \<open>The contract of a timer queue, and that it makes timers fire on time.\<close>

locale timer_queue =
  fixes inv :: "'s \<Rightarrow> bool" and now :: "'s \<Rightarrow> nat" and due :: "'s \<Rightarrow> 't \<Rightarrow> nat option"
    and step :: "'e \<Rightarrow> 's \<Rightarrow> 't list \<times> 's" and allowed :: "'e \<Rightarrow> 's \<Rightarrow> bool" and leaves :: "'e \<Rightarrow> 't \<Rightarrow> bool"
  assumes step_inv: "inv s \<Longrightarrow> allowed e s \<Longrightarrow> inv (snd (step e s)) \<and> now (snd (step e s)) = now s + 1"
    and fires: "inv s \<Longrightarrow> allowed e s \<Longrightarrow> leaves e t \<Longrightarrow> due s t = Some x \<Longrightarrow> x \<le> now s \<Longrightarrow> t \<in> set (fst (step e s))"
    and waits: "inv s \<Longrightarrow> allowed e s \<Longrightarrow> leaves e t \<Longrightarrow> due s t = Some x \<Longrightarrow> now s < x \<Longrightarrow>
      t \<notin> set (fst (step e s)) \<and> due (snd (step e s)) t = Some x"
begin

lemma on_time:
  assumes "inv s" "all_along step allowed es s" "\<forall>e\<in>set es. leaves e t" "due s t = Some x" "now s \<le> x" "length es = x - now s + 1"
  shows "t \<in> set (last (fst (rounds step es s))) \<and> (\<forall>f\<in>set (butlast (fst (rounds step es s))). t \<notin> set f)"
  using assms
proof (induction es arbitrary: s)
  case (Cons e es)
  note st = step_inv[of s e]
  show ?case
  proof (cases "now s = x")
    case True
    then show ?thesis using Cons.prems fires[of s e t x] by (auto simp: Let_def split: prod.splits)
  next
    case False
    let ?s = "snd (step e s)"
    have w: "t \<notin> set (fst (step e s))" "due ?s t = Some x" using waits[of s e t x] Cons.prems False by auto
    have "t \<in> set (last (fst (rounds step es ?s))) \<and> (\<forall>f\<in>set (butlast (fst (rounds step es ?s))). t \<notin> set f)"
      using Cons.prems st w False by (intro Cons.IH) auto
    moreover have "fst (rounds step es ?s) \<noteq> []" using Cons.prems(5,6) False length_rounds[of step es ?s] by (intro notI) auto
    ultimately show ?thesis using w(1) by (auto simp: Let_def split: prod.splits)
  qed
qed simp

end

section \<open>The wheel is a timer queue\<close>

definition wheel_inv :: "tw_base \<Rightarrow> bool" where
  "wheel_inv base \<longleftrightarrow> tw_inv base \<and> tw_work base = []"

definition wheel_now :: "tw_base \<Rightarrow> nat" where
  "wheel_now base = unat (tw_jiffies base)"

definition wheel_due :: "tw_base \<Rightarrow> tid \<Rightarrow> nat option" where
  "wheel_due base t = (if t \<in> pending_in base then Some (unat (expires_of base t)) else None)"

fun event_ok :: "tw_event \<Rightarrow> tw_base \<Rightarrow> bool" where
  "event_ok (as, call) base \<longleftrightarrow> ops_ok as base \<and> calls_ok call \<and> unat (tw_jiffies base) + 1 < 2 ^ 62"

fun event_leaves :: "tw_event \<Rightarrow> tid \<Rightarrow> bool" where
  "event_leaves (as, call) t \<longleftrightarrow> (\<forall>a\<in>set as. op_timer a \<noteq> t) \<and> calls_leave call t"

lemma ops_work_Nil: "tw_work base = [] \<Longrightarrow> tw_work (tw_ops as base) = []"
  using length_work_ops[of as base] by simp

lemma round_begin:
  assumes "wheel_inv base" "event_ok (as, call) base"
  shows "tw_inv (run_begin (tw_ops as base))" "unat (tw_jiffies (run_begin (tw_ops as base))) = unat (tw_jiffies base) + 1"
    "set (tw_work (run_begin (tw_ops as base))) = {t \<in> pending_in (tw_ops as base). unat (expires_of (tw_ops as base) t) \<le> unat (tw_jiffies base)}"
    "pending_in (run_begin (tw_ops as base)) = {t \<in> pending_in (tw_ops as base). unat (tw_jiffies base) < unat (expires_of (tw_ops as base) t)}"
    "tw_timers (run_begin (tw_ops as base)) = tw_timers (tw_ops as base)"
  using run_begin_post[OF ops_inv ops_work_Nil refl, of base as] assms by (simp_all add: wheel_inv_def ops_jiffies)

lemma wheel_timer:
  assumes "wheel_inv base" "event_ok (as, call) base" "event_leaves (as, call) t" "wheel_due base t = Some x"
  shows "t \<in> set (tw_work (run_begin (tw_ops as base))) \<longleftrightarrow> x \<le> wheel_now base"
    "wheel_now base < x \<Longrightarrow> wheel_due (run_begin (tw_ops as base)) t = Some x"
proof -
  have s: "same_timer t base (tw_ops as base)" using assms(3) by (intro same_ops) simp
  then have x: "t \<in> pending_in (tw_ops as base)" "unat (expires_of (tw_ops as base) t) = x"
    using assms(4) by (auto simp: same_timer_def wheel_due_def expires_of_def split: if_splits)
  show "t \<in> set (tw_work (run_begin (tw_ops as base))) \<longleftrightarrow> x \<le> wheel_now base"
    using round_begin(3)[OF assms(1,2)] x by (simp add: wheel_now_def)
  show "wheel_due (run_begin (tw_ops as base)) t = Some x" if "wheel_now base < x"
    using round_begin(4,5)[OF assms(1,2)] x that by (simp add: wheel_due_def wheel_now_def expires_of_def)
qed

interpretation wq: timer_queue wheel_inv wheel_now wheel_due tw_round event_ok event_leaves
proof unfold_locales
  fix base e assume i: "wheel_inv base" and ok: "event_ok e base"
  obtain as call where e: "e = (as, call)" by fastforce
  note b = round_begin[OF i ok[unfolded e]]
  note w = run_work_inv[OF b(1), of call "tw_jiffies base"]
  show "wheel_inv (snd (tw_round e base)) \<and> wheel_now (snd (tw_round e base)) = wheel_now base + 1"
    using w ok b(2) by (simp add: e wheel_inv_def wheel_now_def run_timers_def ops_jiffies)
next
  fix base e t x assume i: "wheel_inv base" and ok: "event_ok e base" "event_leaves e t" and d: "wheel_due base t = Some x"
  obtain as call where e: "e = (as, call)" by fastforce
  note w = wheel_timer[OF i ok[unfolded e] d]
  have l: "calls_leave call t" using ok(2) by (simp add: e)
  show "t \<in> set (fst (tw_round e base))" if "x \<le> wheel_now base"
    using w(1) that run_work_timer(1)[OF l] by (simp add: e run_timers_def)
  show "t \<notin> set (fst (tw_round e base)) \<and> wheel_due (snd (tw_round e base)) t = Some x" if n: "wheel_now base < x"
  proof -
    let ?b = "run_begin (tw_ops as base)" let ?r = "run_work call (tw_jiffies (tw_ops as base)) ?b"
    have "t \<notin> set (tw_work ?b)" using w(1) n by simp
    from run_work_timer(2)[OF l this] have "t \<notin> set (fst ?r)" "same_timer t ?b (snd ?r)" by auto
    then show ?thesis using w(2)[OF n] by (auto simp: e run_timers_def same_timer_def wheel_due_def expires_of_def split: if_splits)
  qed
qed

section \<open>A sample wheel\<close>

definition sample_wheel :: tw_base where
  "sample_wheel = \<lparr>tw_jiffies = 1700000000, tw_tv = (\<lambda>_. []), tw_work = [],
     tw_timers = (\<lambda>_. \<lparr>tt_data = 0, tt_expires = 3, tt_function = Some 1, tt_linked = False\<rparr>), tw_runner_alive = True, tw_stop = False\<rparr>"

lemma sample_inv: "wheel_inv sample_wheel" "\<not> timer_pending sample_wheel t" "expires_of sample_wheel t = 3"
  "tw_jiffies sample_wheel = 1700000000" "tt_function (tw_timers sample_wheel t) = Some 1"
  by (simp_all add: wheel_inv_def tw_inv_def links_ok_def wheel_ok_def times_ok_def pending_in_def sample_wheel_def timer_pending_def expires_of_def)

lemma sample_added: "wheel_inv (tw_add_timer sample_wheel t)" "tw_jiffies (tw_add_timer sample_wheel t) = 1700000000"
proof -
  have "tw_inv (tw_exec (Op_add t) sample_wheel)"
    using sample_inv by (intro exec_inv) (simp_all add: wheel_inv_def)
  then show "wheel_inv (tw_add_timer sample_wheel t)" using ops_work_Nil[of sample_wheel "[Op_add t]"] sample_inv(1) by (simp add: wheel_inv_def)
  show "tw_jiffies (tw_add_timer sample_wheel t) = 1700000000" using exec_jiffies[of "Op_add t" sample_wheel] sample_inv(4) by simp
qed

lemma quiet_along:
  assumes "wheel_inv base" "unat (tw_jiffies base) + n < 2 ^ 62"
  shows "all_along tw_round event_ok (replicate n ([], \<lambda>_ _ _. [])) base"
  using assms
proof (induction n arbitrary: base)
  case (Suc n)
  have ok: "event_ok ([], \<lambda>_ _ _. []) base" using Suc.prems(2) by (simp add: calls_ok_def)
  from wq.step_inv[OF Suc.prems(1) ok] show ?case using ok Suc.IH Suc.prems(2) by (simp add: wheel_now_def)
qed simp

section \<open>Properties\<close>

text \<open>
  C7: the five levels with their cascades are one set of timers. In a wheel that keeps its invariant, the
  start of \<^verbatim>\<open>run_timers\<close> at time \<open>j\<close> puts on the work list exactly the linked timers whose expiry is
  not after \<open>j\<close>, each once; it leaves the others linked and every timer object as it was, counts the time up, and keeps the
  invariant.
\<close>

theorem run_timers_refines_set:
  assumes "wheel_inv base" "unat (tw_jiffies base) + 1 < 2 ^ 62"
  shows "set (tw_work (run_begin base)) = {t \<in> pending_in base. expires_of base t \<le> tw_jiffies base} \<and> distinct (tw_work (run_begin base)) \<and>
    pending_in (run_begin base) = {t \<in> pending_in base. tw_jiffies base < expires_of base t} \<and>
    tw_timers (run_begin base) = tw_timers base \<and> tw_jiffies (run_begin base) = tw_jiffies base + 1 \<and> tw_inv (run_begin base)"
proof -
  note b = run_begin_post[OF _ _ refl assms(2)]
  have i: "tw_inv base" "tw_work base = []" using assms(1) by (auto simp: wheel_inv_def)
  have "distinct (tw_work (run_begin base))" using b(5)[OF i] by (simp add: tw_inv_def links_ok_def)
  moreover have "tw_jiffies (run_begin base) = tw_jiffies base + 1"
    using i run_cascades_sel(1)[of base] by (simp add: run_begin_def Let_def tw_inv_def)
  ultimately show ?thesis using b[OF i] by (simp add: word_le_nat_alt word_less_nat_alt)
qed

theorem run_timers_refines_set_witness:
  "let base = tw_add_timer sample_wheel 7 in
    set (tw_work (run_begin base)) = {t \<in> pending_in base. expires_of base t \<le> tw_jiffies base} \<and> distinct (tw_work (run_begin base)) \<and>
    pending_in (run_begin base) = {t \<in> pending_in base. tw_jiffies base < expires_of base t} \<and>
    tw_timers (run_begin base) = tw_timers base \<and> tw_jiffies (run_begin base) = tw_jiffies base + 1 \<and> tw_inv (run_begin base)"
  unfolding Let_def by (rule run_timers_refines_set) (simp_all add: sample_added)

text \<open>
  C6: timers fire on time. A timer that is added with a delay of \<open>e\<close> ticks, \<open>1 \<le> e\<close>, runs its callback in the \<open>e\<close>-th
  tick from then and in no earlier one, whatever the other threads and the callbacks do to other timers, as long as
  nobody touches this one.
\<close>

theorem timer_fires_on_time:
  assumes "wheel_inv base" "\<not> timer_pending base t" "tt_function (tw_timers base t) \<noteq> None"
    and "0 < expires_of base t" "expires_of base t < 2 ^ 62" "length es = unat (expires_of base t)"
    and "all_along tw_round event_ok es (tw_add_timer base t)" "\<forall>e\<in>set es. event_leaves e t"
  shows "t \<in> set (last (fst (rounds tw_round es (tw_add_timer base t)))) \<and>
    (\<forall>f\<in>set (butlast (fst (rounds tw_round es (tw_add_timer base t)))). t \<notin> set f)"
proof -
  let ?b = "tw_add_timer base t" and ?e = "expires_of base t"
  have inv: "tw_inv base" and w: "tw_work base = []" using assms(1) by (auto simp: wheel_inv_def)
  note n = new_expires[OF inv assms(5)]
  have e: "?b = tw_link_timer (set_expires t (?e + tw_jiffies base - 1) base) t" using assms(3) by (auto simp: tw_add_timer_def n(3))
  have "tw_inv ?b" using exec_inv[OF inv, of "Op_add t"] assms(2,5) by simp
  then have i: "wheel_inv ?b" using w by (simp add: wheel_inv_def e)
  have d: "wheel_due ?b t = Some (unat ?e + unat (tw_jiffies base) - 1)" by (simp add: wheel_due_def e n(1))
  have now: "wheel_now ?b = unat (tw_jiffies base)" by (simp add: wheel_now_def e)
  have pos: "1 \<le> unat ?e" using assms(4) by (simp add: word_less_nat_alt)
  show ?thesis by (rule wq.on_time[OF i assms(7,8) d]) (use pos assms(6) now in auto)
qed

theorem timer_fires_on_time_witness:
  "let fs = fst (rounds tw_round (replicate 3 ([], \<lambda>_ _ _. [])) (tw_add_timer sample_wheel 7))
   in 7 \<in> set (last fs) \<and> (\<forall>f\<in>set (butlast fs). 7 \<notin> set f)"
  unfolding Let_def
proof (rule timer_fires_on_time)
  show "all_along tw_round event_ok (replicate 3 ([], \<lambda>_ _ _. [])) (tw_add_timer sample_wheel 7)"
    by (rule quiet_along) (simp_all add: sample_added)
qed (simp_all add: sample_inv calls_leave_def)

lemma sint_small:
  assumes "unat (w :: 32 word) = n" "n < 2 ^ 31"
  shows "sint w = int n"
proof -
  have "uint w = int n" using assms(1) by (metis of_nat_unat)
  then show ?thesis using assms(2) by (simp add: sint_uint signed_take_bit_int_eq_self)
qed

text \<open>
  C8: the runner keeps its rhythm. From a start at which the expected time is a whole number of seconds after it, and with no
  overflow of the clock, the next expected time is again a whole number of seconds after the start, lies after
  the reading \<open>now\<close>, and the runner sleeps at most a second, and never a negative time.
\<close>

theorem timer_sleep_bounds:
  assumes "start \<le> now" "unat now + 1000 < 2 ^ 64" "start \<le> expect_time" "1000 dvd unat (expect_time - start)"
    and "unat expect_time \<le> unat now + 1000"
  shows "let e = timer_expect start expect_time now in
    now < e \<and> start \<le> e \<and> 1000 dvd unat (e - start) \<and> 0 < timer_sleep_time e now \<and> timer_sleep_time e now \<le> 1000 \<and>
    timer_sleep_time e now = int (unat e - unat now)"
proof -
  define e where "e = timer_expect start expect_time now"
  let ?n = "unat now" and ?s = "unat start"
  have le: "?s \<le> ?n" using assms(1) by (simp add: word_le_nat_alt)
  have e: "unat e = (if unat expect_time \<le> ?n then ?s + ((?n - ?s) div 1000 + 1) * 1000 else unat expect_time)"
  proof (cases "unat expect_time \<le> ?n")
    case True
    let ?d = "(?n - ?s) div 1000"
    have d: "unat ((now - start) div 1000) = ?d" using assms(1) by (simp add: unat_div unat_sub word_le_nat_alt)
    have b: "?d * 1000 \<le> ?n - ?s" by (rule div_times_less_eq_dividend)
    have "?d + 1 < 2 ^ 64" using b assms(2) by linarith
    then have "unat ((now - start) div 1000 + 1) = ?d + 1"
      using unat_add_lem[of "(now - start) div 1000" 1] d by simp
    moreover have "(?d + 1) * 1000 < 2 ^ 64" using b assms(2) by simp
    ultimately have m: "unat (((now - start) div 1000 + 1) * 1000) = (?d + 1) * 1000"
      using unat_mult_lem[of "(now - start) div 1000 + 1" 1000] by simp
    have "?s + (?d + 1) * 1000 < 2 ^ 64" using b assms(2) le by simp
    then have "unat (start + ((now - start) div 1000 + 1) * 1000) = ?s + (?d + 1) * 1000"
      using unat_add_lem[of start "((now - start) div 1000 + 1) * 1000"] m by simp
    then show ?thesis using True by (simp add: e_def timer_expect_def word_le_nat_alt Let_def)
  qed (simp add: e_def timer_expect_def word_le_nat_alt)
  have gt: "?n < unat e" and up: "unat e \<le> ?n + 1000" and se: "?s \<le> unat e"
    using e le assms(5) dividend_less_div_times[of 1000 "?n - ?s"] div_times_less_eq_dividend[of "?n - ?s" 1000] by (auto split: if_splits)
  have "unat (e - start) = unat e - ?s" using se by (simp add: unat_sub word_le_nat_alt)
  moreover have "unat (expect_time - start) = unat expect_time - ?s" using assms(3) by (simp add: unat_sub word_le_nat_alt)
  ultimately have dv: "1000 dvd unat (e - start)" using e assms(4) by (simp split: if_splits)
  have u: "unat (e - now) = unat e - ?n" using gt by (simp add: unat_sub word_le_nat_alt)
  then have "unat (ucast (e - now) :: 32 word) = unat e - ?n" using up by (simp add: unsigned_ucast_eq take_bit_nat_eq_self)
  then have "sint (ucast (e - now) :: 32 word) = int (unat e - ?n)" using up by (intro sint_small) simp_all
  then have "timer_sleep_time e now = int (unat e - ?n)" by (simp add: timer_sleep_time_def)
  then show ?thesis using gt up se dv by (auto simp: Let_def e_def[symmetric] word_less_nat_alt word_le_nat_alt)
qed

theorem timer_sleep_bounds_witness:
  "let e = timer_expect 1000 2000 2500 in
    2500 < e \<and> 1000 \<le> e \<and> 1000 dvd unat (e - 1000) \<and> 0 < timer_sleep_time e 2500 \<and> timer_sleep_time e 2500 \<le> 1000 \<and>
    timer_sleep_time e 2500 = int (unat e - unat (2500 :: u64))"
  by (rule timer_sleep_bounds) simp_all

end
