(* ===== verification/Spec2Isabelle.thy ===== *)
theory Spec2Isabelle
  imports Dns_Findings Hpack_Roundtrip Timer_Fires
begin

text \<open>
  A verification of parts of smartdns: the DNS message code (\<^verbatim>\<open>src/src/dns.c\<close>,
  \<^verbatim>\<open>src/src/include/smartdns/dns.h\<close>), HPACK (\<^verbatim>\<open>src/src/http_parse/hpack.c\<close>) and the timer
  wheel (\<^verbatim>\<open>src/src/lib/timer_wheel.c\<close>, \<^verbatim>\<open>src/src/timer.c\<close>).

  \<^bold>\<open>The program.\<close> smartdns is a local DNS server. A request arrives at a server socket
  (\<^verbatim>\<open>dns_server/\<close>), is decoded into a \<^verbatim>\<open>struct dns_packet\<close>, checked against the rules of the
  configuration (\<^verbatim>\<open>dns_conf/\<close>) and the cache (\<^verbatim>\<open>dns_cache.c\<close>), and otherwise sent to upstream servers
  (\<^verbatim>\<open>dns_client/\<close>) over UDP, TCP, TLS, HTTP/2, HTTP/3 or QUIC; the fastest address of the answers is chosen
  by probing (\<^verbatim>\<open>fast_ping/\<close>). All parts exchange messages through \<^verbatim>\<open>dns.c\<close>: bytes from the network are
  decoded by \<^verbatim>\<open>dns_decode\<close>, answers are built with the adders and written by \<^verbatim>\<open>dns_encode\<close>, and cached
  answers are patched in place by \<^verbatim>\<open>dns_packet_update\<close>.

  \<^bold>\<open>The model.\<close> Functions return the C return value and the new state. A buffer is a list of bytes
  with positions as natural numbers; a context (\<^verbatim>\<open>struct dns_context\<close>) carries its buffer, its pointer
  and a flag that is set as soon as an access leaves the buffer, so memory safety of a function is the
  statement that the flag stays unset. The state of a failed call is kept, since the code keeps it.

  \<^item> \<open>Prelude\<close>: bytes, big- and little-endian words, C strings.
  \<^item> \<open>Dns_Buffer\<close>: \<^verbatim>\<open>struct dns_context\<close> and the read and write primitives.
  \<^item> \<open>Dns_Name\<close>: \<^verbatim>\<open>_dns_get_domain_from_packet\<close>, the compression dictionary, \<^verbatim>\<open>_dns_encode_domain\<close>.
    \<open>Dns_Name_Decode\<close> shows that the decoder ends, stays inside its buffers and computes the name
    that a relation on the wire bytes describes; \<open>Dns_Name_Encode\<close> shows the same frame for the encoder,
    and that encoding and decoding a list of names is the identity.
  \<^item> \<open>Dns_Packet\<close>: \<^verbatim>\<open>struct dns_packet\<close>, whose records lie in one byte array, each behind a 16-byte
    \<^verbatim>\<open>struct dns_rrs\<close> that links the records of a section; \<open>Dns_Rrs\<close>: the list of records that the
    array represents, and that \<^verbatim>\<open>_dns_rr_add_end\<close> appends to it.
  \<^item> \<open>Dns_Record\<close>, \<open>Dns_Svcb\<close>: the adders and getters of the record types; \<open>Dns_Adders\<close>: the
    contract of the functions that add a complete record, as a locale that is interpreted for eight adders. A and AAAA
    records and the client subnet option keep the contract under a condition on the length of the address and have lemmas of
    the same form. SVCB and HTTPS records are built by several calls, whose end may also add nothing and return 0:
    \<open>Dns_Nested_Safe\<close> treats any sequence of these calls.
  \<^item> \<open>Dns_Decode\<close>: \<^verbatim>\<open>dns_decode\<close> and all it calls; \<open>Dns_Read_Safe\<close>, \<open>Dns_Nested_Safe\<close>,
    \<open>Dns_Decode_Safe\<close>: its safety on every input.
  \<^item> \<open>Dns_Encode\<close>: \<^verbatim>\<open>dns_encode\<close>; \<open>Dns_Head\<close>: the header's round trip; \<open>Dns_Roundtrip\<close>: raw records
    added with \<^verbatim>\<open>_dns_add_RAW\<close> are what \<^verbatim>\<open>_dns_get_RAW\<close> returns, and the counted loop over a section runs
    over exactly its records.
  \<^item> \<open>Dns_Update\<close>: \<^verbatim>\<open>dns_packet_update\<close>.
  \<^item> \<open>Access\<close>: the reads and writes of the components below, partial functions that are \<^const>\<open>None\<close> as
    soon as an access leaves its object.
  \<^item> \<open>Hpack_Integer\<close>, \<open>Hpack_Huffman\<close>, \<open>Hpack\<close>: \<^verbatim>\<open>hpack.c\<close>, the header compression of HTTP/2: integers,
    strings, the Huffman table, the static and the dynamic table, encoding and decoding of headers.
    The integer decoder is shown exact against unbounded numbers, the Huffman table a complete
    prefix code that decodes what it encodes. \<open>Hpack_Safe\<close>: decoding is safe on every input and keeps
    the table's size accounting; \<open>Hpack_Roundtrip\<close>: a header block decodes to the headers it was made from, with
    equal tables on both sides.
  \<^item> \<open>Timer_Wheel\<close>: the five levels of timers, adding, deleting and changing a timer, one tick with its
    callbacks, and the sleep of the runner; \<open>Timer_Wheel_Inv\<close>: the invariant, and that the levels behave like one set of
    timers; \<open>Timer_Fires\<close>: a timer fires in the tick it was set for.
  \<^item> \<open>Dns_Findings\<close>: inputs on which the code does not do what it means to.

  \<^bold>\<open>Bounds.\<close> Loops are total functions with a termination measure, so no fuel is used, except that
  \<^verbatim>\<open>_dns_rr_add_end\<close>'s search for the last record of a chain stops after 65536 steps, as many as there
  are offsets; on a packet that represents a list the search is shown to end earlier. Sizes of buffers are
  arbitrary; the packet object has at most 65535 bytes, since records are linked by 16-bit offsets, and
  the round trips take at most 16384 bytes, the reach of a compression pointer.

  \<^bold>\<open>Abstractions.\<close> The flags track accesses to the message, the packet object and the caller's buffers whose
  size is an argument. The local arrays on the stack (\<^verbatim>\<open>domain\<close>, \<^verbatim>\<open>cname\<close>, \<^verbatim>\<open>addr\<close>, \<^verbatim>\<open>raw_data\<close>,
  \<^verbatim>\<open>opt_data\<close> and the like) are lists: a copy into one is modelled with the check that the code makes before it,
  but their bounds are not tracked by the flag. For decoded names the bound is part of the safety of
  \<^verbatim>\<open>_dns_get_domain_from_packet\<close>. The two branches of \<^verbatim>\<open>_dns_read_short\<close> and its siblings for aligned and unaligned pointers compute the
  same number and are one definition. Memory allocation of HPACK succeeds, and its sizes are natural numbers.

  \<^bold>\<open>Not modelled.\<close> The other parts of the program: the cache, the
  parsers of the TLS hello, URLs and ALPN lists, the HTTP/2 frame code, the radix trees, the server
  and the client. Sockets, TLS sessions, threads and logging are interfaces of
  the operating system and of libraries.
\<close>

end
